theory Spec2Isabelle
  imports Main "HOL-Library.Word"
begin

section \<open>The cancellation tree of package context\<close>

text \<open>
  The objects of the package live in a store: a map from addresses to objects. A
  \<open>Context\<close> interface value is an address or nil (\<open>None\<close>). Channels are numbers;
  the store records which ones are closed. Each section of the source that runs under a
  mutex is one atomic step of the model, so the mutexes themselves are not represented.
  A goroutine started with \<open>go\<close> and a callback scheduled with \<open>time.AfterFunc\<close> are
  pending tasks of the store, run by a step of their own.
\<close>

type_synonym addr = nat
type_synonym chan = nat
type_synonym time = int

text \<open>\<open>Canceled\<close> and \<open>DeadlineExceeded\<close> are the package's two error values; a
  context implemented elsewhere may report any other error.\<close>

datatype error = Canceled | DeadlineExceeded | ForeignErr nat

text \<open>Keys and values of \<open>Value\<close>: \<open>&cancelCtxKey\<close> is the package's private key, and the
  only value the package tests for is a pointer to a \<open>cancelCtx\<close>.\<close>

datatype key = CancelCtxKey | UserKey nat

datatype val = VCancelCtx addr | VOther nat

record cancelCtx =
  Context :: "addr option"
  done_c :: "chan option"
  children :: "addr list option"
  err :: "error option"

text \<open>A context type from outside the package: it has a done channel, an error and a
  deadline of its own and answers \<open>Value\<close> by asking a wrapped context, if it has one.\<close>

record foreignCtx =
  f_done :: "chan option"
  f_err :: "error option"
  f_deadline :: "time option"
  f_inner :: "addr option"

text \<open>
  The types that implement \<open>Context\<close>. The source files at hand declare \<open>cancelCtx\<close> only.
  Modelled from the spec: \<open>emptyCtx\<close> (the root scope: no state, no deadline, a nil done
  signal, a nil error, no value), \<open>valueCtx\<close> (parent, key and value, immutable) and
  \<open>timerCtx\<close> (a cancellable scope with a deadline and a timer handle; the handle is
  \<open>True\<close> while a callback is scheduled).
\<close>

datatype ctx =
  EmptyCtx
  | CancelCtx cancelCtx
  | TimerCtx cancelCtx time bool
  | ValueCtx "addr option" key "val option"
  | ForeignCtx foreignCtx

text \<open>\<open>goroutines\<close> is the source's \<open>int32\<close> counter; \<open>watchers\<close> are the goroutines
  that \<open>propagateCancel\<close> has started and that have not finished, each with the parent
  and the child it watches.\<close>

record state =
  heap :: "addr \<Rightarrow> ctx option"
  nextAddr :: addr
  closedChans :: "chan set"
  nextChan :: chan
  goroutines :: "32 word"
  watchers :: "(addr option \<times> addr) list"
  now :: time

text \<open>A call returns a value or panics; a call that never returns is \<open>None\<close>.\<close>

datatype 'a outcome = Returns 'a | Panics

definition obind :: "'a outcome option \<Rightarrow> ('a \<Rightarrow> 'b outcome option) \<Rightarrow> 'b outcome option" where
  "obind m f = (case m of None \<Rightarrow> None | Some Panics \<Rightarrow> Some Panics | Some (Returns x) \<Rightarrow> f x)"

lemma obind_cong [fundef_cong]:
  "m = m' \<Longrightarrow> (\<And>x. m' = Some (Returns x) \<Longrightarrow> f x = f' x) \<Longrightarrow> obind m f = obind m' f'"
  by (auto simp: obind_def split: option.splits outcome.splits)

text \<open>\<open>closedchan\<close> is the package's reusable closed channel; \<open>init\<close> closes it. The two
  root contexts \<open>background\<close> and \<open>todo\<close> are allocated before anything else.\<close>

definition closedchan :: chan where
  "closedchan = 0"

definition init_state :: "time \<Rightarrow> state" where
  "init_state t = \<lparr> heap = (\<lambda>a. if a = 0 \<or> a = 1 then Some EmptyCtx else None), nextAddr = 2,
     closedChans = {closedchan}, nextChan = 1, goroutines = 0, watchers = [], now = t \<rparr>"

definition Background :: "addr option" where
  "Background = Some 0"

definition TODO :: "addr option" where
  "TODO = Some 1"

subsection \<open>Access to the embedded cancelCtx of an object\<close>

fun cancelCtx_of :: "ctx \<Rightarrow> cancelCtx option" where
  "cancelCtx_of (CancelCtx c) = Some c"
| "cancelCtx_of (TimerCtx c d t) = Some c"
| "cancelCtx_of _ = None"

fun map_cancelCtx :: "(cancelCtx \<Rightarrow> cancelCtx) \<Rightarrow> ctx \<Rightarrow> ctx" where
  "map_cancelCtx f (CancelCtx c) = CancelCtx (f c)"
| "map_cancelCtx f (TimerCtx c d t) = TimerCtx (f c) d t"
| "map_cancelCtx f x = x"

definition load :: "state \<Rightarrow> addr \<Rightarrow> cancelCtx option" where
  "load s a = (case heap s a of None \<Rightarrow> None | Some x \<Rightarrow> cancelCtx_of x)"

text \<open>An assignment to fields of the \<open>cancelCtx\<close> at an address.\<close>

definition modify :: "state \<Rightarrow> addr \<Rightarrow> (cancelCtx \<Rightarrow> cancelCtx) \<Rightarrow> state" where
  "modify s a f = s\<lparr>heap := (heap s)(a := map_option (map_cancelCtx f) (heap s a))\<rparr>"

definition alloc :: "state \<Rightarrow> ctx \<Rightarrow> addr \<times> state" where
  "alloc s x = (nextAddr s, s\<lparr>heap := (heap s)(nextAddr s \<mapsto> x), nextAddr := Suc (nextAddr s)\<rparr>)"

text \<open>\<open>close(ch)\<close> panics on a channel that is closed already.\<close>

definition close_chan :: "state \<Rightarrow> chan \<Rightarrow> state outcome option" where
  "close_chan s d = (if d \<in> closedChans s then Some Panics
     else Some (Returns (s\<lparr>closedChans := insert d (closedChans s)\<rparr>)))"

subsection \<open>The methods of the Context interface\<close>

text \<open>\<open>cancelCtx.Done\<close>: the channel is made on the first call.\<close>

definition cancelCtx_Done :: "state \<Rightarrow> addr \<Rightarrow> (chan option \<times> state) outcome option" where
  "cancelCtx_Done s a = (case load s a of
       None \<Rightarrow> Some Panics
     | Some c \<Rightarrow> (case done_c c of
           None \<Rightarrow> (let d = nextChan s
                    in Some (Returns (Some d, modify (s\<lparr>nextChan := Suc d\<rparr>) a (\<lambda>c. c\<lparr>done_c := Some d\<rparr>))))
         | Some d \<Rightarrow> Some (Returns (Some d, s))))"

text \<open>\<open>Done\<close> called on an interface value. \<open>timerCtx\<close> has the method of the \<open>cancelCtx\<close>
  it embeds, \<open>valueCtx\<close> the one of the \<open>Context\<close> it embeds.\<close>

partial_function (option) ctx_Done :: "state \<Rightarrow> addr option \<Rightarrow> (chan option \<times> state) outcome option" where
  "ctx_Done s r = (case r of
       None \<Rightarrow> Some Panics
     | Some a \<Rightarrow> (case heap s a of
           None \<Rightarrow> Some Panics
         | Some EmptyCtx \<Rightarrow> Some (Returns (None, s))
         | Some (CancelCtx c) \<Rightarrow> cancelCtx_Done s a
         | Some (TimerCtx c d t) \<Rightarrow> cancelCtx_Done s a
         | Some (ValueCtx p k v) \<Rightarrow> ctx_Done s p
         | Some (ForeignCtx f) \<Rightarrow> Some (Returns (f_done f, s))))"

declare ctx_Done.simps [code]

text \<open>\<open>cancelCtx.Err\<close>.\<close>

definition cancelCtx_Err :: "state \<Rightarrow> addr \<Rightarrow> error option outcome option" where
  "cancelCtx_Err s a = (case load s a of None \<Rightarrow> Some Panics | Some c \<Rightarrow> Some (Returns (err c)))"

partial_function (option) ctx_Err :: "state \<Rightarrow> addr option \<Rightarrow> error option outcome option" where
  "ctx_Err s r = (case r of
       None \<Rightarrow> Some Panics
     | Some a \<Rightarrow> (case heap s a of
           None \<Rightarrow> Some Panics
         | Some EmptyCtx \<Rightarrow> Some (Returns None)
         | Some (CancelCtx c) \<Rightarrow> cancelCtx_Err s a
         | Some (TimerCtx c d t) \<Rightarrow> cancelCtx_Err s a
         | Some (ValueCtx p k v) \<Rightarrow> ctx_Err s p
         | Some (ForeignCtx f) \<Rightarrow> Some (Returns (f_err f))))"

declare ctx_Err.simps [code]

text \<open>\<open>Value\<close>. The \<open>cancelCtx\<close> case is \<open>cancelCtx.Value\<close>: the private key is answered
  with the \<open>cancelCtx\<close> itself, any other key by the embedded \<open>Context\<close>.
  Modelled from the spec: \<open>valueCtx.Value\<close> returns its value when the key matches and
  asks its parent otherwise; a root reports absent.\<close>

partial_function (option) ctx_Value :: "state \<Rightarrow> addr option \<Rightarrow> key \<Rightarrow> val option outcome option" where
  "ctx_Value s r k = (case r of
       None \<Rightarrow> Some Panics
     | Some a \<Rightarrow> (case heap s a of
           None \<Rightarrow> Some Panics
         | Some EmptyCtx \<Rightarrow> Some (Returns None)
         | Some (CancelCtx c) \<Rightarrow>
             if k = CancelCtxKey then Some (Returns (Some (VCancelCtx a))) else ctx_Value s (Context c) k
         | Some (TimerCtx c d t) \<Rightarrow>
             if k = CancelCtxKey then Some (Returns (Some (VCancelCtx a))) else ctx_Value s (Context c) k
         | Some (ValueCtx p k' v) \<Rightarrow> if k = k' then Some (Returns v) else ctx_Value s p k
         | Some (ForeignCtx f) \<Rightarrow>
             (case f_inner f of None \<Rightarrow> Some (Returns None) | Some p \<Rightarrow> ctx_Value s (Some p) k)))"

declare ctx_Value.simps [code]

text \<open>\<open>Deadline\<close>: \<open>cancelCtx\<close> and \<open>valueCtx\<close> have the method of the \<open>Context\<close> they
  embed. Modelled from the spec: a timer scope reports its own deadline, a root none.\<close>

partial_function (option) ctx_Deadline :: "state \<Rightarrow> addr option \<Rightarrow> time option outcome option" where
  "ctx_Deadline s r = (case r of
       None \<Rightarrow> Some Panics
     | Some a \<Rightarrow> (case heap s a of
           None \<Rightarrow> Some Panics
         | Some EmptyCtx \<Rightarrow> Some (Returns None)
         | Some (CancelCtx c) \<Rightarrow> ctx_Deadline s (Context c)
         | Some (TimerCtx c d t) \<Rightarrow> Some (Returns (Some d))
         | Some (ValueCtx p k v) \<Rightarrow> ctx_Deadline s p
         | Some (ForeignCtx f) \<Rightarrow> Some (Returns (f_deadline f))))"

declare ctx_Deadline.simps [code]

subsection \<open>Finding the parent cancelCtx, removing a child\<close>

definition parentCancelCtx :: "state \<Rightarrow> addr option \<Rightarrow> (addr option \<times> state) outcome option" where
  "parentCancelCtx s parent =
     obind (ctx_Done s parent) (\<lambda>(dn, s1).
       if dn = Some closedchan \<or> dn = None then Some (Returns (None, s1))
       else obind (ctx_Value s1 parent CancelCtxKey) (\<lambda>v.
         case v of
           Some (VCancelCtx p) \<Rightarrow>
             (case load s1 p of
                None \<Rightarrow> Some Panics
              | Some pc \<Rightarrow> if done_c pc = dn then Some (Returns (Some p, s1))
                           else Some (Returns (None, s1)))
         | _ \<Rightarrow> Some (Returns (None, s1))))"

definition removeChild :: "state \<Rightarrow> addr option \<Rightarrow> addr \<Rightarrow> state outcome option" where
  "removeChild s parent child =
     obind (parentCancelCtx s parent) (\<lambda>(r, s1).
       case r of
         None \<Rightarrow> Some (Returns s1)
       | Some p \<Rightarrow> Some (Returns (modify s1 p (\<lambda>pc.
           case children pc of None \<Rightarrow> pc | Some cs \<Rightarrow> pc\<lparr>children := Some (removeAll child cs)\<rparr>))))"

subsection \<open>Cancellation\<close>

text \<open>
  \<open>cancelCtx.cancel\<close>, the call \<open>child.cancel\<close> through the \<open>canceler\<close> interface and the
  loop over \<open>c.children\<close>. The recursion follows the pointers of the store, so it is
  bounded by a number of nested interface calls \<open>n\<close>; \<open>None\<close> says that the bound was
  too small. The map \<open>children\<close> is a list without repetitions, read in list order.

  Modelled from the spec: \<open>timerCtx.cancel\<close>, which is not in the source files at hand.
  It cancels the scope as a cancellable scope is cancelled and deactivates the pending
  timer.
\<close>

fun with_timer :: "bool \<Rightarrow> ctx \<Rightarrow> ctx" where
  "with_timer b (TimerCtx c d t) = TimerCtx c d b"
| "with_timer b x = x"

definition stop_timer :: "state \<Rightarrow> addr \<Rightarrow> state" where
  "stop_timer s a = s\<lparr>heap := (heap s)(a := map_option (with_timer False) (heap s a))\<rparr>"

function cancelCtx_cancel :: "nat \<Rightarrow> state \<Rightarrow> addr \<Rightarrow> bool \<Rightarrow> error option \<Rightarrow> state outcome option"
  and timerCtx_cancel :: "nat \<Rightarrow> state \<Rightarrow> addr \<Rightarrow> bool \<Rightarrow> error option \<Rightarrow> state outcome option"
  and canceler_cancel :: "nat \<Rightarrow> state \<Rightarrow> addr \<Rightarrow> bool \<Rightarrow> error option \<Rightarrow> state outcome option"
  and cancel_children :: "nat \<Rightarrow> state \<Rightarrow> addr list \<Rightarrow> error option \<Rightarrow> state outcome option"
where
  "cancelCtx_cancel n s a removeFromParent e =
     (if e = None then Some Panics
      else case load s a of
          None \<Rightarrow> Some Panics
        | Some c \<Rightarrow>
            if err c \<noteq> None then Some (Returns s)
            else
              obind (let s1 = modify s a (\<lambda>c. c\<lparr>err := e\<rparr>)
                     in case done_c c of
                          None \<Rightarrow> Some (Returns (modify s1 a (\<lambda>c. c\<lparr>done_c := Some closedchan\<rparr>)))
                        | Some d \<Rightarrow> close_chan s1 d) (\<lambda>s2.
              obind (cancel_children n s2 (case children c of None \<Rightarrow> [] | Some cs \<Rightarrow> cs) e) (\<lambda>s3.
              let s4 = modify s3 a (\<lambda>c. c\<lparr>children := None\<rparr>)
              in if removeFromParent then removeChild s4 (Context c) a else Some (Returns s4))))"
| "timerCtx_cancel n s a removeFromParent e =
     obind (cancelCtx_cancel n s a removeFromParent e) (\<lambda>s1. Some (Returns (stop_timer s1 a)))"
| "canceler_cancel 0 s a removeFromParent e = None"
| "canceler_cancel (Suc n) s a removeFromParent e =
     (case heap s a of
        Some (CancelCtx c) \<Rightarrow> cancelCtx_cancel n s a removeFromParent e
      | Some (TimerCtx c d t) \<Rightarrow> timerCtx_cancel n s a removeFromParent e
      | _ \<Rightarrow> Some Panics)"
| "cancel_children n s [] e = Some (Returns s)"
| "cancel_children n s (child # rest) e =
     obind (canceler_cancel n s child False e) (\<lambda>s1. cancel_children n s1 rest e)"
  by pat_completeness auto
termination
  by (relation "measures
       [\<lambda>x. case x of Inl (Inl (n, _)) \<Rightarrow> n | Inl (Inr (n, _)) \<Rightarrow> n
                     | Inr (Inl (n, _)) \<Rightarrow> n | Inr (Inr (n, _)) \<Rightarrow> n,
        \<lambda>x. case x of Inl (Inl _) \<Rightarrow> 2 | Inl (Inr _) \<Rightarrow> 3 | Inr (Inl _) \<Rightarrow> 0 | Inr (Inr _) \<Rightarrow> 1,
        \<lambda>x. case x of Inr (Inr (_, _, cs, _)) \<Rightarrow> length cs | _ \<Rightarrow> 0]") auto

subsection \<open>Deriving contexts\<close>

text \<open>\<open>propagateCancel\<close>. The \<open>select\<close> with a \<open>default\<close> branch asks whether the parent's
  channel is closed. The goroutine of the last branch becomes a pending watcher.\<close>

definition propagateCancel :: "nat \<Rightarrow> state \<Rightarrow> addr option \<Rightarrow> addr \<Rightarrow> state outcome option" where
  "propagateCancel n s parent child =
     obind (ctx_Done s parent) (\<lambda>(dn, s1).
       case dn of
         None \<Rightarrow> Some (Returns s1)
       | Some d \<Rightarrow>
           if d \<in> closedChans s1
           then obind (ctx_Err s1 parent) (\<lambda>e. canceler_cancel n s1 child False e)
           else obind (parentCancelCtx s1 parent) (\<lambda>(r, s2).
             case r of
               Some p \<Rightarrow>
                 (case load s2 p of
                    None \<Rightarrow> Some Panics
                  | Some pc \<Rightarrow>
                      if err pc \<noteq> None then canceler_cancel n s2 child False (err pc)
                      else Some (Returns (modify s2 p (\<lambda>pc. pc\<lparr>children :=
                             Some (List.insert child (case children pc of None \<Rightarrow> [] | Some cs \<Rightarrow> cs))\<rparr>))))
             | None \<Rightarrow>
                 Some (Returns (s2\<lparr>goroutines := goroutines s2 + 1,
                                   watchers := watchers s2 @ [(parent, child)]\<rparr>))))"

definition newCancelCtx :: "addr option \<Rightarrow> cancelCtx" where
  "newCancelCtx parent = \<lparr> Context = parent, done_c = None, children = None, err = None \<rparr>"

text \<open>A \<open>CancelFunc\<close> returned by the package is a closure \<open>func() { c.cancel(b, e) }\<close>:
  the context, the flag and the error. Calling it selects the method by the type of
  the object \<open>c\<close> points to.\<close>

datatype CancelFunc = CancelFunc addr bool error

fun call_CancelFunc :: "nat \<Rightarrow> state \<Rightarrow> CancelFunc \<Rightarrow> state outcome option" where
  "call_CancelFunc n s (CancelFunc c b e) = canceler_cancel n s c b (Some e)"

definition WithCancel :: "nat \<Rightarrow> state \<Rightarrow> addr option \<Rightarrow> ((addr \<times> CancelFunc) \<times> state) outcome option" where
  "WithCancel n s parent =
     (if parent = None then Some Panics
      else let (c, s1) = alloc s (CancelCtx (newCancelCtx parent))
           in obind (propagateCancel n s1 parent c) (\<lambda>s2.
                Some (Returns ((c, CancelFunc c True Canceled), s2))))"

text \<open>\<open>WithDeadline\<close>. Times are integers, \<open>time.Until(d)\<close> is \<open>d - now\<close>, and
  \<open>time.AfterFunc\<close> sets the timer handle of the new context.\<close>

definition set_timer :: "state \<Rightarrow> addr \<Rightarrow> state" where
  "set_timer s a = s\<lparr>heap := (heap s)(a := map_option (with_timer True) (heap s a))\<rparr>"

definition WithDeadline :: "nat \<Rightarrow> state \<Rightarrow> addr option \<Rightarrow> time \<Rightarrow> ((addr \<times> CancelFunc) \<times> state) outcome option" where
  "WithDeadline n s parent d =
     (if parent = None then Some Panics
      else obind (ctx_Deadline s parent) (\<lambda>cur.
        if (case cur of None \<Rightarrow> False | Some t \<Rightarrow> t < d) then WithCancel n s parent
        else let (c, s1) = alloc s (TimerCtx (newCancelCtx parent) d False)
             in obind (propagateCancel n s1 parent c) (\<lambda>s2.
                  let dur = d - now s2
                  in if dur \<le> 0
                     then obind (timerCtx_cancel n s2 c True (Some DeadlineExceeded)) (\<lambda>s3.
                            Some (Returns ((c, CancelFunc c False Canceled), s3)))
                     else (case load s2 c of
                             None \<Rightarrow> Some Panics
                           | Some cc \<Rightarrow>
                               Some (Returns ((c, CancelFunc c True Canceled),
                                 if err cc = None then set_timer s2 c else s2))))))"

definition WithTimeout :: "nat \<Rightarrow> state \<Rightarrow> addr option \<Rightarrow> int \<Rightarrow> ((addr \<times> CancelFunc) \<times> state) outcome option" where
  "WithTimeout n s parent timeout = WithDeadline n s parent (now s + timeout)"

text \<open>\<open>WithValue\<close>; every key of the model is comparable.\<close>

definition WithValue :: "state \<Rightarrow> addr option \<Rightarrow> key option \<Rightarrow> val option \<Rightarrow> (addr \<times> state) outcome option" where
  "WithValue s parent k v =
     (if parent = None then Some Panics
      else case k of
          None \<Rightarrow> Some Panics
        | Some k' \<Rightarrow> Some (Returns (alloc s (ValueCtx parent k' v))))"

subsection \<open>Pending tasks and the environment\<close>

text \<open>The callback of \<open>time.AfterFunc\<close> in \<open>WithDeadline\<close>: once the deadline is reached a
  scheduled callback runs \<open>c.cancel(true, DeadlineExceeded)\<close>; a handle that is not
  scheduled runs nothing.\<close>

definition timer_fire :: "nat \<Rightarrow> state \<Rightarrow> addr \<Rightarrow> state outcome option" where
  "timer_fire n s a = (case heap s a of
       Some (TimerCtx c d True) \<Rightarrow>
         if d \<le> now s
         then timerCtx_cancel n (s\<lparr>heap := (heap s)(a \<mapsto> TimerCtx c d False)\<rparr>) a True (Some DeadlineExceeded)
         else Some (Returns s)
     | _ \<Rightarrow> Some (Returns s))"

text \<open>One run of the goroutine that \<open>propagateCancel\<close> starts: the \<open>select\<close> evaluates
  \<open>parent.Done()\<close> and \<open>child.Done()\<close>; when the parent's channel is closed the child is
  cancelled with the parent's error and the goroutine ends, when only the child's
  channel is closed the goroutine ends, and otherwise it keeps waiting. When both
  channels are closed the child is cancelled already, and either branch leaves it so.\<close>

definition remove_nth :: "nat \<Rightarrow> 'a list \<Rightarrow> 'a list" where
  "remove_nth i xs = take i xs @ drop (Suc i) xs"

definition watcher_run :: "nat \<Rightarrow> state \<Rightarrow> nat \<Rightarrow> state outcome option" where
  "watcher_run n s i =
     (if length (watchers s) \<le> i then Some (Returns s)
      else let (parent, child) = watchers s ! i
           in obind (ctx_Done s parent) (\<lambda>(pd, s1).
              obind (ctx_Done s1 (Some child)) (\<lambda>(cd, s2).
                if (case pd of None \<Rightarrow> False | Some d \<Rightarrow> d \<in> closedChans s2)
                then obind (ctx_Err s2 parent) (\<lambda>e.
                     obind (canceler_cancel n s2 child False e) (\<lambda>s3.
                       Some (Returns (s3\<lparr>watchers := remove_nth i (watchers s3)\<rparr>))))
                else if (case cd of None \<Rightarrow> False | Some d \<Rightarrow> d \<in> closedChans s2)
                then Some (Returns (s2\<lparr>watchers := remove_nth i (watchers s2)\<rparr>))
                else Some (Returns s2))))"

text \<open>What the environment does: it creates a context of a type of its own, with a new
  open channel, around a context it holds, and later cancels it: the error is set and
  the channel closed. The clock moves forward.\<close>

definition new_foreign :: "state \<Rightarrow> addr option \<Rightarrow> time option \<Rightarrow> addr \<times> state" where
  "new_foreign s inner dl =
     alloc (s\<lparr>nextChan := Suc (nextChan s)\<rparr>)
       (ForeignCtx \<lparr> f_done = Some (nextChan s), f_err = None, f_deadline = dl, f_inner = inner \<rparr>)"

definition foreign_cancel :: "state \<Rightarrow> addr \<Rightarrow> error \<Rightarrow> state" where
  "foreign_cancel s a e = (case heap s a of
       Some (ForeignCtx f) \<Rightarrow>
         (case f_done f of
            Some d \<Rightarrow> if d \<in> closedChans s then s
                      else s\<lparr>heap := (heap s)(a \<mapsto> ForeignCtx (f\<lparr>f_err := Some e\<rparr>)),
                             closedChans := insert d (closedChans s)\<rparr>
          | None \<Rightarrow> s)
     | _ \<Rightarrow> s)"

definition advance :: "state \<Rightarrow> time \<Rightarrow> state" where
  "advance s t = s\<lparr>now := max (now s) t\<rparr>"

section \<open>Basic facts about the store\<close>

declare cancelCtx_cancel.simps [simp del] timerCtx_cancel.simps [simp del]

lemma obind_simps [simp]:
  "obind None f = None"
  "obind (Some Panics) f = Some Panics"
  "obind (Some (Returns x)) f = f x"
  by (simp_all add: obind_def)

lemma obind_Returns:
  "obind m f = Some (Returns y) \<longleftrightarrow> (\<exists>x. m = Some (Returns x) \<and> f x = Some (Returns y))"
  by (auto simp: obind_def split: option.splits outcome.splits)

lemma heap_modify [simp]:
  "heap (modify s a f) b = (if b = a then map_option (map_cancelCtx f) (heap s a) else heap s b)"
  by (simp add: modify_def)

lemma load_modify [simp]:
  "load (modify s a f) b = (if b = a then map_option f (load s a) else load s b)"
proof (cases "heap s a")
  case None
  then show ?thesis by (simp add: load_def)
next
  case (Some x)
  then show ?thesis by (cases x) (simp_all add: load_def)
qed

lemma fields_modify [simp]:
  "nextAddr (modify s a f) = nextAddr s"
  "closedChans (modify s a f) = closedChans s"
  "nextChan (modify s a f) = nextChan s"
  "goroutines (modify s a f) = goroutines s"
  "watchers (modify s a f) = watchers s"
  "now (modify s a f) = now s"
  by (simp_all add: modify_def)

lemma cancelCtx_of_with_timer [simp]: "cancelCtx_of (with_timer b x) = cancelCtx_of x"
  by (cases x) simp_all

lemma heap_stop_timer [simp]:
  "heap (stop_timer s a) b = (if b = a then map_option (with_timer False) (heap s a) else heap s b)"
  by (simp add: stop_timer_def)

lemma load_stop_timer [simp]: "load (stop_timer s a) b = load s b"
  by (auto simp: load_def stop_timer_def split: option.splits)

lemma fields_stop_timer [simp]:
  "nextAddr (stop_timer s a) = nextAddr s"
  "closedChans (stop_timer s a) = closedChans s"
  "nextChan (stop_timer s a) = nextChan s"
  "goroutines (stop_timer s a) = goroutines s"
  "watchers (stop_timer s a) = watchers s"
  "now (stop_timer s a) = now s"
  by (simp_all add: stop_timer_def)

lemma heap_set_timer [simp]:
  "heap (set_timer s a) b = (if b = a then map_option (with_timer True) (heap s a) else heap s b)"
  by (simp add: set_timer_def)

lemma load_set_timer [simp]: "load (set_timer s a) b = load s b"
  by (auto simp: load_def set_timer_def split: option.splits)

lemma fields_set_timer [simp]:
  "nextAddr (set_timer s a) = nextAddr s"
  "closedChans (set_timer s a) = closedChans s"
  "nextChan (set_timer s a) = nextChan s"
  "goroutines (set_timer s a) = goroutines s"
  "watchers (set_timer s a) = watchers s"
  "now (set_timer s a) = now s"
  by (simp_all add: set_timer_def)

lemma load_nextChan_update [simp]: "load (s\<lparr>nextChan := k\<rparr>) a = load s a"
  by (simp add: load_def)

lemma load_closedChans_update [simp]: "load (s\<lparr>closedChans := k\<rparr>) a = load s a"
  by (simp add: load_def)

lemma load_watchers_update [simp]: "load (s\<lparr>watchers := k\<rparr>) a = load s a"
  by (simp add: load_def)

lemma load_goroutines_update [simp]: "load (s\<lparr>goroutines := k\<rparr>) a = load s a"
  by (simp add: load_def)

lemma load_now_update [simp]: "load (s\<lparr>now := k\<rparr>) a = load s a"
  by (simp add: load_def)

lemma load_Some_heap: "load s a = Some c \<Longrightarrow> \<exists>x. heap s a = Some x \<and> cancelCtx_of x = Some c"
  by (auto simp: load_def split: option.splits)

lemma cancelCtx_of_Some: "cancelCtx_of x = Some c \<longleftrightarrow> x = CancelCtx c \<or> (\<exists>d t. x = TimerCtx c d t)"
  by (cases x) auto

section \<open>Well-formed stores\<close>

definition cancelled :: "state \<Rightarrow> addr \<Rightarrow> bool" where
  "cancelled s a = (case load s a of None \<Rightarrow> False | Some c \<Rightarrow> err c \<noteq> None)"

fun chan_of :: "ctx \<Rightarrow> chan option" where
  "chan_of (CancelCtx c) = done_c c"
| "chan_of (TimerCtx c d t) = done_c c"
| "chan_of (ForeignCtx f) = f_done f"
| "chan_of _ = None"

definition kids :: "cancelCtx \<Rightarrow> addr list" where
  "kids c = (case children c of None \<Rightarrow> [] | Some cs \<Rightarrow> cs)"

definition cc_ok :: "state \<Rightarrow> addr \<Rightarrow> cancelCtx \<Rightarrow> bool" where
  "cc_ok s a c = ((\<exists>q. Context c = Some q \<and> q < a)
      \<and> (err c \<noteq> None) = (\<exists>d. done_c c = Some d \<and> d \<in> closedChans s)
      \<and> (\<forall>d. done_c c = Some d \<longrightarrow> d < nextChan s)
      \<and> (\<forall>ch \<in> set (kids c). a < ch \<and> load s ch \<noteq> None))"

fun obj_ok :: "state \<Rightarrow> addr \<Rightarrow> ctx \<Rightarrow> bool" where
  "obj_ok s a EmptyCtx = True"
| "obj_ok s a (CancelCtx c) = cc_ok s a c"
| "obj_ok s a (TimerCtx c d t) = cc_ok s a c"
| "obj_ok s a (ValueCtx p k v) = ((\<exists>q. p = Some q \<and> q < a) \<and> k \<noteq> CancelCtxKey)"
| "obj_ok s a (ForeignCtx f) = ((\<forall>q. f_inner f = Some q \<longrightarrow> q < a)
      \<and> (\<forall>d. f_done f = Some d \<longrightarrow> d < nextChan s \<and> (d \<in> closedChans s \<longrightarrow> f_err f \<noteq> None)))"

definition wf0 :: "state \<Rightarrow> bool" where
  "wf0 s = ((\<forall>a. (heap s a = None) = (nextAddr s \<le> a))
     \<and> closedchan \<in> closedChans s
     \<and> (\<forall>d \<in> closedChans s. d < nextChan s)
     \<and> (\<forall>a x. heap s a = Some x \<longrightarrow> obj_ok s a x)
     \<and> (\<forall>a b x y d. heap s a = Some x \<and> heap s b = Some y \<and> chan_of x = Some d \<and> chan_of y = Some d
            \<and> d \<noteq> closedchan \<longrightarrow> a = b))"

definition wf :: "state \<Rightarrow> bool" where
  "wf s = (wf0 s
     \<and> (\<forall>a c. load s a = Some c \<and> err c \<noteq> None \<longrightarrow> children c = None)
     \<and> (\<forall>a c d. heap s a = Some (TimerCtx c d True) \<longrightarrow> err c = None))"

text \<open>The object that answers Done and Err for a context: the context itself, or for
  a valueCtx the one that answers for its parent.\<close>

inductive answers :: "state \<Rightarrow> addr \<Rightarrow> addr \<Rightarrow> bool" for s where
  self: "heap s a = Some x \<Longrightarrow> (\<forall>p k v. x \<noteq> ValueCtx p k v) \<Longrightarrow> answers s a a"
| up: "heap s a = Some (ValueCtx (Some p) k v) \<Longrightarrow> answers s p q \<Longrightarrow> answers s a q"

definition ensure_done :: "state \<Rightarrow> addr \<Rightarrow> state" where
  "ensure_done s q = (case load s q of
       None \<Rightarrow> s
     | Some c \<Rightarrow> (case done_c c of
           None \<Rightarrow> modify (s\<lparr>nextChan := Suc (nextChan s)\<rparr>) q (\<lambda>c. c\<lparr>done_c := Some (nextChan s)\<rparr>)
         | Some d \<Rightarrow> s))"

definition chan_at :: "state \<Rightarrow> addr \<Rightarrow> chan option" where
  "chan_at s q = (case heap s q of None \<Rightarrow> None | Some x \<Rightarrow> chan_of x)"

definition err_at :: "state \<Rightarrow> addr \<Rightarrow> error option" where
  "err_at s q = (case heap s q of Some (CancelCtx c) \<Rightarrow> err c | Some (TimerCtx c d t) \<Rightarrow> err c
     | Some (ForeignCtx f) \<Rightarrow> f_err f | _ \<Rightarrow> None)"

lemma wf0_dom: "wf0 s \<Longrightarrow> (heap s a = None) = (nextAddr s \<le> a)"
  by (simp add: wf0_def)

lemma wf0_obj: "wf0 s \<Longrightarrow> heap s a = Some x \<Longrightarrow> obj_ok s a x"
  by (simp add: wf0_def)

lemma answers_exists:
  assumes "wf0 s"
  shows "a < nextAddr s \<Longrightarrow> \<exists>q. answers s a q \<and> q \<le> a"
proof (induction a rule: less_induct)
  case (less a)
  from less.prems assms obtain x where x: "heap s a = Some x"
    by (cases "heap s a") (auto simp: wf0_dom)
  show ?case
  proof (cases "\<exists>p k v. x = ValueCtx p k v")
    case False
    with x have "answers s a a" by (auto intro: answers.self)
    then show ?thesis by auto
  next
    case True
    then obtain p k v where xv: "x = ValueCtx p k v" by auto
    with wf0_obj [OF assms x] obtain p' where p: "p = Some p'" "p' < a" by auto
    with less.prems have "p' < nextAddr s" by simp
    from less.IH [OF p(2) this] obtain q where "answers s p' q" "q \<le> p'" by auto
    with x xv p show ?thesis by (auto intro: answers.up)
  qed
qed

lemma answers_not_value: "answers s a q \<Longrightarrow> \<exists>x. heap s q = Some x \<and> (\<forall>p k v. x \<noteq> ValueCtx p k v)"
  by (induction rule: answers.induct) auto

lemma ctx_Done_answers:
  "answers s a q \<Longrightarrow> ctx_Done s (Some a) = Some (Returns (chan_at (ensure_done s q) q, ensure_done s q))"
proof (induction rule: answers.induct)
  case (self a x)
  then show ?case
    by (cases x)
      (auto simp: ctx_Done.simps cancelCtx_Done_def chan_at_def ensure_done_def load_def Let_def
        split: option.splits)
next
  case (up a p k v q)
  then show ?case by (simp add: ctx_Done.simps)
qed

lemma ctx_Err_answers:
  "answers s a q \<Longrightarrow> ctx_Err s (Some a) = Some (Returns (err_at s q))"
proof (induction rule: answers.induct)
  case (self a x)
  then show ?case
    by (cases x) (auto simp: ctx_Err.simps cancelCtx_Err_def err_at_def load_def)
next
  case (up a p k v q)
  then show ?case by (simp add: ctx_Err.simps)
qed


inductive finds :: "state \<Rightarrow> addr \<Rightarrow> addr option \<Rightarrow> bool" for s where
  empty: "heap s a = Some EmptyCtx \<Longrightarrow> finds s a None"
| cancel: "heap s a = Some (CancelCtx c) \<Longrightarrow> finds s a (Some a)"
| timer: "heap s a = Some (TimerCtx c d t) \<Longrightarrow> finds s a (Some a)"
| val: "heap s a = Some (ValueCtx (Some p) k v) \<Longrightarrow> k \<noteq> CancelCtxKey \<Longrightarrow> finds s p r \<Longrightarrow> finds s a r"
| foreign_none: "heap s a = Some (ForeignCtx f) \<Longrightarrow> f_inner f = None \<Longrightarrow> finds s a None"
| foreign_inner: "heap s a = Some (ForeignCtx f) \<Longrightarrow> f_inner f = Some p \<Longrightarrow> finds s p r \<Longrightarrow> finds s a r"

lemma finds_exists:
  assumes "wf0 s"
  shows "a < nextAddr s \<Longrightarrow> \<exists>r. finds s a r"
proof (induction a rule: less_induct)
  case (less a)
  from less.prems assms obtain x where x: "heap s a = Some x"
    by (cases "heap s a") (auto simp: wf0_dom)
  note ok = wf0_obj [OF assms x]
  show ?case
  proof (cases x)
    case EmptyCtx
    with x show ?thesis by (auto intro: finds.empty)
  next
    case (CancelCtx c)
    with x show ?thesis by (auto intro: finds.cancel)
  next
    case (TimerCtx c d t)
    with x show ?thesis by (auto intro: finds.timer)
  next
    case (ValueCtx p k v)
    with ok obtain p' where p: "p = Some p'" "p' < a" "k \<noteq> CancelCtxKey" by auto
    with less.prems have "p' < nextAddr s" by simp
    from less.IH [OF p(2) this] obtain r where "finds s p' r" by auto
    with x ValueCtx p show ?thesis by (auto intro: finds.val)
  next
    case (ForeignCtx f)
    show ?thesis
    proof (cases "f_inner f")
      case None
      with x ForeignCtx show ?thesis by (auto intro: finds.foreign_none)
    next
      case (Some p)
      with ok ForeignCtx have "p < a" by auto
      with less.prems have "p < nextAddr s" by simp
      from less.IH [OF \<open>p < a\<close> this] obtain r where "finds s p r" by auto
      with x ForeignCtx Some show ?thesis by (auto intro: finds.foreign_inner)
    qed
  qed
qed

lemma finds_load: "finds s a r \<Longrightarrow> r = Some p \<Longrightarrow> load s p \<noteq> None"
  by (induction rule: finds.induct) (auto simp: load_def)

lemma finds_le:
  assumes "wf0 s"
  shows "finds s a r \<Longrightarrow> r = Some p \<Longrightarrow> p \<le> a"
proof (induction rule: finds.induct)
  case (val a p' k v r)
  then show ?case using wf0_obj [OF assms, of a "ValueCtx (Some p') k v"] by fastforce
next
  case (foreign_inner a f p' r)
  then show ?case using wf0_obj [OF assms, of a "ForeignCtx f"] by fastforce
qed auto

lemma ctx_Value_finds:
  "finds s a r \<Longrightarrow> ctx_Value s (Some a) CancelCtxKey = Some (Returns (map_option VCancelCtx r))"
  by (induction rule: finds.induct) (simp_all add: ctx_Value.simps)

lemma ctx_Deadline_returns:
  assumes "wf0 s"
  shows "a < nextAddr s \<Longrightarrow> \<exists>cur. ctx_Deadline s (Some a) = Some (Returns cur)"
proof (induction a rule: less_induct)
  case (less a)
  from less.prems assms obtain x where x: "heap s a = Some x"
    by (cases "heap s a") (auto simp: wf0_dom)
  note ok = wf0_obj [OF assms x]
  show ?case
  proof (cases x)
    case (CancelCtx c)
    with ok obtain p where p: "Context c = Some p" "p < a" by (auto simp: cc_ok_def)
    with less.prems have "p < nextAddr s" by simp
    from less.IH [OF p(2) this] x CancelCtx p show ?thesis by (simp add: ctx_Deadline.simps)
  next
    case (ValueCtx p k v)
    with ok obtain p' where p: "p = Some p'" "p' < a" by auto
    with less.prems have "p' < nextAddr s" by simp
    from less.IH [OF p(2) this] x ValueCtx p show ?thesis by (simp add: ctx_Deadline.simps)
  qed (use x in \<open>simp_all add: ctx_Deadline.simps\<close>)
qed

text \<open>The parts of an object that never change.\<close>

fun skel :: "ctx \<Rightarrow> ctx" where
  "skel (CancelCtx c) = CancelCtx (c\<lparr>done_c := None, children := None, err := None\<rparr>)"
| "skel (TimerCtx c d t) = TimerCtx (c\<lparr>done_c := None, children := None, err := None\<rparr>) d False"
| "skel (ForeignCtx f) = ForeignCtx (f\<lparr>f_done := None, f_err := None\<rparr>)"
| "skel x = x"

definition skeleton :: "state \<Rightarrow> addr \<Rightarrow> ctx option" where
  "skeleton s a = map_option skel (heap s a)"

lemma skel_eq_Value [simp]: "skel x = ValueCtx p k v \<longleftrightarrow> x = ValueCtx p k v"
  by (cases x) auto

lemma skel_eq_Empty [simp]: "skel x = EmptyCtx \<longleftrightarrow> x = EmptyCtx"
  by (cases x) auto

lemma skel_Cancel: "skel x = skel (CancelCtx c) \<Longrightarrow> \<exists>c'. x = CancelCtx c' \<and> Context c' = Context c"
  by (cases x) (auto, metis cancelCtx.select_convs(1) cancelCtx.surjective cancelCtx.update_convs(2,3,4))


lemma answers_skeleton:
  assumes "skeleton s' = skeleton s"
  shows "answers s a q \<Longrightarrow> answers s' a q"
proof (induction rule: answers.induct)
  case (self a x)
  from assms have "map_option skel (heap s' a) = map_option skel (heap s a)"
    by (simp add: skeleton_def fun_eq_iff)
  with self obtain y where y: "heap s' a = Some y" "skel y = skel x" by auto
  with self(2) have "\<forall>p k v. y \<noteq> ValueCtx p k v"
    by (metis skel_eq_Value)
  with y show ?case by (auto intro: answers.self)
next
  case (up a p k v q)
  from assms have "map_option skel (heap s' a) = map_option skel (heap s a)"
    by (simp add: skeleton_def fun_eq_iff)
  with up have "heap s' a = Some (ValueCtx (Some p) k v)" by auto
  with up show ?case by (auto intro: answers.up)
qed

lemma skel_kind:
  assumes "skel y = skel x"
  shows "(\<exists>c. x = CancelCtx c) = (\<exists>c. y = CancelCtx c)"
    and "(\<exists>c d t. x = TimerCtx c d t) = (\<exists>c d t. y = TimerCtx c d t)"
    and "(\<exists>f. x = ForeignCtx f) = (\<exists>f. y = ForeignCtx f)"
    and "x = EmptyCtx \<longleftrightarrow> y = EmptyCtx"
  using assms by (cases x; cases y; simp)+

lemma skel_Foreign: "skel y = skel (ForeignCtx f) \<Longrightarrow> \<exists>f'. y = ForeignCtx f' \<and> f_inner f' = f_inner f"
  by (cases y) (auto, metis foreignCtx.select_convs(4) foreignCtx.surjective foreignCtx.update_convs(1,2))

lemma finds_skeleton:
  assumes "skeleton s' = skeleton s"
  shows "finds s a r \<Longrightarrow> finds s' a r"
proof (induction rule: finds.induct)
  case (empty a)
  from assms have "map_option skel (heap s' a) = map_option skel (heap s a)"
    by (simp add: skeleton_def fun_eq_iff)
  with empty have "heap s' a = Some EmptyCtx" by auto
  then show ?case by (rule finds.empty)
next
  case (cancel a c)
  from assms have "map_option skel (heap s' a) = map_option skel (heap s a)"
    by (simp add: skeleton_def fun_eq_iff)
  with cancel obtain y where "heap s' a = Some y" "skel y = skel (CancelCtx c)" by auto
  with skel_kind(1) [of y "CancelCtx c"] show ?case by (auto intro: finds.cancel)
next
  case (timer a c d t)
  from assms have "map_option skel (heap s' a) = map_option skel (heap s a)"
    by (simp add: skeleton_def fun_eq_iff)
  with timer obtain y where "heap s' a = Some y" "skel y = skel (TimerCtx c d t)" by auto
  with skel_kind(2) [of y "TimerCtx c d t"] show ?case by (auto intro: finds.timer)
next
  case (val a p k v r)
  from assms have "map_option skel (heap s' a) = map_option skel (heap s a)"
    by (simp add: skeleton_def fun_eq_iff)
  with val have "heap s' a = Some (ValueCtx (Some p) k v)" by auto
  with val show ?case by (auto intro: finds.val)
next
  case (foreign_none a f)
  from assms have "map_option skel (heap s' a) = map_option skel (heap s a)"
    by (simp add: skeleton_def fun_eq_iff)
  with foreign_none obtain y where "heap s' a = Some y" "skel y = skel (ForeignCtx f)" by auto
  with skel_Foreign [of y f] foreign_none show ?case by (auto intro: finds.foreign_none)
next
  case (foreign_inner a f p r)
  from assms have "map_option skel (heap s' a) = map_option skel (heap s a)"
    by (simp add: skeleton_def fun_eq_iff)
  with foreign_inner obtain y where "heap s' a = Some y" "skel y = skel (ForeignCtx f)" by auto
  with skel_Foreign [of y f] foreign_inner show ?case by (auto intro: finds.foreign_inner)
qed

lemma skel_map_cancelCtx:
  "(\<And>c. Context (f c) = Context c) \<Longrightarrow> skel (map_cancelCtx f x) = skel x"
  by (cases x) (auto intro!: cancelCtx.equality)

lemma skeleton_modify [simp]:
  "(\<And>c. Context (f c) = Context c) \<Longrightarrow> skeleton (modify s a f) = skeleton s"
  by (auto simp: skeleton_def fun_eq_iff skel_map_cancelCtx option.map_comp o_def)

lemma skeleton_field_updates [simp]:
  "skeleton (s\<lparr>nextChan := n\<rparr>) = skeleton s"
  "skeleton (s\<lparr>closedChans := cl\<rparr>) = skeleton s"
  "skeleton (s\<lparr>goroutines := g\<rparr>) = skeleton s"
  "skeleton (s\<lparr>watchers := w\<rparr>) = skeleton s"
  "skeleton (s\<lparr>now := t\<rparr>) = skeleton s"
  by (simp_all add: skeleton_def fun_eq_iff)

lemma skel_with_timer [simp]: "skel (with_timer b x) = skel x"
  by (cases x) simp_all

lemma skeleton_stop_timer [simp]: "skeleton (stop_timer s a) = skeleton s"
  by (auto simp: skeleton_def fun_eq_iff option.map_comp o_def)

lemma skeleton_set_timer [simp]: "skeleton (set_timer s a) = skeleton s"
  by (auto simp: skeleton_def fun_eq_iff option.map_comp o_def)

lemma skeleton_ensure_done [simp]: "skeleton (ensure_done s q) = skeleton s"
  by (simp add: ensure_done_def split: option.splits)

lemma fields_ensure_done [simp]:
  "nextAddr (ensure_done s q) = nextAddr s"
  "closedChans (ensure_done s q) = closedChans s"
  "goroutines (ensure_done s q) = goroutines s"
  "watchers (ensure_done s q) = watchers s"
  "now (ensure_done s q) = now s"
  by (simp_all add: ensure_done_def split: option.splits)

lemma nextChan_ensure_done: "nextChan s \<le> nextChan (ensure_done s q)"
  by (simp add: ensure_done_def split: option.splits)

lemma load_ensure_done:
  "load (ensure_done s q) b = (if b = q
     then map_option (\<lambda>c. c\<lparr>done_c := Some (case done_c c of None \<Rightarrow> nextChan s | Some d \<Rightarrow> d)\<rparr>) (load s q)
     else load s b)"
  by (auto simp: ensure_done_def split: option.splits)

lemma load_ensure_done_None [simp]: "load (ensure_done s q) b = None \<longleftrightarrow> load s b = None"
  by (simp add: load_ensure_done)

lemma heap_ensure_done_other: "b \<noteq> q \<Longrightarrow> heap (ensure_done s q) b = heap s b"
  by (simp add: ensure_done_def split: option.splits)

lemma heap_ensure_done_None [simp]: "heap (ensure_done s q) b = None \<longleftrightarrow> heap s b = None"
  by (simp add: ensure_done_def split: option.splits)

lemma ensure_done_idem [simp]: "ensure_done (ensure_done s q) q = ensure_done s q"
  by (simp add: ensure_done_def split: option.splits)


lemma wf0_closedchan: "wf0 s \<Longrightarrow> closedchan \<in> closedChans s"
  by (simp add: wf0_def)

lemma wf0_closed_lt: "wf0 s \<Longrightarrow> d \<in> closedChans s \<Longrightarrow> d < nextChan s"
  by (simp add: wf0_def)

lemma wf0_owner:
  "wf0 s \<Longrightarrow> heap s a = Some x \<Longrightarrow> heap s b = Some y \<Longrightarrow> chan_of x = Some d
     \<Longrightarrow> chan_of y = Some d \<Longrightarrow> d \<noteq> closedchan \<Longrightarrow> a = b"
  unfolding wf0_def by blast

lemma wf0I:
  assumes "\<And>a. (heap s a = None) = (nextAddr s \<le> a)"
    and "closedchan \<in> closedChans s"
    and "\<And>d. d \<in> closedChans s \<Longrightarrow> d < nextChan s"
    and "\<And>a x. heap s a = Some x \<Longrightarrow> obj_ok s a x"
    and "\<And>a b x y d. heap s a = Some x \<Longrightarrow> heap s b = Some y \<Longrightarrow> chan_of x = Some d
           \<Longrightarrow> chan_of y = Some d \<Longrightarrow> d \<noteq> closedchan \<Longrightarrow> a = b"
  shows "wf0 s"
  unfolding wf0_def using assms by blast

lemma obj_ok_cancelCtx_of: "cancelCtx_of x = Some c \<Longrightarrow> obj_ok s a x = cc_ok s a c"
  by (cases x) auto

lemma chan_of_cancelCtx_of: "cancelCtx_of x = Some c \<Longrightarrow> chan_of x = done_c c"
  by (cases x) auto

lemma wf0_cc: "wf0 s \<Longrightarrow> load s a = Some c \<Longrightarrow> cc_ok s a c"
  by (auto dest!: load_Some_heap dest: wf0_obj simp: obj_ok_cancelCtx_of)

lemma wf0_chan_lt: "wf0 s \<Longrightarrow> heap s a = Some x \<Longrightarrow> chan_of x = Some d \<Longrightarrow> d < nextChan s"
  by (cases x) (auto dest: wf0_obj simp: cc_ok_def)

lemma cancelCtx_of_map [simp]: "cancelCtx_of (map_cancelCtx f x) = map_option f (cancelCtx_of x)"
  by (cases x) auto

lemma chan_of_map: "chan_of (map_cancelCtx f x) = (case cancelCtx_of x of None \<Rightarrow> chan_of x | Some c \<Rightarrow> done_c (f c))"
  by (cases x) auto

lemma map_cancelCtx_id: "cancelCtx_of x = None \<Longrightarrow> map_cancelCtx f x = x"
  by (cases x) auto

lemma obj_ok_mono:
  assumes "obj_ok s a x" and "closedChans s' = closedChans s" and "nextChan s \<le> nextChan s'"
    and "\<And>b. load s b \<noteq> None \<Longrightarrow> load s' b \<noteq> None"
  shows "obj_ok s' a x"
  using assms by (cases x) (auto simp: cc_ok_def)

lemma wf0_ensure_done:
  assumes "wf0 s"
  shows "wf0 (ensure_done s q)"
proof (cases "\<exists>c. load s q = Some c \<and> done_c c = None")
  case False
  then have "ensure_done s q = s" by (auto simp: ensure_done_def split: option.splits)
  with assms show ?thesis by simp
next
  case True
  then obtain c where c: "load s q = Some c" "done_c c = None" by auto
  let ?n = "nextChan s"
  let ?s = "ensure_done s q"
  have eq: "?s = modify (s\<lparr>nextChan := Suc ?n\<rparr>) q (\<lambda>c. c\<lparr>done_c := Some ?n\<rparr>)"
    using c by (simp add: ensure_done_def)
  have nc: "nextChan ?s = Suc ?n" by (simp add: eq)
  from wf0_cc [OF assms c(1)] c have ec: "err c = None" by (auto simp: cc_ok_def)
  have fresh: "?n \<notin> closedChans s" using wf0_closed_lt [OF assms, of ?n] by auto
  show ?thesis
  proof (rule wf0I)
    fix a show "(heap ?s a = None) = (nextAddr ?s \<le> a)"
      using wf0_dom [OF assms, of a] by simp
  next
    show "closedchan \<in> closedChans ?s" using wf0_closedchan [OF assms] by simp
  next
    fix d assume "d \<in> closedChans ?s"
    then show "d < nextChan ?s" using wf0_closed_lt [OF assms, of d] by (simp add: nc)
  next
    fix a x assume h: "heap ?s a = Some x"
    show "obj_ok ?s a x"
    proof (cases "a = q")
      case False
      with h have "heap s a = Some x" by (simp add: heap_ensure_done_other)
      from wf0_obj [OF assms this] show ?thesis
        by (rule obj_ok_mono) (simp_all add: nc)
    next
      case True
      from c obtain x0 where x0: "heap s q = Some x0" "cancelCtx_of x0 = Some c"
        by (auto dest: load_Some_heap)
      with h True have x: "x = map_cancelCtx (\<lambda>c. c\<lparr>done_c := Some ?n\<rparr>) x0"
        by (simp add: eq)
      have "cc_ok ?s q (c\<lparr>done_c := Some ?n\<rparr>)"
        using wf0_cc [OF assms c(1)] ec fresh by (auto simp: cc_ok_def nc kids_def)
      with x x0 True show ?thesis by (simp add: obj_ok_cancelCtx_of)
    qed
  next
    fix a b x y d
    assume h: "heap ?s a = Some x" "heap ?s b = Some y" "chan_of x = Some d" "chan_of y = Some d"
      "d \<noteq> closedchan"
    have old: "\<And>a x. a \<noteq> q \<Longrightarrow> heap ?s a = Some x \<Longrightarrow> chan_of x = Some d \<Longrightarrow> d < ?n"
      using wf0_chan_lt [OF assms] by (simp add: heap_ensure_done_other)
    have new: "\<And>x. heap ?s q = Some x \<Longrightarrow> chan_of x = Some d \<Longrightarrow> d = ?n"
      using c by (auto simp: eq chan_of_map dest!: load_Some_heap)
    show "a = b"
    proof (cases "a = q"; cases "b = q")
      assume "a \<noteq> q" "b \<noteq> q"
      with h wf0_owner [OF assms, of a x b y d] show ?thesis by (simp add: heap_ensure_done_other)
    qed (use h old new in \<open>fastforce+\<close>)
  qed
qed

subsection \<open>Done is stable; what parentCancelCtx answers\<close>

lemma ctx_Done_Returns_answers:
  assumes "ctx_Done s r = Some (Returns z)"
  shows "\<exists>a q. r = Some a \<and> answers s a q"
proof -
  have "\<forall>z. y = Returns z \<longrightarrow> (\<exists>a q. r = Some a \<and> answers s a q)"
    if "ctx_Done s r = Some y" for y
  proof (rule ctx_Done.raw_induct [where P = "\<lambda>s r y. \<forall>z. y = Returns z \<longrightarrow> (\<exists>a q. r = Some a \<and> answers s a q)", OF _ that])
    fix f s r y
    assume IH: "\<And>s r y. f s r = Some y \<Longrightarrow> \<forall>z. y = Returns z \<longrightarrow> (\<exists>a q. r = Some a \<and> answers s a q)"
      and body: "(case r of None \<Rightarrow> Some Panics
         | Some a \<Rightarrow> (case heap s a of None \<Rightarrow> Some Panics
            | Some EmptyCtx \<Rightarrow> Some (Returns (None, s))
            | Some (ValueCtx p k v) \<Rightarrow> f s p
            | Some (ForeignCtx f) \<Rightarrow> Some (Returns (f_done f, s))
            | Some _ \<Rightarrow> cancelCtx_Done s a)) = Some y"
    show "\<forall>z. y = Returns z \<longrightarrow> (\<exists>a q. r = Some a \<and> answers s a q)"
    proof (intro allI impI)
      fix z assume y: "y = Returns z"
      from body y obtain a where r: "r = Some a" by (cases r) auto
      from body r y obtain x where x: "heap s a = Some x"
        by (cases "heap s a") auto
      show "\<exists>a q. r = Some a \<and> answers s a q"
      proof (cases "\<exists>p k v. x = ValueCtx p k v")
        case False
        with x r show ?thesis by (auto intro: answers.self)
      next
        case True
        then obtain p k v where xv: "x = ValueCtx p k v" by auto
        with body r x have rec: "f s p = Some y" by simp
        from IH [OF rec] y obtain a' q where "p = Some a'" "answers s a' q" by auto
        then show ?thesis using x xv r by (auto intro: answers.up)
      qed
    qed
  qed
  with assms show ?thesis by blast
qed

lemma chan_at_ensure_done_idem [simp]:
  "chan_at (ensure_done (ensure_done s q) q) q = chan_at (ensure_done s q) q"
  by simp

lemma ctx_Done_idem:
  assumes "ctx_Done s r = Some (Returns (dn, s1))"
  shows "ctx_Done s1 r = Some (Returns (dn, s1))"
proof -
  from ctx_Done_Returns_answers [OF assms] obtain a q where r: "r = Some a" and q: "answers s a q"
    by auto
  from ctx_Done_answers [OF q] assms r have s1: "s1 = ensure_done s q" "dn = chan_at s1 q" by auto
  have "answers s1 a q" using q by (rule answers_skeleton [rotated]) (simp add: s1)
  from ctx_Done_answers [OF this] show ?thesis by (simp add: s1 r)
qed

text \<open>The answer of parentCancelCtx in terms of what Done and Value return.\<close>

definition found_parent :: "state \<Rightarrow> chan option \<Rightarrow> val option \<Rightarrow> addr \<Rightarrow> bool" where
  "found_parent s1 dn v p = (dn \<noteq> None \<and> dn \<noteq> Some closedchan \<and> v = Some (VCancelCtx p)
     \<and> (\<exists>pc. load s1 p = Some pc \<and> done_c pc = dn))"

lemma parentCancelCtx_cases:
  assumes "ctx_Done s parent = Some (Returns (dn, s1))"
    and "dn \<noteq> None \<Longrightarrow> dn \<noteq> Some closedchan \<Longrightarrow> ctx_Value s1 parent CancelCtxKey = Some (Returns v)"
    and "\<And>p. v = Some (VCancelCtx p) \<Longrightarrow> load s1 p \<noteq> None"
  shows "found_parent s1 dn v p \<Longrightarrow> parentCancelCtx s parent = Some (Returns (Some p, s1))"
    and "\<forall>p. \<not> found_parent s1 dn v p \<Longrightarrow> parentCancelCtx s parent = Some (Returns (None, s1))"
proof -
  show "parentCancelCtx s parent = Some (Returns (Some p, s1))" if "found_parent s1 dn v p"
    using that assms(1,2) by (auto simp: parentCancelCtx_def found_parent_def)
  show "parentCancelCtx s parent = Some (Returns (None, s1))" if nf: "\<forall>p. \<not> found_parent s1 dn v p"
  proof (cases "dn = None \<or> dn = Some closedchan")
    case True
    then show ?thesis using assms(1) by (auto simp: parentCancelCtx_def)
  next
    case False
    with assms(2) have v: "ctx_Value s1 parent CancelCtxKey = Some (Returns v)" by simp
    show ?thesis
    proof (cases "\<exists>p. v = Some (VCancelCtx p)")
      case no: False
      then show ?thesis using assms(1) v False
        by (auto simp: parentCancelCtx_def split: option.splits val.splits)
    next
      case True
      then obtain p where p: "v = Some (VCancelCtx p)" by auto
      with assms(3) obtain pc where pc: "load s1 p = Some pc" by auto
      with nf p False have "done_c pc \<noteq> dn" by (auto simp: found_parent_def)
      then show ?thesis using assms(1) v False p pc
        by (auto simp: parentCancelCtx_def)
    qed
  qed
qed

subsection \<open>Steps that cancel nothing: making a done channel, editing a children map\<close>

definition pending :: "state \<Rightarrow> addr \<Rightarrow> bool" where
  "pending s a = (\<exists>c d. heap s a = Some (TimerCtx c d True))"

lemma wf_wf0: "wf s \<Longrightarrow> wf0 s"
  by (simp add: wf_def)

lemma wf_nochild: "wf s \<Longrightarrow> load s a = Some c \<Longrightarrow> err c \<noteq> None \<Longrightarrow> children c = None"
  unfolding wf_def by blast

lemma wf_timer: "wf s \<Longrightarrow> heap s a = Some (TimerCtx c d True) \<Longrightarrow> err c = None"
  unfolding wf_def by blast

lemma wf0_modify_kids:
  assumes "wf0 s"
    and f: "\<And>c. load s p = Some c \<Longrightarrow> Context (f c) = Context c \<and> done_c (f c) = done_c c
        \<and> err (f c) = err c \<and> (\<forall>ch \<in> set (kids (f c)). p < ch \<and> load s ch \<noteq> None)"
  shows "wf0 (modify s p f)"
proof (rule wf0I)
  let ?s = "modify s p f"
  fix a show "(heap ?s a = None) = (nextAddr ?s \<le> a)"
    using wf0_dom [OF assms(1), of a] wf0_dom [OF assms(1), of p] by auto
next
  show "closedchan \<in> closedChans (modify s p f)" using wf0_closedchan [OF assms(1)] by simp
next
  fix d assume "d \<in> closedChans (modify s p f)"
  then show "d < nextChan (modify s p f)" using wf0_closed_lt [OF assms(1), of d] by simp
next
  fix a x assume h: "heap (modify s p f) a = Some x"
  have ld: "\<And>b. load s b \<noteq> None \<Longrightarrow> load (modify s p f) b \<noteq> None" by auto
  show "obj_ok (modify s p f) a x"
  proof (cases "a = p")
    case False
    with h have "heap s a = Some x" by simp
    from wf0_obj [OF assms(1) this] show ?thesis
      by (rule obj_ok_mono) auto
  next
    case True
    with h obtain x0 where x0: "heap s p = Some x0" "x = map_cancelCtx f x0" by auto
    show ?thesis
    proof (cases "cancelCtx_of x0")
      case None
      with x0 have "x = x0" by (simp add: map_cancelCtx_id)
      have "obj_ok (modify s p f) p x0"
        using wf0_obj [OF assms(1) x0(1)] by (rule obj_ok_mono) auto
      with \<open>x = x0\<close> True show ?thesis by simp
    next
      case (Some c)
      with x0 have l: "load s p = Some c" by (simp add: load_def)
      from wf0_cc [OF assms(1) l] f [OF l] have "cc_ok (modify s p f) p (f c)"
        by (auto simp: cc_ok_def)
      with Some x0 True show ?thesis by (simp add: obj_ok_cancelCtx_of)
    qed
  qed
next
  fix a b x y d
  assume h: "heap (modify s p f) a = Some x" "heap (modify s p f) b = Some y"
    "chan_of x = Some d" "chan_of y = Some d" "d \<noteq> closedchan"
  have same: "\<exists>x0. heap s a = Some x0 \<and> chan_of x0 = Some d"
    if "heap (modify s p f) a = Some x" "chan_of x = Some d" for a x
  proof (cases "a = p")
    case False
    with that show ?thesis by simp
  next
    case True
    with that obtain x0 where x0: "heap s p = Some x0" "x = map_cancelCtx f x0" by auto
    show ?thesis
    proof (cases "cancelCtx_of x0")
      case None
      with x0 that True show ?thesis by (simp add: map_cancelCtx_id)
    next
      case (Some c)
      with x0 have l: "load s p = Some c" by (simp add: load_def)
      from f [OF l] Some x0 that True show ?thesis by (simp add: chan_of_map chan_of_cancelCtx_of)
    qed
  qed
  from same [OF h(1,3)] same [OF h(2,4)] h(5) wf0_owner [OF assms(1)] show "a = b" by blast
qed

lemma skel_canceler: "skel y = skel x \<Longrightarrow> (cancelCtx_of y = None) = (cancelCtx_of x = None)"
  by (cases x; cases y; simp)

lemma load_None_skeleton:
  assumes "skeleton s' = skeleton s"
  shows "(load s' a = None) = (load s a = None)"
proof -
  from assms have "map_option skel (heap s' a) = map_option skel (heap s a)"
    by (simp add: skeleton_def fun_eq_iff)
  then show ?thesis
    by (cases "heap s a"; cases "heap s' a") (auto simp: load_def dest: skel_canceler)
qed

lemma map_cancelCtx_other: "cancelCtx_of x = None \<Longrightarrow> map_cancelCtx f x = x"
  by (cases x) auto

lemma heap_modify_other: "heap s b = Some x \<Longrightarrow> cancelCtx_of x = None \<Longrightarrow> heap (modify s a f) b = Some x"
  by (auto simp: map_cancelCtx_other)

lemma heap_ensure_done_other_kind:
  assumes "heap s b = Some x" "cancelCtx_of x = None"
  shows "heap (ensure_done s q) b = Some x"
proof (cases "b = q")
  case True
  with assms have "load s q = None" by (simp add: load_def)
  then have "ensure_done s q = s" by (simp add: ensure_done_def)
  with assms show ?thesis by simp
next
  case False
  with assms show ?thesis by (simp add: heap_ensure_done_other)
qed

definition benign :: "addr \<Rightarrow> state \<Rightarrow> state \<Rightarrow> bool" where
  "benign k s s' = (nextAddr s' = nextAddr s \<and> closedChans s' = closedChans s
     \<and> nextChan s \<le> nextChan s' \<and> goroutines s' = goroutines s \<and> watchers s' = watchers s
     \<and> now s' = now s \<and> skeleton s' = skeleton s
     \<and> (\<forall>b. k < b \<longrightarrow> heap s' b = heap s b)
     \<and> (\<forall>b x. heap s b = Some x \<and> cancelCtx_of x = None \<longrightarrow> heap s' b = Some x)
     \<and> (\<forall>b. pending s' b = pending s b)
     \<and> (\<forall>b c. load s b = Some c \<longrightarrow> (\<exists>c'. load s' b = Some c' \<and> err c' = err c
            \<and> (done_c c \<noteq> None \<longrightarrow> done_c c' = done_c c)
            \<and> set (kids c') \<subseteq> set (kids c) \<and> (children c = None \<longrightarrow> children c' = None))))"

lemma benign_load:
  "benign k s s' \<Longrightarrow> load s b = Some c \<Longrightarrow> \<exists>c'. load s' b = Some c' \<and> err c' = err c
            \<and> (done_c c \<noteq> None \<longrightarrow> done_c c' = done_c c)
            \<and> set (kids c') \<subseteq> set (kids c) \<and> (children c = None \<longrightarrow> children c' = None)"
  unfolding benign_def by blast

lemma benign_refl: "benign k s s"
  by (auto simp: benign_def)

lemma benign_trans:
  assumes "benign k s s1" "benign k s1 s2"
  shows "benign k s s2"
proof -
  have "\<exists>c'. load s2 b = Some c' \<and> err c' = err c
            \<and> (done_c c \<noteq> None \<longrightarrow> done_c c' = done_c c)
            \<and> set (kids c') \<subseteq> set (kids c) \<and> (children c = None \<longrightarrow> children c' = None)"
    if l: "load s b = Some c" for b c
  proof -
    from benign_load [OF assms(1) l] obtain c1 where c1: "load s1 b = Some c1" "err c1 = err c"
      "done_c c \<noteq> None \<longrightarrow> done_c c1 = done_c c" "set (kids c1) \<subseteq> set (kids c)"
      "children c = None \<longrightarrow> children c1 = None" by auto
    from benign_load [OF assms(2) c1(1)] obtain c2 where c2: "load s2 b = Some c2" "err c2 = err c1"
      "done_c c1 \<noteq> None \<longrightarrow> done_c c2 = done_c c1" "set (kids c2) \<subseteq> set (kids c1)"
      "children c1 = None \<longrightarrow> children c2 = None" by auto
    from c1 c2 show ?thesis by auto
  qed
  moreover have "heap s2 b = Some x" if "heap s b = Some x" "cancelCtx_of x = None" for b x
    using assms that unfolding benign_def by blast
  moreover have "nextAddr s2 = nextAddr s \<and> closedChans s2 = closedChans s
     \<and> nextChan s \<le> nextChan s2 \<and> goroutines s2 = goroutines s \<and> watchers s2 = watchers s
     \<and> now s2 = now s \<and> skeleton s2 = skeleton s
     \<and> (\<forall>b. k < b \<longrightarrow> heap s2 b = heap s b)
     \<and> (\<forall>b. pending s2 b = pending s b)"
    using assms unfolding benign_def by auto
  ultimately show ?thesis unfolding benign_def by blast
qed

lemma benign_mono: "benign k s s' \<Longrightarrow> k \<le> k' \<Longrightarrow> benign k' s s'"
  unfolding benign_def by auto

lemma pending_modify [simp]: "pending (modify s a f) b = pending s b"
proof (cases "heap s a")
  case None
  then show ?thesis by (auto simp: pending_def)
next
  case (Some x)
  then show ?thesis by (cases x) (auto simp: pending_def)
qed

lemma pending_nextChan [simp]: "pending (s\<lparr>nextChan := n\<rparr>) b = pending s b"
  by (simp add: pending_def)

lemma pending_ensure_done [simp]: "pending (ensure_done s q) b = pending s b"
  by (simp add: ensure_done_def split: option.splits)

lemma benign_ensure_done: "q \<le> k \<Longrightarrow> benign k s (ensure_done s q)"
  by (auto simp: benign_def nextChan_ensure_done heap_ensure_done_other load_ensure_done kids_def
      heap_ensure_done_other_kind)

lemma benign_modify_kids:
  assumes "\<And>c. Context (f c) = Context c \<and> done_c (f c) = done_c c \<and> err (f c) = err c
      \<and> set (kids (f c)) \<subseteq> set (kids c) \<and> (children c = None \<longrightarrow> children (f c) = None)"
    and "p \<le> k"
  shows "benign k s (modify s p f)"
  using assms by (auto simp: benign_def map_cancelCtx_other)

lemma wf_benign:
  assumes "wf s" "wf0 s'" "benign k s s'"
  shows "wf s'"
  unfolding wf_def
proof (intro conjI allI impI)
  show "wf0 s'" by fact
next
  fix a c assume h: "load s' a = Some c \<and> err c \<noteq> None"
  from assms(3) have sk: "skeleton s' = skeleton s" by (simp add: benign_def)
  have "load s a \<noteq> None"
    using load_None_skeleton [OF sk, of a] h by auto
  then obtain c0 where c0: "load s a = Some c0" by auto
  with benign_load [OF assms(3) c0] h have "err c0 = err c" "children c0 = None \<longrightarrow> children c = None"
    by auto
  with wf_nochild [OF assms(1) c0] h show "children c = None" by auto
next
  fix a c d assume h: "heap s' a = Some (TimerCtx c d True)"
  then have "pending s' a" by (auto simp: pending_def)
  with assms(3) have "pending s a" by (simp add: benign_def)
  then obtain c0 d0 where c0: "heap s a = Some (TimerCtx c0 d0 True)" by (auto simp: pending_def)
  then have "load s a = Some c0" by (simp add: load_def)
  with benign_load [OF assms(3) this] h have "err c0 = err c" by (auto simp: load_def)
  with wf_timer [OF assms(1) c0] show "err c = None" by simp
qed


lemma ctx_Done_wf0:
  assumes "wf0 s" "a < nextAddr s"
  obtains q where "q \<le> a" "answers s a q"
    "ctx_Done s (Some a) = Some (Returns (chan_at (ensure_done s q) q, ensure_done s q))"
  using answers_exists [OF assms] ctx_Done_answers by blast

lemma parentCancelCtx_wf0:
  assumes "wf0 s" "a < nextAddr s"
  shows "\<exists>r q. q \<le> a \<and> parentCancelCtx s (Some a) = Some (Returns (r, ensure_done s q))
     \<and> (\<forall>p. r = Some p \<longrightarrow> p \<le> a \<and> load s p \<noteq> None)"
proof -
  from ctx_Done_wf0 [OF assms] obtain q where q: "q \<le> a" "answers s a q"
    and dn: "ctx_Done s (Some a) = Some (Returns (chan_at (ensure_done s q) q, ensure_done s q))"
    by blast
  let ?s1 = "ensure_done s q"
  let ?dn = "chan_at ?s1 q"
  from finds_exists [OF assms] obtain r0 where r0: "finds s a r0" by auto
  then have f1: "finds ?s1 a r0" by (rule finds_skeleton [rotated]) simp
  let ?v = "map_option VCancelCtx r0"
  have v: "ctx_Value ?s1 (Some a) CancelCtxKey = Some (Returns ?v)"
    by (rule ctx_Value_finds [OF f1])
  have typed: "\<And>p. ?v = Some (VCancelCtx p) \<Longrightarrow> load ?s1 p \<noteq> None"
    using finds_load [OF f1] by auto
  have le: "\<And>p. ?v = Some (VCancelCtx p) \<Longrightarrow> p \<le> a"
    using finds_le [OF assms(1) r0] by auto
  show ?thesis
  proof (cases "\<exists>p. found_parent ?s1 ?dn ?v p")
    case True
    then obtain p where p: "found_parent ?s1 ?dn ?v p" by auto
    from parentCancelCtx_cases(1) [of s "Some a" ?dn ?s1 ?v p] dn v typed p
    have "parentCancelCtx s (Some a) = Some (Returns (Some p, ?s1))" by auto
    moreover from p have "?v = Some (VCancelCtx p)" by (simp add: found_parent_def)
    ultimately show ?thesis using q(1) le typed by auto
  next
    case False
    with parentCancelCtx_cases(2) [of s "Some a" ?dn ?s1 ?v] dn v typed
    have "parentCancelCtx s (Some a) = Some (Returns (None, ?s1))" by auto
    with q(1) show ?thesis by auto
  qed
qed

lemma removeChild_wf0:
  assumes "wf0 s" "a < nextAddr s"
  shows "\<exists>s'. removeChild s (Some a) child = Some (Returns s') \<and> wf0 s' \<and> benign a s s'"
proof -
  from parentCancelCtx_wf0 [OF assms] obtain r q where q: "q \<le> a"
    and pc: "parentCancelCtx s (Some a) = Some (Returns (r, ensure_done s q))"
    and r: "\<And>p. r = Some p \<Longrightarrow> p \<le> a \<and> load s p \<noteq> None" by blast
  let ?s1 = "ensure_done s q"
  have w1: "wf0 ?s1" by (rule wf0_ensure_done [OF assms(1)])
  have b1: "benign a s ?s1" by (rule benign_ensure_done [OF q])
  show ?thesis
  proof (cases r)
    case None
    with pc w1 b1 show ?thesis by (simp add: removeChild_def)
  next
    case (Some p)
    let ?f = "\<lambda>pc. case children pc of None \<Rightarrow> pc | Some cs \<Rightarrow> pc\<lparr>children := Some (removeAll child cs)\<rparr>"
    have res: "removeChild s (Some a) child = Some (Returns (modify ?s1 p ?f))"
      using pc Some by (simp add: removeChild_def)
    have fp: "Context (?f c) = Context c \<and> done_c (?f c) = done_c c \<and> err (?f c) = err c
        \<and> set (kids (?f c)) \<subseteq> set (kids c) \<and> (children c = None \<longrightarrow> children (?f c) = None)" for c
      by (auto simp: kids_def split: option.splits)
    have "wf0 (modify ?s1 p ?f)"
    proof (rule wf0_modify_kids [OF w1])
      fix c assume l: "load ?s1 p = Some c"
      from wf0_cc [OF w1 l] fp [of c]
      show "Context (?f c) = Context c \<and> done_c (?f c) = done_c c \<and> err (?f c) = err c
          \<and> (\<forall>ch\<in>set (kids (?f c)). p < ch \<and> load ?s1 ch \<noteq> None)"
        by (auto simp: cc_ok_def)
    qed
    moreover have "benign a ?s1 (modify ?s1 p ?f)"
      using fp r [OF Some] by (intro benign_modify_kids) auto
    ultimately show ?thesis using res benign_trans [OF b1] by blast
  qed
qed

subsection \<open>What a cancellation changes\<close>

definition dch :: "cancelCtx \<Rightarrow> chan" where
  "dch c = (case done_c c of None \<Rightarrow> closedchan | Some d \<Rightarrow> d)"

definition mark :: "error \<Rightarrow> cancelCtx \<Rightarrow> cancelCtx" where
  "mark cause c = c\<lparr>err := Some cause, done_c := Some (dch c), children := None\<rparr>"

definition premark :: "error \<Rightarrow> cancelCtx \<Rightarrow> cancelCtx" where
  "premark cause c = c\<lparr>err := Some cause, done_c := Some (dch c)\<rparr>"

definition fanout :: "error \<Rightarrow> addr option \<Rightarrow> state \<Rightarrow> state \<Rightarrow> bool" where
  "fanout cause ex s s' = (nextAddr s' = nextAddr s \<and> nextChan s' = nextChan s
     \<and> goroutines s' = goroutines s \<and> watchers s' = watchers s \<and> now s' = now s
     \<and> skeleton s' = skeleton s \<and> closedChans s \<subseteq> closedChans s'
     \<and> (\<forall>b x. heap s b = Some x \<and> cancelCtx_of x = None \<longrightarrow> heap s' b = Some x)
     \<and> (\<forall>b c. load s b = Some c \<longrightarrow> load s' b = Some c
            \<or> (err c = None \<and> (load s' b = Some (mark cause c)
                  \<or> (ex = Some b \<and> load s' b = Some (premark cause c)))))
     \<and> (\<forall>b. pending s' b \<longrightarrow> pending s b \<and> (cancelled s' b \<longrightarrow> cancelled s b \<or> ex = Some b))
     \<and> (\<forall>d \<in> closedChans s'. d \<in> closedChans s
            \<or> (\<exists>b c. load s b = Some c \<and> err c = None \<and> done_c c = Some d \<and> cancelled s' b))
     \<and> (\<forall>b c. load s b = Some c \<and> err c = None \<and> cancelled s' b
            \<longrightarrow> dch c \<in> closedChans s' \<and> (ex \<noteq> Some b \<longrightarrow> (\<forall>ch \<in> set (kids c). cancelled s' ch))))"

lemma premark_simps [simp]:
  "err (premark cause c) = Some cause"
  "done_c (premark cause c) = Some (dch c)"
  "children (premark cause c) = children c"
  "Context (premark cause c) = Context c"
  "kids (premark cause c) = kids c"
  by (simp_all add: premark_def kids_def)

lemma mark_simps [simp]:
  "err (mark cause c) = Some cause"
  "done_c (mark cause c) = Some (dch c)"
  "children (mark cause c) = None"
  "Context (mark cause c) = Context c"
  "kids (mark cause c) = []"
  by (simp_all add: mark_def kids_def)

lemma fanout_fields:
  assumes "fanout cause ex s s'"
  shows "nextAddr s' = nextAddr s" "nextChan s' = nextChan s" "goroutines s' = goroutines s"
    "watchers s' = watchers s" "now s' = now s" "skeleton s' = skeleton s"
    "closedChans s \<subseteq> closedChans s'"
  using assms by (simp_all add: fanout_def)

lemma fanout_other: "fanout cause ex s s' \<Longrightarrow> heap s b = Some x \<Longrightarrow> cancelCtx_of x = None \<Longrightarrow> heap s' b = Some x"
  unfolding fanout_def by blast

lemma fanout_load:
  "fanout cause ex s s' \<Longrightarrow> load s b = Some c \<Longrightarrow> load s' b = Some c
     \<or> (err c = None \<and> (load s' b = Some (mark cause c) \<or> (ex = Some b \<and> load s' b = Some (premark cause c))))"
  unfolding fanout_def by blast

lemma fanout_load_None:
  "fanout cause None s s' \<Longrightarrow> load s b = Some c \<Longrightarrow> load s' b = Some c
     \<or> (err c = None \<and> load s' b = Some (mark cause c))"
  by (auto dest: fanout_load)

lemma fanout_pending:
  "fanout cause ex s s' \<Longrightarrow> pending s' b \<Longrightarrow> pending s b \<and> (cancelled s' b \<longrightarrow> cancelled s b \<or> ex = Some b)"
  unfolding fanout_def by blast

lemma fanout_closed:
  "fanout cause ex s s' \<Longrightarrow> d \<in> closedChans s' \<Longrightarrow> d \<in> closedChans s
     \<or> (\<exists>b c. load s b = Some c \<and> err c = None \<and> done_c c = Some d \<and> cancelled s' b)"
  unfolding fanout_def by blast

lemma fanout_new:
  "fanout cause ex s s' \<Longrightarrow> load s b = Some c \<Longrightarrow> err c = None \<Longrightarrow> cancelled s' b
     \<Longrightarrow> dch c \<in> closedChans s' \<and> (ex \<noteq> Some b \<longrightarrow> (\<forall>ch \<in> set (kids c). cancelled s' ch))"
  unfolding fanout_def by blast

lemma fanoutI:
  assumes "nextAddr s' = nextAddr s" "nextChan s' = nextChan s" "goroutines s' = goroutines s"
    "watchers s' = watchers s" "now s' = now s" "skeleton s' = skeleton s"
    "closedChans s \<subseteq> closedChans s'"
    and "\<And>b x. heap s b = Some x \<Longrightarrow> cancelCtx_of x = None \<Longrightarrow> heap s' b = Some x"
    and "\<And>b c. load s b = Some c \<Longrightarrow> load s' b = Some c
            \<or> (err c = None \<and> (load s' b = Some (mark cause c)
                  \<or> (ex = Some b \<and> load s' b = Some (premark cause c))))"
    and "\<And>b. pending s' b \<Longrightarrow> pending s b \<and> (cancelled s' b \<longrightarrow> cancelled s b \<or> ex = Some b)"
    and "\<And>d. d \<in> closedChans s' \<Longrightarrow> d \<in> closedChans s
            \<or> (\<exists>b c. load s b = Some c \<and> err c = None \<and> done_c c = Some d \<and> cancelled s' b)"
    and "\<And>b c. load s b = Some c \<Longrightarrow> err c = None \<Longrightarrow> cancelled s' b
            \<Longrightarrow> dch c \<in> closedChans s' \<and> (ex \<noteq> Some b \<longrightarrow> (\<forall>ch \<in> set (kids c). cancelled s' ch))"
  shows "fanout cause ex s s'"
  unfolding fanout_def using assms by blast

lemma cancelled_load: "cancelled s a \<longleftrightarrow> (\<exists>c. load s a = Some c \<and> err c \<noteq> None)"
  by (auto simp: cancelled_def split: option.splits)

lemma fanout_cancelled_mono: "fanout cause ex s s' \<Longrightarrow> cancelled s b \<Longrightarrow> cancelled s' b"
  by (auto simp: cancelled_load dest: fanout_load)

lemma fanout_refl: "fanout cause ex s s"
  by (rule fanoutI) (auto simp: cancelled_load)

lemma fanout_weaken: "fanout cause None s s' \<Longrightarrow> fanout cause ex s s'"
  unfolding fanout_def by blast

lemma fanout_trans:
  assumes 1: "fanout cause None s s1" and 2: "fanout cause None s1 s2"
  shows "fanout cause None s s2"
proof (rule fanoutI)
  fix b x assume "heap s b = Some x" "cancelCtx_of x = None"
  then show "heap s2 b = Some x" using fanout_other [OF 1] fanout_other [OF 2] by blast
next
  fix b c assume l: "load s b = Some c"
  from fanout_load_None [OF 1 l] show "load s2 b = Some c
      \<or> (err c = None \<and> (load s2 b = Some (mark cause c) \<or> (None = Some b \<and> load s2 b = Some (premark cause c))))"
  proof
    assume "load s1 b = Some c"
    from fanout_load_None [OF 2 this] show ?thesis by auto
  next
    assume m: "err c = None \<and> load s1 b = Some (mark cause c)"
    with fanout_load_None [OF 2, of b "mark cause c"] show ?thesis by auto
  qed
next
  fix b assume p: "pending s2 b"
  from fanout_pending [OF 2 p] fanout_pending [OF 1, of b]
  show "pending s b \<and> (cancelled s2 b \<longrightarrow> cancelled s b \<or> None = Some b)" by auto
next
  fix d assume d: "d \<in> closedChans s2"
  from fanout_closed [OF 2 d]
  show "d \<in> closedChans s \<or> (\<exists>b c. load s b = Some c \<and> err c = None \<and> done_c c = Some d \<and> cancelled s2 b)"
  proof
    assume "d \<in> closedChans s1"
    from fanout_closed [OF 1 this] fanout_cancelled_mono [OF 2] show ?thesis by blast
  next
    assume "\<exists>b c. load s1 b = Some c \<and> err c = None \<and> done_c c = Some d \<and> cancelled s2 b"
    then obtain b c where b: "load s1 b = Some c" "err c = None" "done_c c = Some d" "cancelled s2 b"
      by blast
    from load_None_skeleton [OF fanout_fields(6) [OF 1], of b] b(1)
    obtain c0 where c0: "load s b = Some c0" by auto
    from fanout_load_None [OF 1 c0] b(1,2) have "c0 = c" by auto
    with c0 b show ?thesis by blast
  qed
next
  fix b c assume l: "load s b = Some c" and e: "err c = None" and c2: "cancelled s2 b"
  show "dch c \<in> closedChans s2 \<and> (None \<noteq> Some b \<longrightarrow> (\<forall>ch \<in> set (kids c). cancelled s2 ch))"
  proof (cases "cancelled s1 b")
    case True
    from fanout_new [OF 1 l e True] fanout_cancelled_mono [OF 2] fanout_fields(7) [OF 2]
    show ?thesis by blast
  next
    case False
    with fanout_load_None [OF 1 l] have "load s1 b = Some c" by (auto simp: cancelled_load)
    from fanout_new [OF 2 this e c2] show ?thesis .
  qed
qed (use fanout_fields [OF 1] fanout_fields [OF 2] in auto)


lemma heap_skeleton:
  assumes "skeleton s' = skeleton s"
  shows "map_option skel (heap s' a) = map_option skel (heap s a)"
  using assms by (simp add: skeleton_def fun_eq_iff)

lemma heap_None_skeleton: "skeleton s' = skeleton s \<Longrightarrow> (heap s' a = None) = (heap s a = None)"
  using heap_skeleton [of s' s a] by auto

lemma fanout_heap_cases:
  assumes f: "fanout cause ex s s'" and h: "heap s' a = Some y"
  obtains (other) "cancelCtx_of y = None" "heap s a = Some y"
    | (canc) c' c where "cancelCtx_of y = Some c'" "load s' a = Some c'" "load s a = Some c"
        "c' = c \<or> err c = None \<and> (c' = mark cause c \<or> c' = premark cause c)"
proof -
  note sk = fanout_fields(6) [OF f]
  from heap_None_skeleton [OF sk, of a] h obtain x where x: "heap s a = Some x" by auto
  show thesis
  proof (cases "cancelCtx_of x")
    case None
    from fanout_other [OF f x None] h have "y = x" by simp
    with None x other show ?thesis by simp
  next
    case (Some c)
    with x have l: "load s a = Some c" by (simp add: load_def)
    from fanout_load [OF f l] h obtain c' where "load s' a = Some c'" "cancelCtx_of y = Some c'"
      "c' = c \<or> (err c = None \<and> (c' = mark cause c \<or> c' = premark cause c))"
      by (auto simp: load_def)
    with l canc show ?thesis by blast
  qed
qed

lemma fanout_wf0:
  assumes w: "wf0 s" and f: "fanout cause ex s s'"
  shows "wf0 s'"
proof (rule wf0I)
  note sk = fanout_fields(6) [OF f]
  fix a show "(heap s' a = None) = (nextAddr s' \<le> a)"
    using heap_None_skeleton [OF sk, of a] wf0_dom [OF w, of a] fanout_fields(1) [OF f] by simp
next
  show "closedchan \<in> closedChans s'" using wf0_closedchan [OF w] fanout_fields(7) [OF f] by auto
next
  fix d assume "d \<in> closedChans s'"
  from fanout_closed [OF f this] show "d < nextChan s'"
    using wf0_closed_lt [OF w, of d] fanout_fields(2) [OF f]
    by (auto dest!: wf0_cc [OF w] simp: cc_ok_def)
next
  note sk = fanout_fields(6) [OF f]
  have ld: "\<And>b. load s b \<noteq> None \<Longrightarrow> load s' b \<noteq> None"
    using load_None_skeleton [OF sk] by simp
  have newclosed: "d \<in> closedChans s' \<Longrightarrow> d \<notin> closedChans s \<Longrightarrow>
      \<exists>b x c. heap s b = Some x \<and> cancelCtx_of x = Some c \<and> chan_of x = Some d \<and> d \<noteq> closedchan
        \<and> err c = None \<and> cancelled s' b" for d
  proof -
    assume d: "d \<in> closedChans s'" "d \<notin> closedChans s"
    from fanout_closed [OF f d(1)] d(2) obtain b c where b: "load s b = Some c" "err c = None"
      "done_c c = Some d" "cancelled s' b" by blast
    from b(1) obtain x where x: "heap s b = Some x" "cancelCtx_of x = Some c"
      by (auto dest: load_Some_heap)
    moreover from x b(3) have "chan_of x = Some d" by (simp add: chan_of_cancelCtx_of)
    moreover from d(2) wf0_closedchan [OF w] have "d \<noteq> closedchan" by auto
    ultimately show ?thesis using b by blast
  qed
  fix a y assume h: "heap s' a = Some y"
  from f h show "obj_ok s' a y"
  proof (cases rule: fanout_heap_cases)
    case other
    then have n: "cancelCtx_of y = None" and hs: "heap s a = Some y" by auto
    note ok = wf0_obj [OF w hs]
    show ?thesis
    proof (cases y)
      case (ForeignCtx g)
      have "f_err g \<noteq> None" if d: "f_done g = Some d" "d \<in> closedChans s'" for d
      proof (cases "d \<in> closedChans s")
        case True
        with ok ForeignCtx d show ?thesis by auto
      next
        case False
        from newclosed [OF d(2) False] obtain b x c where b: "heap s b = Some x" "cancelCtx_of x = Some c"
          "chan_of x = Some d" "d \<noteq> closedchan" by blast
        from wf0_owner [OF w hs b(1) _ b(3,4)] ForeignCtx d have "a = b" by simp
        with hs b n show ?thesis by simp
      qed
      with ok ForeignCtx fanout_fields(2) [OF f] show ?thesis by auto
    qed (use ok n in auto)
  next
    case (canc c' c)
    then have y: "cancelCtx_of y = Some c'" and l': "load s' a = Some c'" and l: "load s a = Some c"
      and cc: "c' = c \<or> err c = None \<and> (c' = mark cause c \<or> c' = premark cause c)" by auto
    note ok = wf0_cc [OF w l]
    from l obtain x where x: "heap s a = Some x" "cancelCtx_of x = Some c" by (auto dest: load_Some_heap)
    have "cc_ok s' a c'"
    proof (cases "c' = c")
      case True
      have "d \<in> closedChans s" if d: "done_c c = Some d" "d \<in> closedChans s'" for d
      proof (rule ccontr)
        assume nc: "d \<notin> closedChans s"
        from newclosed [OF d(2) nc] obtain b x' cb where b: "heap s b = Some x'" "cancelCtx_of x' = Some cb"
          "chan_of x' = Some d" "d \<noteq> closedchan" "err cb = None" "cancelled s' b" by blast
        from wf0_owner [OF w x(1) b(1) _ b(3,4)] x d have "a = b" by (simp add: chan_of_cancelCtx_of)
        with b x l' True show False by (auto simp: cancelled_load)
      qed
      with ok True fanout_fields(2,7) [OF f] ld show ?thesis
        by (auto simp: cc_ok_def)
    next
      case False
      with cc have m: "err c = None" "c' = mark cause c \<or> c' = premark cause c" by auto
      with l' have "cancelled s' a" by (auto simp: cancelled_load)
      from fanout_new [OF f l m(1) this] have "dch c \<in> closedChans s'" by simp
      moreover have "dch c < nextChan s"
        using ok wf0_closed_lt [OF w wf0_closedchan [OF w]]
        by (auto simp: dch_def cc_ok_def split: option.splits)
      ultimately show ?thesis using ok m fanout_fields(2) [OF f] ld
        by (auto simp: cc_ok_def)
    qed
    with y show ?thesis by (simp add: obj_ok_cancelCtx_of)
  qed
next
  fix a b x y d
  assume h: "heap s' a = Some x" "heap s' b = Some y" "chan_of x = Some d" "chan_of y = Some d"
    "d \<noteq> closedchan"
  have same: "\<exists>x0. heap s a = Some x0 \<and> chan_of x0 = Some d"
    if "heap s' a = Some x" "chan_of x = Some d" for a x
    using f that(1)
  proof (cases rule: fanout_heap_cases)
    case other
    with that show ?thesis by simp
  next
    case (canc c' c)
    from canc(3) obtain x0 where x0: "heap s a = Some x0" "cancelCtx_of x0 = Some c"
      by (auto dest: load_Some_heap)
    from canc(1) that(2) have "done_c c' = Some d" by (simp add: chan_of_cancelCtx_of)
    with canc(4) h(5) have "done_c c = Some d" by (auto simp: dch_def split: option.splits)
    with x0 show ?thesis by (simp add: chan_of_cancelCtx_of)
  qed
  from same [OF h(1,3)] same [OF h(2,4)] h(5) wf0_owner [OF w] show "a = b" by blast
qed

lemma fanout_wf:
  assumes w: "wf s" and f: "fanout cause None s s'"
  shows "wf s'"
  unfolding wf_def
proof (intro conjI allI impI)
  show "wf0 s'" by (rule fanout_wf0 [OF wf_wf0 [OF w] f])
next
  fix a c assume h: "load s' a = Some c \<and> err c \<noteq> None"
  from load_None_skeleton [OF fanout_fields(6) [OF f], of a] h obtain c0 where c0: "load s a = Some c0"
    by auto
  from fanout_load_None [OF f c0] h wf_nochild [OF w c0] show "children c = None" by auto
next
  fix a c d assume h: "heap s' a = Some (TimerCtx c d True)"
  then have p: "pending s' a" and l: "load s' a = Some c" by (auto simp: pending_def load_def)
  from fanout_pending [OF f p] have ps: "pending s a" and cs: "cancelled s' a \<longrightarrow> cancelled s a" by auto
  from ps obtain c0 d0 where c0: "heap s a = Some (TimerCtx c0 d0 True)" by (auto simp: pending_def)
  from wf_timer [OF w c0] have "\<not> cancelled s a" using c0 by (simp add: cancelled_load load_def)
  with cs l show "err c = None" by (auto simp: cancelled_load)
qed

subsection \<open>Cancellation reaches every registered descendant\<close>

lemma obind_assoc: "obind (obind m f) g = obind m (\<lambda>x. obind (f x) g)"
  by (auto simp: obind_def split: option.splits outcome.splits)

definition mark_state :: "error \<Rightarrow> state \<Rightarrow> addr \<Rightarrow> cancelCtx \<Rightarrow> state" where
  "mark_state cause s a c = (modify s a (premark cause))\<lparr>closedChans := insert (dch c) (closedChans s)\<rparr>"

lemma map_cancelCtx_comp: "map_cancelCtx g (map_cancelCtx f x) = map_cancelCtx (g \<circ> f) x"
  by (cases x) auto

lemma modify_modify: "modify (modify s a f) a g = modify s a (g \<circ> f)"
  by (cases "heap s a") (simp_all add: modify_def map_cancelCtx_comp)

lemma map_cancelCtx_cong: "(\<And>c. cancelCtx_of x = Some c \<Longrightarrow> f c = g c) \<Longrightarrow> map_cancelCtx f x = map_cancelCtx g x"
  by (cases x) auto

lemma modify_cong:
  assumes "\<And>c. load s a = Some c \<Longrightarrow> f c = g c"
  shows "modify s a f = modify s a g"
proof (cases "heap s a")
  case None
  then show ?thesis by (simp add: modify_def)
next
  case (Some x)
  have "map_cancelCtx f x = map_cancelCtx g x"
    by (rule map_cancelCtx_cong) (use assms Some in \<open>simp add: load_def\<close>)
  with Some show ?thesis by (simp add: modify_def)
qed

lemma mark_step:
  assumes w: "wf0 s" and l: "load s a = Some c" and e: "err c = None"
  shows "(let s1 = modify s a (\<lambda>c. c\<lparr>err := Some cause\<rparr>)
          in case done_c c of
               None \<Rightarrow> Some (Returns (modify s1 a (\<lambda>c. c\<lparr>done_c := Some closedchan\<rparr>)))
             | Some d \<Rightarrow> close_chan s1 d) = Some (Returns (mark_state cause s a c))"
proof (cases "done_c c")
  case None
  have "modify s a ((\<lambda>c. c\<lparr>done_c := Some closedchan\<rparr>) \<circ> (\<lambda>c. c\<lparr>err := Some cause\<rparr>)) = modify s a (premark cause)"
    by (rule modify_cong) (use l None in \<open>simp add: premark_def dch_def\<close>)
  moreover have "insert closedchan (closedChans s) = closedChans s"
    using wf0_closedchan [OF w] by auto
  ultimately show ?thesis using None
    by (simp add: mark_state_def modify_modify dch_def)
next
  case (Some d)
  from wf0_cc [OF w l] e Some have "d \<notin> closedChans s" by (auto simp: cc_ok_def)
  moreover have "modify s a (\<lambda>c. c\<lparr>err := Some cause\<rparr>) = modify s a (premark cause)"
    by (rule modify_cong) (use l Some in \<open>simp add: premark_def dch_def\<close>)
  ultimately show ?thesis using Some
    by (simp add: mark_state_def close_chan_def dch_def)
qed

lemma load_closedChans_upd [simp]: "load (s\<lparr>closedChans := X\<rparr>) b = load s b"
  by (simp add: load_def)

lemma pending_closedChans_upd [simp]: "pending (s\<lparr>closedChans := X\<rparr>) b = pending s b"
  by (simp add: pending_def)

lemma cancelled_modify:
  "cancelled (modify s a f) b = (if b = a then (\<exists>c. load s a = Some c \<and> err (f c) \<noteq> None) else cancelled s b)"
  by (auto simp: cancelled_load)

lemma fanout_mark_state:
  assumes w: "wf0 s" and l: "load s a = Some c" and e: "err c = None"
  shows "fanout cause (Some a) s (mark_state cause s a c)"
proof (rule fanoutI)
  fix b x assume "heap s b = Some x" "cancelCtx_of x = None"
  then show "heap (mark_state cause s a c) b = Some x"
    by (auto simp: mark_state_def map_cancelCtx_id)
next
  fix b cb assume "load s b = Some cb"
  then show "load (mark_state cause s a c) b = Some cb \<or> err cb = None \<and>
       (load (mark_state cause s a c) b = Some (mark cause cb)
        \<or> Some a = Some b \<and> load (mark_state cause s a c) b = Some (premark cause cb))"
    using l e by (auto simp: mark_state_def)
next
  fix b assume "pending (mark_state cause s a c) b"
  then show "pending s b \<and> (cancelled (mark_state cause s a c) b \<longrightarrow> cancelled s b \<or> Some a = Some b)"
    by (auto simp: mark_state_def cancelled_load)
next
  fix d assume "d \<in> closedChans (mark_state cause s a c)"
  then show "d \<in> closedChans s \<or> (\<exists>b cb. load s b = Some cb \<and> err cb = None \<and> done_c cb = Some d
      \<and> cancelled (mark_state cause s a c) b)"
    using l e wf0_closedchan [OF w]
    by (auto simp: mark_state_def cancelled_load dch_def split: option.splits)
next
  fix b cb assume "load s b = Some cb" "err cb = None" "cancelled (mark_state cause s a c) b"
  then show "dch cb \<in> closedChans (mark_state cause s a c)
      \<and> (Some a \<noteq> Some b \<longrightarrow> (\<forall>ch\<in>set (kids cb). cancelled (mark_state cause s a c) ch))"
    using l by (auto simp: mark_state_def cancelled_load split: if_splits)
qed (simp_all add: mark_state_def, auto)


lemma fields_mark_state [simp]:
  "nextAddr (mark_state cause s a c) = nextAddr s"
  "nextChan (mark_state cause s a c) = nextChan s"
  "goroutines (mark_state cause s a c) = goroutines s"
  "watchers (mark_state cause s a c) = watchers s"
  "now (mark_state cause s a c) = now s"
  "closedChans (mark_state cause s a c) = insert (dch c) (closedChans s)"
  by (simp_all add: mark_state_def)

lemma load_mark_state [simp]:
  "load (mark_state cause s a c) b = (if b = a then map_option (premark cause) (load s a) else load s b)"
  by (simp add: mark_state_def)

lemma premark_children_None: "(premark cause c)\<lparr>children := None\<rparr> = mark cause c"
  by (simp add: premark_def mark_def)

lemma fanout_finish:
  assumes w: "wf0 s" and l: "load s a = Some c" and e: "err c = None"
    and F2: "fanout cause None (mark_state cause s a c) s3"
  shows "fanout cause (Some a) s (modify s3 a (\<lambda>c. c\<lparr>children := None\<rparr>))"
    and "load (modify s3 a (\<lambda>c. c\<lparr>children := None\<rparr>)) a = Some (mark cause c)"
proof -
  let ?s2 = "mark_state cause s a c"
  let ?s4 = "modify s3 a (\<lambda>c. c\<lparr>children := None\<rparr>)"
  note F1 = fanout_mark_state [OF w l e, of cause]
  have l2: "load ?s2 a = Some (premark cause c)" using l by simp
  from fanout_load_None [OF F2 l2] have l3: "load s3 a = Some (premark cause c)" by auto
  then show l4: "load ?s4 a = Some (mark cause c)" by (simp add: premark_children_None)
  have c4: "cancelled ?s4 b = cancelled s3 b" for b
    using l3 by (auto simp: cancelled_load)
  show "fanout cause (Some a) s ?s4"
  proof (rule fanoutI)
    show "skeleton ?s4 = skeleton s"
      using fanout_fields(6) [OF F2] fanout_fields(6) [OF F1] by simp
    show "closedChans s \<subseteq> closedChans ?s4"
      using fanout_fields(7) [OF F2] by auto
  next
    fix b x assume h: "heap s b = Some x" "cancelCtx_of x = None"
    from fanout_other [OF F2 fanout_other [OF F1 h] h(2)]
    show "heap ?s4 b = Some x" using h(2) by (auto simp: map_cancelCtx_id)
  next
    fix b cb assume lb: "load s b = Some cb"
    show "load ?s4 b = Some cb \<or> err cb = None \<and>
       (load ?s4 b = Some (mark cause cb) \<or> Some a = Some b \<and> load ?s4 b = Some (premark cause cb))"
    proof (cases "b = a")
      case True
      with l4 lb l e show ?thesis by simp
    next
      case False
      with lb have "load ?s2 b = Some cb" by simp
      from fanout_load_None [OF F2 this] False show ?thesis by simp
    qed
  next
    fix b assume "pending ?s4 b"
    then have p3: "pending s3 b" by simp
    from fanout_pending [OF F2 p3] have p2: "pending ?s2 b" and c32: "cancelled s3 b \<longrightarrow> cancelled ?s2 b"
      by auto
    from fanout_pending [OF F1 p2] c32
    show "pending s b \<and> (cancelled ?s4 b \<longrightarrow> cancelled s b \<or> Some a = Some b)"
      by (auto simp: c4)
  next
    fix d assume "d \<in> closedChans ?s4"
    then have d3: "d \<in> closedChans s3" by simp
    from fanout_closed [OF F2 d3]
    show "d \<in> closedChans s \<or> (\<exists>b cb. load s b = Some cb \<and> err cb = None \<and> done_c cb = Some d \<and> cancelled ?s4 b)"
    proof
      assume "d \<in> closedChans ?s2"
      then have "d \<in> closedChans s \<or> d = dch c" by auto
      then show ?thesis
      proof
        assume "d = dch c"
        show ?thesis
        proof (cases "done_c c")
          case None
          with \<open>d = dch c\<close> wf0_closedchan [OF w] show ?thesis by (simp add: dch_def)
        next
          case (Some d')
          with \<open>d = dch c\<close> have "done_c c = Some d" by (simp add: dch_def)
          moreover have "cancelled ?s4 a" unfolding c4 using l3 by (simp add: cancelled_load)
          ultimately show ?thesis using l e by blast
        qed
      qed simp
    next
      assume "\<exists>b cb. load ?s2 b = Some cb \<and> err cb = None \<and> done_c cb = Some d \<and> cancelled s3 b"
      then obtain b cb where b: "load ?s2 b = Some cb" "err cb = None" "done_c cb = Some d" "cancelled s3 b"
        by blast
      with l have "b \<noteq> a" by auto
      with b have "load s b = Some cb" by simp
      with b show ?thesis by (auto simp: c4)
    qed
  next
    fix b cb assume lb: "load s b = Some cb" and eb: "err cb = None" and cb: "cancelled ?s4 b"
    show "dch cb \<in> closedChans ?s4 \<and> (Some a \<noteq> Some b \<longrightarrow> (\<forall>ch\<in>set (kids cb). cancelled ?s4 ch))"
    proof (cases "b = a")
      case True
      with lb l have "cb = c" by simp
      then show ?thesis using True fanout_fields(7) [OF F2] by auto
    next
      case False
      with lb have "load ?s2 b = Some cb" by simp
      from fanout_new [OF F2 this eb] cb show ?thesis by (simp add: c4)
    qed
  qed (use fanout_fields [OF F2] in simp_all)
qed

lemma pending_stop_timer [simp]: "pending (stop_timer s a) b = (b \<noteq> a \<and> pending s b)"
proof (cases "heap s a")
  case None
  then show ?thesis by (auto simp: pending_def)
next
  case (Some x)
  then show ?thesis by (cases x) (auto simp: pending_def)
qed

lemma cancelled_stop_timer [simp]: "cancelled (stop_timer s a) b = cancelled s b"
  by (simp add: cancelled_load)

lemma with_timer_id: "cancelCtx_of x = None \<Longrightarrow> with_timer t x = x"
  by (cases x) auto

lemma fanout_close:
  assumes F: "fanout cause (Some a) s s'" and l: "load s a = Some c"
    and la: "load s' a = (if err c = None then Some (mark cause c) else Some c)"
    and k: "err c = None \<longrightarrow> (\<forall>ch \<in> set (kids c). cancelled s' ch)"
  shows "fanout cause None s (stop_timer s' a)"
proof (rule fanoutI)
  show "skeleton (stop_timer s' a) = skeleton s" using fanout_fields(6) [OF F] by simp
  show "closedChans s \<subseteq> closedChans (stop_timer s' a)" using fanout_fields(7) [OF F] by simp
next
  fix b x assume h: "heap s b = Some x" "cancelCtx_of x = None"
  from fanout_other [OF F h] h(2) show "heap (stop_timer s' a) b = Some x"
    by (auto simp: with_timer_id)
next
  fix b cb assume lb: "load s b = Some cb"
  show "load (stop_timer s' a) b = Some cb \<or> err cb = None \<and>
       (load (stop_timer s' a) b = Some (mark cause cb)
        \<or> None = Some b \<and> load (stop_timer s' a) b = Some (premark cause cb))"
  proof (cases "b = a")
    case True
    with lb l la show ?thesis by (auto split: if_splits)
  next
    case False
    with fanout_load [OF F lb] show ?thesis by auto
  qed
next
  fix b assume "pending (stop_timer s' a) b"
  then have "b \<noteq> a" "pending s' b" by auto
  with fanout_pending [OF F, of b]
  show "pending s b \<and> (cancelled (stop_timer s' a) b \<longrightarrow> cancelled s b \<or> None = Some b)" by auto
next
  fix d assume "d \<in> closedChans (stop_timer s' a)"
  with fanout_closed [OF F, of d]
  show "d \<in> closedChans s \<or> (\<exists>b cb. load s b = Some cb \<and> err cb = None \<and> done_c cb = Some d
      \<and> cancelled (stop_timer s' a) b)" by simp
next
  fix b cb assume lb: "load s b = Some cb" "err cb = None" "cancelled (stop_timer s' a) b"
  show "dch cb \<in> closedChans (stop_timer s' a)
      \<and> (None \<noteq> Some b \<longrightarrow> (\<forall>ch\<in>set (kids cb). cancelled (stop_timer s' a) ch))"
  proof (cases "b = a")
    case True
    with lb l k fanout_new [OF F lb(1,2)] show ?thesis by auto
  next
    case False
    with fanout_new [OF F lb(1,2)] lb(3) show ?thesis by auto
  qed
qed (use fanout_fields [OF F] in simp_all)


lemma fanout_load_not_None:
  assumes "fanout cause ex s s'" "load s b \<noteq> None"
  shows "load s' b \<noteq> None"
  using load_None_skeleton [OF fanout_fields(6) [OF assms(1)], of b] assms(2) by simp

lemma cancel_children_step:
  assumes H: "\<forall>s ch. wf0 s \<longrightarrow> load s ch \<noteq> None \<longrightarrow> nextAddr s \<le> ch + n \<longrightarrow>
      (\<exists>s'. canceler_cancel n s ch False (Some cause) = Some (Returns s') \<and> fanout cause None s s'
        \<and> cancelled s' ch)"
  shows "wf0 s \<Longrightarrow> \<forall>ch\<in>set cs. load s ch \<noteq> None \<and> nextAddr s \<le> ch + n \<Longrightarrow>
      \<exists>s'. cancel_children n s cs (Some cause) = Some (Returns s') \<and> fanout cause None s s'
        \<and> (\<forall>ch\<in>set cs. cancelled s' ch)"
proof (induction cs arbitrary: s)
  case Nil
  then show ?case by (simp add: fanout_refl)
next
  case (Cons ch cs)
  from Cons.prems have "load s ch \<noteq> None" "nextAddr s \<le> ch + n" by auto
  from H Cons.prems(1) this obtain s1 where s1: "canceler_cancel n s ch False (Some cause) = Some (Returns s1)"
    "fanout cause None s s1" "cancelled s1 ch" by blast
  have w1: "wf0 s1" by (rule fanout_wf0 [OF Cons.prems(1) s1(2)])
  have "\<forall>ch\<in>set cs. load s1 ch \<noteq> None \<and> nextAddr s1 \<le> ch + n"
    using Cons.prems(2) fanout_load_not_None [OF s1(2)] fanout_fields(1) [OF s1(2)] by auto
  from Cons.IH [OF w1 this] obtain s2 where s2: "cancel_children n s1 cs (Some cause) = Some (Returns s2)"
    "fanout cause None s1 s2" "\<forall>ch\<in>set cs. cancelled s2 ch" by blast
  from s1 s2 have "cancel_children n s (ch # cs) (Some cause) = Some (Returns s2)" by simp
  moreover have "fanout cause None s s2" by (rule fanout_trans [OF s1(2) s2(2)])
  moreover have "cancelled s2 ch" by (rule fanout_cancelled_mono [OF s2(2) s1(3)])
  ultimately show ?case using s2(3) by auto
qed

lemma cancelCtx_cancel_step:
  assumes H: "\<forall>s ch. wf0 s \<longrightarrow> load s ch \<noteq> None \<longrightarrow> nextAddr s \<le> ch + n \<longrightarrow>
      (\<exists>s'. canceler_cancel n s ch False (Some cause) = Some (Returns s') \<and> fanout cause None s s'
        \<and> cancelled s' ch)"
    and w: "wf0 s" and l: "load s a = Some c" and bound: "nextAddr s \<le> Suc (a + n)"
  shows "\<exists>s'. cancelCtx_cancel n s a False (Some cause) = Some (Returns s') \<and> fanout cause (Some a) s s'
      \<and> load s' a = (if err c = None then Some (mark cause c) else Some c)
      \<and> (err c = None \<longrightarrow> (\<forall>ch\<in>set (kids c). cancelled s' ch))"
proof (cases "err c = None")
  case False
  with l show ?thesis by (auto simp: cancelCtx_cancel.simps fanout_refl)
next
  case True
  let ?s2 = "mark_state cause s a c"
  note F1 = fanout_mark_state [OF w l True, of cause]
  have w2: "wf0 ?s2" by (rule fanout_wf0 [OF w F1])
  have "\<forall>ch\<in>set (kids c). load ?s2 ch \<noteq> None \<and> nextAddr ?s2 \<le> ch + n"
    using wf0_cc [OF w l] bound by (auto simp: cc_ok_def)
  from cancel_children_step [OF H w2 this] obtain s3 where
    s3: "cancel_children n ?s2 (kids c) (Some cause) = Some (Returns s3)"
      "fanout cause None ?s2 s3" "\<forall>ch\<in>set (kids c). cancelled s3 ch" by blast
  let ?s4 = "modify s3 a (\<lambda>c. c\<lparr>children := None\<rparr>)"
  have "cancelCtx_cancel n s a False (Some cause) = Some (Returns ?s4)"
    using l True mark_step [OF w l True, of cause] s3(1)
    by (simp add: cancelCtx_cancel.simps kids_def Let_def)
  moreover note fanout_finish [OF w l True s3(2)]
  moreover have "\<forall>ch\<in>set (kids c). cancelled ?s4 ch"
  proof
    fix ch assume "ch \<in> set (kids c)"
    with s3(3) have "cancelled s3 ch" by simp
    then show "cancelled ?s4 ch" by (auto simp: cancelled_load)
  qed
  ultimately show ?thesis using True by simp
qed

lemma timerCtx_cancel_step:
  assumes H: "\<forall>s ch. wf0 s \<longrightarrow> load s ch \<noteq> None \<longrightarrow> nextAddr s \<le> ch + n \<longrightarrow>
      (\<exists>s'. canceler_cancel n s ch False (Some cause) = Some (Returns s') \<and> fanout cause None s s'
        \<and> cancelled s' ch)"
    and w: "wf0 s" and l: "load s a = Some c" and bound: "nextAddr s \<le> Suc (a + n)"
  shows "\<exists>s'. timerCtx_cancel n s a False (Some cause) = Some (Returns s') \<and> fanout cause None s s'
      \<and> load s' a = (if err c = None then Some (mark cause c) else Some c)"
proof -
  from cancelCtx_cancel_step [OF H w l bound] obtain s1 where
    s1: "cancelCtx_cancel n s a False (Some cause) = Some (Returns s1)" "fanout cause (Some a) s s1"
      "load s1 a = (if err c = None then Some (mark cause c) else Some c)"
      "err c = None \<longrightarrow> (\<forall>ch\<in>set (kids c). cancelled s1 ch)" by auto
  have "timerCtx_cancel n s a False (Some cause) = Some (Returns (stop_timer s1 a))"
    using s1(1) by (simp add: timerCtx_cancel.simps)
  moreover have "fanout cause None s (stop_timer s1 a)"
    by (rule fanout_close [OF s1(2) l s1(3,4)])
  ultimately show ?thesis using s1(3) by simp
qed

lemma stop_timer_CancelCtx: "heap s a = Some (CancelCtx c) \<Longrightarrow> stop_timer s a = s"
  by (simp add: stop_timer_def fun_upd_idem)

lemma canceler_cancel_fanout:
  "wf0 s \<Longrightarrow> load s a \<noteq> None \<Longrightarrow> nextAddr s \<le> a + n \<Longrightarrow>
    \<exists>s'. canceler_cancel n s a False (Some cause) = Some (Returns s') \<and> fanout cause None s s'
      \<and> cancelled s' a"
proof (induction n arbitrary: s a)
  case 0
  from 0(2) have "heap s a \<noteq> None" by (auto simp: load_def split: option.splits)
  with wf0_dom [OF 0(1), of a] 0(3) show ?case by simp
next
  case (Suc n)
  from Suc.prems(2) obtain c where l: "load s a = Some c" by auto
  then obtain x where x: "heap s a = Some x" "cancelCtx_of x = Some c" by (auto dest: load_Some_heap)
  from Suc.prems(3) have bound: "nextAddr s \<le> Suc (a + n)" by simp
  have H: "\<forall>s ch. wf0 s \<longrightarrow> load s ch \<noteq> None \<longrightarrow> nextAddr s \<le> ch + n \<longrightarrow>
      (\<exists>s'. canceler_cancel n s ch False (Some cause) = Some (Returns s') \<and> fanout cause None s s'
        \<and> cancelled s' ch)"
    using Suc.IH by blast
  from timerCtx_cancel_step [OF H Suc.prems(1) l bound] obtain s' where
    s': "timerCtx_cancel n s a False (Some cause) = Some (Returns s')" "fanout cause None s s'"
      "load s' a = (if err c = None then Some (mark cause c) else Some c)" by auto
  have ca: "cancelled s' a" using s'(3) by (auto simp: cancelled_load)
  show ?case
  proof (cases x)
    case (TimerCtx c' d t)
    with x s' ca show ?thesis by auto
  next
    case (CancelCtx c')
    from cancelCtx_cancel_step [OF H Suc.prems(1) l bound] obtain s1 where
      s1: "cancelCtx_cancel n s a False (Some cause) = Some (Returns s1)" "fanout cause (Some a) s s1"
      by auto
    from fanout_fields(6) [OF s1(2)] have "map_option skel (heap s1 a) = map_option skel (heap s a)"
      by (rule heap_skeleton)
    with x CancelCtx obtain c1 where "heap s1 a = Some (CancelCtx c1)"
      using skel_kind(1) [of _ "CancelCtx c'"] by (cases "heap s1 a") auto
    then have "stop_timer s1 a = s1" by (rule stop_timer_CancelCtx)
    with s1(1) s'(1) have "s1 = s'" by (simp add: timerCtx_cancel.simps)
    with s1 s' ca x CancelCtx show ?thesis by auto
  qed (use x in auto)
qed

subsection \<open>A cancel call from outside, with and without detaching\<close>

lemma cancelCtx_cancel_fanout:
  assumes "wf0 s" "load s a = Some c" "nextAddr s \<le> Suc (a + n)"
  shows "\<exists>s'. cancelCtx_cancel n s a False (Some cause) = Some (Returns s') \<and> fanout cause (Some a) s s'
      \<and> load s' a = (if err c = None then Some (mark cause c) else Some c)
      \<and> (err c = None \<longrightarrow> (\<forall>ch\<in>set (kids c). cancelled s' ch))"
  by (rule cancelCtx_cancel_step [OF _ assms]) (use canceler_cancel_fanout in blast)

lemma timerCtx_cancel_fanout:
  assumes "wf0 s" "load s a = Some c" "nextAddr s \<le> Suc (a + n)"
  shows "\<exists>s'. timerCtx_cancel n s a False (Some cause) = Some (Returns s') \<and> fanout cause None s s'
      \<and> load s' a = (if err c = None then Some (mark cause c) else Some c)"
  by (rule timerCtx_cancel_step [OF _ assms]) (use canceler_cancel_fanout in blast)

lemma cancelCtx_cancel_True:
  assumes "load s a = Some c"
  shows "cancelCtx_cancel n s a True (Some cause) =
    (if err c \<noteq> None then Some (Returns s)
     else obind (cancelCtx_cancel n s a False (Some cause)) (\<lambda>s4. removeChild s4 (Context c) a))"
  using assms by (simp add: cancelCtx_cancel.simps obind_assoc Let_def)

lemma wf0_heap_upd_timer:
  assumes w: "wf0 s"
  shows "wf0 (s\<lparr>heap := (heap s)(a := map_option (with_timer t) (heap s a))\<rparr>)"
    (is "wf0 ?s")
proof -
  have hp: "heap ?s b = (if b = a then map_option (with_timer t) (heap s a) else heap s b)" for b
    by simp
  have ld: "load ?s b = load s b" for b
    by (auto simp: load_def split: option.splits)
  have ch: "\<exists>x0. heap s b = Some x0 \<and> chan_of x0 = chan_of x \<and> cancelCtx_of x0 = cancelCtx_of x
      \<and> (cancelCtx_of x = None \<longrightarrow> x0 = x)" if "heap ?s b = Some x" for b x
  proof (cases "b = a")
    case False
    with that show ?thesis by simp
  next
    case True
    with that obtain x0 where x0: "heap s a = Some x0" "x = with_timer t x0" by auto
    then show ?thesis using True by (cases x0) auto
  qed
  show ?thesis
  proof (rule wf0I)
    fix b show "(heap ?s b = None) = (nextAddr ?s \<le> b)"
      using wf0_dom [OF w, of b] wf0_dom [OF w, of a] by auto
  next
    show "closedchan \<in> closedChans ?s" using wf0_closedchan [OF w] by simp
  next
    fix d assume "d \<in> closedChans ?s" then show "d < nextChan ?s"
      using wf0_closed_lt [OF w, of d] by simp
  next
    fix b x assume h: "heap ?s b = Some x"
    from ch [OF h] obtain x0 where x0: "heap s b = Some x0" "cancelCtx_of x0 = cancelCtx_of x"
      "cancelCtx_of x = None \<longrightarrow> x0 = x" by auto
    have ok: "obj_ok ?s b x0"
      using wf0_obj [OF w x0(1)] by (rule obj_ok_mono) (simp_all add: ld)
    show "obj_ok ?s b x"
    proof (cases "cancelCtx_of x")
      case None
      with x0 ok show ?thesis by simp
    next
      case (Some c)
      with x0 ok show ?thesis by (simp add: obj_ok_cancelCtx_of)
    qed
  next
    fix b b' x y d
    assume h: "heap ?s b = Some x" "heap ?s b' = Some y" "chan_of x = Some d" "chan_of y = Some d"
      "d \<noteq> closedchan"
    from ch [OF h(1)] ch [OF h(2)] h(3,4,5) wf0_owner [OF w] show "b = b'" by metis
  qed
qed

lemma wf0_stop_timer: "wf0 s \<Longrightarrow> wf0 (stop_timer s a)"
  unfolding stop_timer_def by (rule wf0_heap_upd_timer)

lemma wf0_set_timer: "wf0 s \<Longrightarrow> wf0 (set_timer s a)"
  unfolding set_timer_def by (rule wf0_heap_upd_timer)

lemma benign_stop_timer:
  assumes "benign q s1 s2"
  shows "benign q (stop_timer s1 a) (stop_timer s2 a)"
  using assms unfolding benign_def by auto


lemma benign_skeleton: "benign q s s' \<Longrightarrow> skeleton s' = skeleton s"
  by (simp add: benign_def)

lemma skeleton_CancelCtx:
  assumes "skeleton s' = skeleton s" "heap s a = Some (CancelCtx c)"
  shows "\<exists>c'. heap s' a = Some (CancelCtx c')"
proof -
  from heap_skeleton [OF assms(1), of a] assms(2) obtain y where y: "heap s' a = Some y"
    "skel y = skel (CancelCtx c)" by auto
  with skel_kind(1) [of y "CancelCtx c"] show ?thesis by auto
qed

lemma timerCtx_cancel_top:
  assumes w: "wf s" and l: "load s a = Some c" and bound: "nextAddr s \<le> Suc (a + n)"
  shows "\<exists>s4 s' q. timerCtx_cancel n s a rfp (Some cause) = Some (Returns s')
      \<and> fanout cause None s s4 \<and> Context c = Some q \<and> q < a \<and> benign q s4 s' \<and> wf s4 \<and> wf s'
      \<and> load s4 a = Some (if err c = None then mark cause c else c) \<and> (\<not> rfp \<longrightarrow> s' = s4)"
proof -
  note w0 = wf_wf0 [OF w]
  from wf0_cc [OF w0 l] obtain q where q: "Context c = Some q" "q < a" by (auto simp: cc_ok_def)
  from l have "heap s a \<noteq> None" by (auto simp: load_def split: option.splits)
  with wf0_dom [OF w0, of a] have a: "a < nextAddr s" by simp
  from cancelCtx_cancel_fanout [OF w0 l bound, of cause] obtain s1 where
    s1: "cancelCtx_cancel n s a False (Some cause) = Some (Returns s1)" "fanout cause (Some a) s s1"
      "load s1 a = (if err c = None then Some (mark cause c) else Some c)"
      "err c = None \<longrightarrow> (\<forall>ch\<in>set (kids c). cancelled s1 ch)" by auto
  let ?s4 = "stop_timer s1 a"
  have F: "fanout cause None s ?s4" by (rule fanout_close [OF s1(2) l s1(3,4)])
  have w4: "wf ?s4" by (rule fanout_wf [OF w F])
  have l4: "load ?s4 a = Some (if err c = None then mark cause c else c)" using s1(3) by simp
  show ?thesis
  proof (cases "rfp \<and> err c = None")
    case False
    have "timerCtx_cancel n s a rfp (Some cause) = Some (Returns ?s4)"
    proof (cases rfp)
      case True
      with False have e: "err c \<noteq> None" by simp
      with l s1(1) have "s1 = s" by (simp add: cancelCtx_cancel.simps)
      with True e l show ?thesis by (simp add: timerCtx_cancel.simps cancelCtx_cancel_True)
    next
      case False
      with s1(1) show ?thesis by (simp add: timerCtx_cancel.simps)
    qed
    with F q w4 l4 benign_refl [of q ?s4] show ?thesis by blast
  next
    case True
    have w1: "wf0 s1" by (rule fanout_wf0 [OF w0 s1(2)])
    from a q fanout_fields(1) [OF s1(2)] have "q < nextAddr s1" by simp
    from removeChild_wf0 [OF w1 this, of a] obtain s2 where
      s2: "removeChild s1 (Some q) a = Some (Returns s2)" "wf0 s2" "benign q s1 s2" by blast
    let ?s' = "stop_timer s2 a"
    have "timerCtx_cancel n s a rfp (Some cause) = Some (Returns ?s')"
      using True l s1(1) s2(1) q by (simp add: timerCtx_cancel.simps cancelCtx_cancel_True)
    moreover have b: "benign q ?s4 ?s'" by (rule benign_stop_timer [OF s2(3)])
    moreover have "wf ?s'" by (rule wf_benign [OF w4 wf0_stop_timer [OF s2(2)] b])
    ultimately show ?thesis using F q w4 l4 True by blast
  qed
qed

lemma cancelCtx_cancel_top:
  assumes w: "wf s" and h: "heap s a = Some (CancelCtx c)" and bound: "nextAddr s \<le> Suc (a + n)"
  shows "\<exists>s4 s' q. cancelCtx_cancel n s a rfp (Some cause) = Some (Returns s')
      \<and> fanout cause None s s4 \<and> Context c = Some q \<and> q < a \<and> benign q s4 s' \<and> wf s4 \<and> wf s'
      \<and> load s4 a = Some (if err c = None then mark cause c else c) \<and> (\<not> rfp \<longrightarrow> s' = s4)"
proof -
  from h have l: "load s a = Some c" by (simp add: load_def)
  from timerCtx_cancel_top [OF w l bound, of rfp cause] obtain s4 s' q where
    t: "timerCtx_cancel n s a rfp (Some cause) = Some (Returns s')"
      "fanout cause None s s4" "Context c = Some q" "q < a" "benign q s4 s'" "wf s4" "wf s'"
      "load s4 a = Some (if err c = None then mark cause c else c)" "\<not> rfp \<longrightarrow> s' = s4" by blast
  from t(1) obtain s1 where s1: "cancelCtx_cancel n s a rfp (Some cause) = Some (Returns s1)"
    "s' = stop_timer s1 a"
    by (auto simp: timerCtx_cancel.simps obind_Returns)
  have "skeleton s' = skeleton s"
    using benign_skeleton [OF t(5)] fanout_fields(6) [OF t(2)] by simp
  with s1(2) have "skeleton s1 = skeleton s" by simp
  from skeleton_CancelCtx [OF this h] obtain c1 where "heap s1 a = Some (CancelCtx c1)" by auto
  then have "stop_timer s1 a = s1" by (rule stop_timer_CancelCtx)
  with s1 have "cancelCtx_cancel n s a rfp (Some cause) = Some (Returns s')" by simp
  with t show ?thesis by blast
qed

lemma canceler_cancel_top:
  assumes w: "wf s" and l: "load s a = Some c" and bound: "nextAddr s \<le> a + n"
  shows "\<exists>s4 s' q. canceler_cancel n s a rfp (Some cause) = Some (Returns s')
      \<and> fanout cause None s s4 \<and> Context c = Some q \<and> q < a \<and> benign q s4 s' \<and> wf s4 \<and> wf s'
      \<and> load s4 a = Some (if err c = None then mark cause c else c) \<and> (\<not> rfp \<longrightarrow> s' = s4)"
proof -
  from l have "heap s a \<noteq> None" by (auto simp: load_def split: option.splits)
  with wf0_dom [OF wf_wf0 [OF w], of a] bound obtain m where n: "n = Suc m" by (cases n) auto
  with bound have bm: "nextAddr s \<le> Suc (a + m)" by simp
  from l obtain x where x: "heap s a = Some x" "cancelCtx_of x = Some c" by (auto dest: load_Some_heap)
  show ?thesis
  proof (cases x)
    case (CancelCtx c')
    with x have "heap s a = Some (CancelCtx c)" by simp
    from cancelCtx_cancel_top [OF w this bm, of rfp cause] show ?thesis
      using n x CancelCtx by simp
  next
    case (TimerCtx c' d t)
    from timerCtx_cancel_top [OF w l bm, of rfp cause] show ?thesis
      using n x TimerCtx by simp
  qed (use x in auto)
qed

text \<open>The contexts registered below a context: its children, their children, and so on.\<close>

inductive below :: "state \<Rightarrow> addr \<Rightarrow> addr \<Rightarrow> bool" for s a where
  child: "load s a = Some c \<Longrightarrow> b \<in> set (kids c) \<Longrightarrow> below s a b"
| step: "below s a b \<Longrightarrow> load s b = Some cb \<Longrightarrow> b' \<in> set (kids cb) \<Longrightarrow> below s a b'"

lemma below_gt:
  assumes "wf0 s"
  shows "below s a b \<Longrightarrow> a < b"
proof (induction rule: below.induct)
  case (child c b)
  with wf0_cc [OF assms child(1)] show ?case by (auto simp: cc_ok_def)
next
  case (step b cb b')
  with wf0_cc [OF assms step(2)] show ?case by (auto simp: cc_ok_def)
qed

lemma fanout_child:
  assumes w: "wf s" and F: "fanout cause None s s4" and l: "load s a = Some c" and e: "err c = None"
    and ca: "cancelled s4 a" and b: "b \<in> set (kids c)"
  shows "\<exists>cb. load s b = Some cb \<and> load s4 b = Some (if err cb = None then mark cause cb else cb)
      \<and> cancelled s4 b"
proof -
  from fanout_new [OF F l e ca] b have cb: "cancelled s4 b" by simp
  from wf0_cc [OF wf_wf0 [OF w] l] b obtain cb where lb: "load s b = Some cb" by (auto simp: cc_ok_def)
  from fanout_load_None [OF F lb] cb have "load s4 b = Some (if err cb = None then mark cause cb else cb)"
    by (auto simp: cancelled_load)
  with lb cb show ?thesis by blast
qed

lemma fanout_below:
  assumes w: "wf s" and F: "fanout cause None s s4" and l: "load s a = Some c" and e: "err c = None"
    and ca: "cancelled s4 a"
  shows "below s a b \<Longrightarrow> \<exists>cb. load s b = Some cb
      \<and> load s4 b = Some (if err cb = None then mark cause cb else cb) \<and> cancelled s4 b"
proof (induction rule: below.induct)
  case (child c' b)
  with l have "b \<in> set (kids c)" by simp
  then show ?case by (rule fanout_child [OF w F l e ca])
next
  case (step b cb b')
  from step.IH step(2) have lb: "load s4 b = Some (if err cb = None then mark cause cb else cb)"
    and cb: "cancelled s4 b" by auto
  have eb: "err cb = None"
  proof (rule ccontr)
    assume "err cb \<noteq> None"
    from wf_nochild [OF w step(2) this] step(3) show False by (simp add: kids_def)
  qed
  show ?case by (rule fanout_child [OF w F step(2) eb cb step(3)])
qed

subsection \<open>Allocation; cancelling a context without children\<close>

lemma heap_alloc [simp]:
  "heap (snd (alloc s x)) b = (if b = nextAddr s then Some x else heap s b)"
  by (simp add: alloc_def)

lemma fields_alloc [simp]:
  "fst (alloc s x) = nextAddr s"
  "nextAddr (snd (alloc s x)) = Suc (nextAddr s)"
  "closedChans (snd (alloc s x)) = closedChans s"
  "nextChan (snd (alloc s x)) = nextChan s"
  "goroutines (snd (alloc s x)) = goroutines s"
  "watchers (snd (alloc s x)) = watchers s"
  "now (snd (alloc s x)) = now s"
  by (simp_all add: alloc_def)

lemma load_alloc [simp]:
  "load (snd (alloc s x)) b = (if b = nextAddr s then cancelCtx_of x else load s b)"
  by (simp add: load_def)

lemma wf0_fresh: "wf0 s \<Longrightarrow> heap s (nextAddr s) = None"
  by (simp add: wf0_dom)

lemma wf0_load_lt: "wf0 s \<Longrightarrow> load s b \<noteq> None \<Longrightarrow> b < nextAddr s"
  using wf0_dom [of s b] by (auto simp: load_def split: option.splits)

lemma wf_alloc:
  assumes w: "wf s" and ch: "chan_of x = None"
    and ok: "obj_ok (snd (alloc s x)) (nextAddr s) x"
    and e: "\<forall>c. cancelCtx_of x = Some c \<longrightarrow> err c = None"
  shows "wf (snd (alloc s x))"
proof -
  let ?s = "snd (alloc s x)"
  note w0 = wf_wf0 [OF w]
  have "wf0 ?s"
  proof (rule wf0I)
    fix a show "(heap ?s a = None) = (nextAddr ?s \<le> a)"
      using wf0_dom [OF w0, of a] by auto
  next
    show "closedchan \<in> closedChans ?s" using wf0_closedchan [OF w0] by simp
  next
    fix d assume "d \<in> closedChans ?s" then show "d < nextChan ?s"
      using wf0_closed_lt [OF w0, of d] by simp
  next
    fix a y assume h: "heap ?s a = Some y"
    show "obj_ok ?s a y"
    proof (cases "a = nextAddr s")
      case True
      with h ok show ?thesis by simp
    next
      case False
      with h have hs: "heap s a = Some y" by simp
      show ?thesis using wf0_obj [OF w0 hs]
        by (rule obj_ok_mono) (use wf0_load_lt [OF w0] in auto)
    qed
  next
    fix a b y z d
    assume h: "heap ?s a = Some y" "heap ?s b = Some z" "chan_of y = Some d" "chan_of z = Some d"
      "d \<noteq> closedchan"
    with ch have "a \<noteq> nextAddr s" "b \<noteq> nextAddr s" by (auto split: if_splits)
    with h wf0_owner [OF w0, of a y b z d] show "a = b" by simp
  qed
  moreover have "\<forall>a c. load ?s a = Some c \<and> err c \<noteq> None \<longrightarrow> children c = None"
    using e wf_nochild [OF w] by (auto split: if_splits)
  moreover have "\<forall>a c d. heap ?s a = Some (TimerCtx c d True) \<longrightarrow> err c = None"
    using e wf_timer [OF w] by (auto split: if_splits)
  ultimately show ?thesis by (simp add: wf_def)
qed

lemma wf_alloc_cancelCtx:
  assumes "wf s" "p < nextAddr s"
  shows "wf (snd (alloc s (CancelCtx (newCancelCtx (Some p)))))"
  by (rule wf_alloc [OF assms(1)]) (use assms(2) in \<open>auto simp: newCancelCtx_def cc_ok_def kids_def\<close>)

lemma wf_alloc_timerCtx:
  assumes "wf s" "p < nextAddr s"
  shows "wf (snd (alloc s (TimerCtx (newCancelCtx (Some p)) d False)))"
  by (rule wf_alloc [OF assms(1)]) (use assms(2) in \<open>auto simp: newCancelCtx_def cc_ok_def kids_def\<close>)

lemma wf_alloc_valueCtx:
  assumes "wf s" "p < nextAddr s" "k \<noteq> CancelCtxKey"
  shows "wf (snd (alloc s (ValueCtx (Some p) k v)))"
  by (rule wf_alloc [OF assms(1)]) (use assms(2,3) in auto)

text \<open>Cancelling a context that has no children.\<close>

definition cancel_leaf :: "error \<Rightarrow> state \<Rightarrow> addr \<Rightarrow> cancelCtx \<Rightarrow> state" where
  "cancel_leaf cause s a c = modify (mark_state cause s a c) a (\<lambda>c. c\<lparr>children := None\<rparr>)"

lemma cancelCtx_cancel_leaf:
  assumes "wf0 s" "load s a = Some c" "err c = None" "kids c = []"
  shows "cancelCtx_cancel n s a False (Some cause) = Some (Returns (cancel_leaf cause s a c))"
  using assms mark_step [OF assms(1,2,3), of cause]
  by (simp add: cancelCtx_cancel.simps Let_def cancel_leaf_def kids_def)

lemma load_cancel_leaf:
  "load s a = Some c \<Longrightarrow> load (cancel_leaf cause s a c) b = (if b = a then Some (mark cause c) else load s b)"
  by (simp add: cancel_leaf_def premark_children_None)

lemma fields_cancel_leaf [simp]:
  "nextAddr (cancel_leaf cause s a c) = nextAddr s"
  "nextChan (cancel_leaf cause s a c) = nextChan s"
  "goroutines (cancel_leaf cause s a c) = goroutines s"
  "watchers (cancel_leaf cause s a c) = watchers s"
  "now (cancel_leaf cause s a c) = now s"
  "closedChans (cancel_leaf cause s a c) = insert (dch c) (closedChans s)"
  by (simp_all add: cancel_leaf_def)

lemma heap_cancel_leaf_other: "b \<noteq> a \<Longrightarrow> heap (cancel_leaf cause s a c) b = heap s b"
  by (simp add: cancel_leaf_def mark_state_def)

subsection \<open>propagateCancel for a new context\<close>

lemma wf_ensure_done: "wf s \<Longrightarrow> wf (ensure_done s q)"
  by (rule wf_benign [OF _ wf0_ensure_done [OF wf_wf0] benign_ensure_done [OF le_refl]])

lemma err_at_load: "load s q = Some c \<Longrightarrow> err_at s q = err c"
  by (auto simp: err_at_def dest!: load_Some_heap simp: cancelCtx_of_Some)

lemma chan_at_load: "load s q = Some c \<Longrightarrow> chan_at s q = done_c c"
  by (auto simp: chan_at_def dest!: load_Some_heap simp: cancelCtx_of_Some)

lemma closed_err:
  assumes w: "wf0 s" and c: "chan_at s q = Some d" and d: "d \<in> closedChans s"
  shows "\<exists>e. err_at s q = Some e"
proof -
  from c obtain x where x: "heap s q = Some x" "chan_of x = Some d"
    by (auto simp: chan_at_def split: option.splits)
  from wf0_obj [OF w x(1)] x(2) d show ?thesis
    by (cases x) (auto simp: err_at_def x(1) cc_ok_def)
qed

lemma err_at_ensure_done [simp]: "err_at (ensure_done s q) b = err_at s b"
proof (cases "load s q")
  case None
  then show ?thesis by (simp add: ensure_done_def)
next
  case (Some c)
  then obtain x where x: "heap s q = Some x" "cancelCtx_of x = Some c" by (auto dest: load_Some_heap)
  then show ?thesis
    by (cases x) (auto simp: ensure_done_def err_at_def Some split: option.splits)
qed

lemma obj_ok_eq:
  assumes "heap s' = heap s" "closedChans s' = closedChans s" "nextChan s' = nextChan s"
  shows "obj_ok s' a x = obj_ok s a x"
  using assms by (cases x) (simp_all add: cc_ok_def load_def)

lemma wf0_eq:
  assumes "heap s' = heap s" "nextAddr s' = nextAddr s" "closedChans s' = closedChans s"
    "nextChan s' = nextChan s"
  shows "wf0 s' = wf0 s"
  unfolding wf0_def using assms obj_ok_eq [OF assms(1,3,4)] by simp

lemma wf_eq:
  assumes "heap s' = heap s" "nextAddr s' = nextAddr s" "closedChans s' = closedChans s"
    "nextChan s' = nextChan s"
  shows "wf s' = wf s"
  unfolding wf_def using assms wf0_eq [OF assms] by (simp add: load_def)

lemma wf_upd_tasks: "wf s \<Longrightarrow> wf (s\<lparr>goroutines := g, watchers := ws\<rparr>)"
  by (subst wf_eq [of _ s]) simp_all

lemma wf_upd_watchers: "wf s \<Longrightarrow> wf (s\<lparr>watchers := ws\<rparr>)"
  by (subst wf_eq [of _ s]) simp_all

lemma wf_upd_now: "wf s \<Longrightarrow> wf (s\<lparr>now := t\<rparr>)"
  by (subst wf_eq [of _ s]) simp_all

lemma heap_Timer_load: "heap s a = Some (TimerCtx c d t) \<Longrightarrow> load s a = Some c"
  by (simp add: load_def)

lemma heap_Cancel_load: "heap s a = Some (CancelCtx c) \<Longrightarrow> load s a = Some c"
  by (simp add: load_def)

lemma wf_insert_child:
  assumes w: "wf s" and l: "load s p = Some pc" and e: "err pc = None" and lt: "p < child"
    and lc: "load s child \<noteq> None"
  shows "wf (modify s p (\<lambda>pc. pc\<lparr>children := Some (List.insert child (kids pc))\<rparr>))"
    (is "wf (modify s p ?f)")
proof -
  have "wf0 (modify s p ?f)"
  proof (rule wf0_modify_kids [OF wf_wf0 [OF w]])
    fix c assume "load s p = Some c"
    with wf0_cc [OF wf_wf0 [OF w] this] lt lc
    show "Context (?f c) = Context c \<and> done_c (?f c) = done_c c \<and> err (?f c) = err c
        \<and> (\<forall>ch\<in>set (kids (?f c)). p < ch \<and> load s ch \<noteq> None)"
      by (auto simp: cc_ok_def kids_def)
  qed
  moreover have "\<forall>a c. load (modify s p ?f) a = Some c \<and> err c \<noteq> None \<longrightarrow> children c = None"
    using wf_nochild [OF w] l e by (auto split: if_splits)
  moreover have "\<forall>a c d. heap (modify s p ?f) a = Some (TimerCtx c d True) \<longrightarrow> err c = None"
  proof (intro allI impI)
    fix a c d assume h: "heap (modify s p ?f) a = Some (TimerCtx c d True)"
    show "err c = None"
    proof (cases "a = p")
      case False
      with h wf_timer [OF w] show ?thesis by simp
    next
      case True
      from heap_Timer_load [OF h] True l e show ?thesis by auto
    qed
  qed
  ultimately show ?thesis by (simp add: wf_def)
qed


lemma stop_timer_not_pending: "\<not> pending s a \<Longrightarrow> stop_timer s a = s"
proof (cases "heap s a")
  case None
  then show ?thesis by (simp add: stop_timer_def fun_upd_idem)
next
  case (Some x)
  assume "\<not> pending s a"
  with Some have "with_timer False x = x" by (cases x) (auto simp: pending_def)
  with Some show ?thesis by (simp add: stop_timer_def fun_upd_idem)
qed

lemma pending_cancel_leaf [simp]: "pending (cancel_leaf cause s a c) b = pending s b"
  by (simp add: cancel_leaf_def mark_state_def)

lemma canceler_cancel_leaf:
  assumes w: "wf0 s" and l: "load s a = Some c" and e: "err c = None" and k: "kids c = []"
    and np: "\<not> pending s a"
  shows "canceler_cancel (Suc m) s a False (Some cause) = Some (Returns (cancel_leaf cause s a c))"
proof -
  note cl = cancelCtx_cancel_leaf [OF w l e k, of m cause]
  from l obtain x where x: "heap s a = Some x" "cancelCtx_of x = Some c" by (auto dest: load_Some_heap)
  show ?thesis
  proof (cases x)
    case (CancelCtx c')
    with x cl show ?thesis by simp
  next
    case (TimerCtx c' d t)
    have "stop_timer (cancel_leaf cause s a c) a = cancel_leaf cause s a c"
      by (rule stop_timer_not_pending) (simp add: np)
    with x TimerCtx cl show ?thesis by (simp add: timerCtx_cancel.simps)
  qed (use x in auto)
qed

lemma propagateCancel_wf:
  assumes w: "wf s" and pa: "pa < child" and lc: "load s child = Some cc" and ec: "err cc = None"
    and kc: "kids cc = []" and np: "\<not> pending s child" and bound: "nextAddr s \<le> child + n"
  shows "\<exists>s' q. q \<le> pa \<and> answers s pa q \<and> propagateCancel n s (Some pa) child = Some (Returns s')
     \<and> wf s'
     \<and> ((chan_at (ensure_done s q) q = None \<and> s' = ensure_done s q)
       \<or> (\<exists>d e. chan_at (ensure_done s q) q = Some d \<and> d \<in> closedChans s \<and> err_at s q = Some e
            \<and> s' = cancel_leaf e (ensure_done s q) child cc)
       \<or> (\<exists>d p pc. chan_at (ensure_done s q) q = Some d \<and> d \<notin> closedChans s \<and> p \<le> pa
            \<and> load (ensure_done s q) p = Some pc \<and> err pc = None \<and> done_c pc = Some d
            \<and> s' = modify (ensure_done s q) p (\<lambda>pc. pc\<lparr>children := Some (List.insert child (kids pc))\<rparr>))
       \<or> (\<exists>d. chan_at (ensure_done s q) q = Some d \<and> d \<notin> closedChans s
            \<and> s' = (ensure_done s q)\<lparr>goroutines := goroutines (ensure_done s q) + 1,
                  watchers := watchers (ensure_done s q) @ [(Some pa, child)]\<rparr>))"
proof -
  note w0 = wf_wf0 [OF w]
  from wf0_load_lt [OF w0, of child] lc have cl: "child < nextAddr s" by simp
  with pa have pl: "pa < nextAddr s" by simp
  from cl bound have n: "0 < n" by simp
  from ctx_Done_wf0 [OF w0 pl] obtain q where q: "q \<le> pa" "answers s pa q"
    and dn: "ctx_Done s (Some pa) = Some (Returns (chan_at (ensure_done s q) q, ensure_done s q))" by blast
  let ?s1 = "ensure_done s q"
  let ?dn = "chan_at ?s1 q"
  have w1: "wf ?s1" by (rule wf_ensure_done [OF w])
  note w10 = wf_wf0 [OF w1]
  have a1: "answers ?s1 pa q" using q(2) by (rule answers_skeleton [rotated]) simp
  from q(1) pa have qc: "q \<noteq> child" by simp
  with lc have lc1: "load ?s1 child = Some cc" by (simp add: load_ensure_done)
  have np1: "\<not> pending ?s1 child" using np by simp
  show ?thesis
  proof (cases ?dn)
    case None
    with dn have "propagateCancel n s (Some pa) child = Some (Returns ?s1)"
      by (simp add: propagateCancel_def)
    with q w1 None show ?thesis by blast
  next
    case (Some d)
    show ?thesis
    proof (cases "d \<in> closedChans s")
      case True
      then have d1: "d \<in> closedChans ?s1" by simp
      from closed_err [OF w10 Some d1] obtain e where e: "err_at s q = Some e" by auto
      have E: "ctx_Err ?s1 (Some pa) = Some (Returns (Some e))"
        using ctx_Err_answers [OF a1] e by simp
      from n obtain m where m: "n = Suc m" by (cases n) auto
      have "canceler_cancel n ?s1 child False (Some e) = Some (Returns (cancel_leaf e ?s1 child cc))"
        unfolding m by (rule canceler_cancel_leaf [OF w10 lc1 ec kc np1])
      with dn Some d1 E have r: "propagateCancel n s (Some pa) child = Some (Returns (cancel_leaf e ?s1 child cc))"
        by (simp add: propagateCancel_def)
      have "nextAddr ?s1 \<le> child + n" using bound by simp
      from canceler_cancel_top [OF w1 lc1 this, of False e]
        \<open>canceler_cancel n ?s1 child False (Some e) = Some (Returns (cancel_leaf e ?s1 child cc))\<close>
      have "wf (cancel_leaf e ?s1 child cc)" by auto
      with r q Some True e show ?thesis by blast
    next
      case False
      then have d1: "d \<notin> closedChans ?s1" by simp
      have pl1: "pa < nextAddr ?s1" using pl by simp
      from finds_exists [OF w10 pl1] obtain r0 where r0: "finds ?s1 pa r0" by auto
      let ?v = "map_option VCancelCtx r0"
      have v: "ctx_Value ?s1 (Some pa) CancelCtxKey = Some (Returns ?v)"
        by (rule ctx_Value_finds [OF r0])
      have typed: "\<And>p. ?v = Some (VCancelCtx p) \<Longrightarrow> load ?s1 p \<noteq> None"
        using finds_load [OF r0] by auto
      have idem: "ctx_Done ?s1 (Some pa) = Some (Returns (?dn, ?s1))"
        by (rule ctx_Done_idem [OF dn])
      show ?thesis
      proof (cases "\<exists>p. found_parent ?s1 ?dn ?v p")
        case True
        then obtain p where p: "found_parent ?s1 ?dn ?v p" by auto
        from parentCancelCtx_cases(1) [of ?s1 "Some pa" ?dn ?s1 ?v p] idem v typed p
        have pc: "parentCancelCtx ?s1 (Some pa) = Some (Returns (Some p, ?s1))" by auto
        from p obtain c' where c': "load ?s1 p = Some c'" "done_c c' = Some d" "r0 = Some p"
          using Some by (auto simp: found_parent_def)
        from finds_le [OF w10 r0 c'(3)] have ple: "p \<le> pa" .
        from wf0_cc [OF w10 c'(1)] c'(2) d1 have e': "err c' = None" by (auto simp: cc_ok_def)
        let ?f = "\<lambda>pc. pc\<lparr>children := Some (List.insert child (kids pc))\<rparr>"
        have "propagateCancel n s (Some pa) child = Some (Returns (modify ?s1 p ?f))"
          using dn Some d1 pc c' e' by (simp add: propagateCancel_def kids_def)
        moreover have "wf (modify ?s1 p ?f)"
          by (rule wf_insert_child [OF w1 c'(1) e']) (use ple pa lc1 in auto)
        ultimately show ?thesis using q Some False ple c' e' by blast
      next
        case nf: False
        with parentCancelCtx_cases(2) [of ?s1 "Some pa" ?dn ?s1 ?v] idem v typed
        have "parentCancelCtx ?s1 (Some pa) = Some (Returns (None, ?s1))" by auto
        with dn Some d1 have "propagateCancel n s (Some pa) child
            = Some (Returns (?s1\<lparr>goroutines := goroutines ?s1 + 1, watchers := watchers ?s1 @ [(Some pa, child)]\<rparr>))"
          by (simp add: propagateCancel_def)
        moreover have "wf (?s1\<lparr>goroutines := goroutines ?s1 + 1, watchers := watchers ?s1 @ [(Some pa, child)]\<rparr>)"
          by (rule wf_upd_tasks [OF w1])
        ultimately show ?thesis using q Some False by blast
      qed
    qed
  qed
qed

subsection \<open>Deriving a context in a well-formed store\<close>

lemma answers_det: "answers s a q \<Longrightarrow> answers s a q' \<Longrightarrow> q = q'"
proof (induction arbitrary: q' rule: answers.induct)
  case (self a x)
  from self(3) self(1,2) show ?case by (cases rule: answers.cases) auto
next
  case (up a p k v q)
  from up(4) up(1) have "answers s p q'" by (cases rule: answers.cases) auto
  with up.IH show ?case by simp
qed

lemma answers_alloc:
  assumes "heap s (nextAddr s) = None"
  shows "answers s a q \<Longrightarrow> answers (snd (alloc s x)) a q"
proof (induction rule: answers.induct)
  case (self a y)
  with assms have "heap (snd (alloc s x)) a = Some y" by auto
  with self(2) show ?case by (auto intro: answers.self)
next
  case (up a p k v q)
  with assms have "heap (snd (alloc s x)) a = Some (ValueCtx (Some p) k v)" by auto
  with up show ?case by (auto intro: answers.up)
qed

lemma ensure_done_alloc:
  assumes "q \<noteq> nextAddr s"
  shows "ensure_done (snd (alloc s x)) q = snd (alloc (ensure_done s q) x)"
proof (cases "\<exists>c. load s q = Some c \<and> done_c c = None")
  case False
  with assms show ?thesis by (auto simp: ensure_done_def split: option.splits)
next
  case True
  then obtain c where c: "load s q = Some c" "done_c c = None" by auto
  with assms have l0: "load (snd (alloc s x)) q = Some c" by simp
  have "modify ((snd (alloc s x))\<lparr>nextChan := Suc (nextChan s)\<rparr>) q f
      = snd (alloc (modify (s\<lparr>nextChan := Suc (nextChan s)\<rparr>) q f) x)" for f
    using assms by (simp add: alloc_def modify_def fun_upd_twist)
  with c l0 show ?thesis by (simp add: ensure_done_def)
qed

lemma chan_at_alloc: "q \<noteq> nextAddr s \<Longrightarrow> chan_at (snd (alloc s x)) q = chan_at s q"
  by (simp add: chan_at_def)

lemma err_at_alloc: "q \<noteq> nextAddr s \<Longrightarrow> err_at (snd (alloc s x)) q = err_at s q"
  by (simp add: err_at_def)

lemma pending_alloc: "pending (snd (alloc s x)) b = (if b = nextAddr s then (\<exists>c d. x = TimerCtx c d True) else pending s b)"
  by (simp add: pending_def)

definition propagated :: "state \<Rightarrow> state \<Rightarrow> addr \<Rightarrow> addr \<Rightarrow> addr \<Rightarrow> cancelCtx \<Rightarrow> state \<Rightarrow> bool" where
  "propagated rd s1 q pa child cc s2 =
     ((chan_at (ensure_done rd q) q = None \<and> s2 = s1)
    \<or> (\<exists>d e. chan_at (ensure_done rd q) q = Some d \<and> d \<in> closedChans rd \<and> err_at rd q = Some e
          \<and> s2 = cancel_leaf e s1 child cc)
    \<or> (\<exists>d p pc. chan_at (ensure_done rd q) q = Some d \<and> d \<notin> closedChans rd \<and> p \<le> pa
          \<and> load (ensure_done rd q) p = Some pc \<and> err pc = None \<and> done_c pc = Some d
          \<and> s2 = modify s1 p (\<lambda>pc. pc\<lparr>children := Some (List.insert child (kids pc))\<rparr>))
    \<or> (\<exists>d. chan_at (ensure_done rd q) q = Some d \<and> d \<notin> closedChans rd
          \<and> s2 = s1\<lparr>goroutines := goroutines s1 + 1, watchers := watchers s1 @ [(Some pa, child)]\<rparr>))"

lemma propagated_cong:
  assumes "chan_at (ensure_done rd' q) q = chan_at (ensure_done rd q) q"
    and "closedChans rd' = closedChans rd" and "err_at rd' q = err_at rd q"
    and "\<And>p. p \<le> pa \<Longrightarrow> load (ensure_done rd' q) p = load (ensure_done rd q) p"
  shows "propagated rd' s1 q pa child cc s2 = propagated rd s1 q pa child cc s2"
  unfolding propagated_def assms(1,2,3) by (simp add: assms(4) cong: conj_cong)

lemma propagateCancel_propagated:
  assumes "wf s" "pa < child" "load s child = Some cc" "err cc = None" "kids cc = []"
    "\<not> pending s child" "nextAddr s \<le> child + n"
  shows "\<exists>s' q. q \<le> pa \<and> answers s pa q \<and> propagateCancel n s (Some pa) child = Some (Returns s')
     \<and> wf s' \<and> propagated s (ensure_done s q) q pa child cc s'"
  unfolding propagated_def by (rule propagateCancel_wf [OF assms])

lemma derive_cases:
  assumes w: "wf s" and pa: "pa < nextAddr s" and n: "0 < n"
    and x: "x = CancelCtx (newCancelCtx (Some pa)) \<or> x = TimerCtx (newCancelCtx (Some pa)) dl False"
  shows "\<exists>s2 q. q \<le> pa \<and> answers s pa q
     \<and> propagateCancel n (snd (alloc s x)) (Some pa) (nextAddr s) = Some (Returns s2) \<and> wf s2
     \<and> propagated s (snd (alloc (ensure_done s q) x)) q pa (nextAddr s) (newCancelCtx (Some pa)) s2"
proof -
  let ?s0 = "snd (alloc s x)"
  let ?c = "nextAddr s"
  let ?cc = "newCancelCtx (Some pa)"
  note w0 = wf_wf0 [OF w]
  have ws0: "wf ?s0"
    using x wf_alloc_cancelCtx [OF w pa] wf_alloc_timerCtx [OF w pa] by auto
  have lc: "load ?s0 ?c = Some ?cc" using x by auto
  have ec: "err ?cc = None" and kc: "kids ?cc = []" by (simp_all add: newCancelCtx_def kids_def)
  have np: "\<not> pending ?s0 ?c" using x by (auto simp: pending_alloc)
  have bound: "nextAddr ?s0 \<le> ?c + n" using n by simp
  from propagateCancel_propagated [OF ws0 pa lc ec kc np bound] obtain s2 q where
    r: "q \<le> pa" "answers ?s0 pa q" "propagateCancel n ?s0 (Some pa) ?c = Some (Returns s2)" "wf s2"
      "propagated ?s0 (ensure_done ?s0 q) q pa ?c ?cc s2"
    by blast
  from r(1) pa have qn: "q \<noteq> ?c" by simp
  from answers_exists [OF w0 pa] obtain q' where q': "answers s pa q'" by auto
  from answers_alloc [OF wf0_fresh [OF w0] q', of x] r(2) have "q' = q" by (rule answers_det)
  with q' have a: "answers s pa q" by simp
  have ed: "ensure_done ?s0 q = snd (alloc (ensure_done s q) x)" by (rule ensure_done_alloc [OF qn])
  have ca: "chan_at (ensure_done ?s0 q) q = chan_at (ensure_done s q) q"
    unfolding ed using chan_at_alloc [of q "ensure_done s q" x] qn by simp
  have ea: "err_at ?s0 q = err_at s q" using err_at_alloc [OF qn] by simp
  have lp: "load (ensure_done ?s0 q) p = load (ensure_done s q) p" if "p \<le> pa" for p
    unfolding ed using that pa by simp
  have "propagated s (ensure_done ?s0 q) q pa ?c ?cc s2"
    using r(5) propagated_cong [of ?s0 q s pa, OF ca _ ea lp] by simp
  with r(1,3,4) a show ?thesis unfolding ed by blast
qed

lemma propagated_cases:
  assumes "propagated rd s1 q pa child cc s2"
  obtains (nil) "chan_at (ensure_done rd q) q = None" "s2 = s1"
    | (closed) d e where "chan_at (ensure_done rd q) q = Some d" "d \<in> closedChans rd"
        "err_at rd q = Some e" "s2 = cancel_leaf e s1 child cc"
    | (registered) d p pc where "chan_at (ensure_done rd q) q = Some d" "d \<notin> closedChans rd" "p \<le> pa"
        "load (ensure_done rd q) p = Some pc" "err pc = None" "done_c pc = Some d"
        "s2 = modify s1 p (\<lambda>pc. pc\<lparr>children := Some (List.insert child (kids pc))\<rparr>)"
    | (watched) d where "chan_at (ensure_done rd q) q = Some d" "d \<notin> closedChans rd"
        "s2 = s1\<lparr>goroutines := goroutines s1 + 1, watchers := watchers s1 @ [(Some pa, child)]\<rparr>"
  using assms unfolding propagated_def
  apply (elim disjE exE conjE)
     apply (rule nil; assumption)
    apply (rule closed; assumption)
   apply (rule registered; assumption)
  apply (rule watched; assumption)
  done

lemma propagated_now: "propagated rd s1 q pa child cc s2 \<Longrightarrow> now s2 = now s1"
  by (erule propagated_cases) simp_all

lemma propagated_nextAddr: "propagated rd s1 q pa child cc s2 \<Longrightarrow> nextAddr s2 = nextAddr s1"
  by (erule propagated_cases) simp_all

text \<open>Whether the parent's done channel was closed when Done was called on it.\<close>

definition parent_closed :: "state \<Rightarrow> addr \<Rightarrow> bool" where
  "parent_closed rd q = (\<exists>d. chan_at (ensure_done rd q) q = Some d \<and> d \<in> closedChans rd)"

lemma propagated_child:
  assumes "propagated rd s1 q pa child cc s2" "load s1 child = Some cc" "pa < child"
  shows "load s2 child = Some (if parent_closed rd q then mark (the (err_at rd q)) cc else cc)"
  using assms(1)
proof (cases rule: propagated_cases)
  case nil
  with assms show ?thesis by (simp add: parent_closed_def)
next
  case (closed d e)
  with assms show ?thesis by (simp add: parent_closed_def load_cancel_leaf)
next
  case (registered d p pc)
  with assms show ?thesis by (auto simp: parent_closed_def)
next
  case (watched d)
  with assms show ?thesis by (simp add: parent_closed_def)
qed

lemma propagated_closed:
  assumes "propagated rd s1 q pa child cc s2" "parent_closed rd q"
  shows "\<exists>e. err_at rd q = Some e \<and> s2 = cancel_leaf e s1 child cc"
  using assms(1)
proof (cases rule: propagated_cases)
  case (closed d e)
  then show ?thesis by simp
qed (use assms(2) in \<open>auto simp: parent_closed_def\<close>)

lemma WithCancel_wf:
  assumes w: "wf s" and pa: "pa < nextAddr s" and n: "0 < n"
  shows "\<exists>s2 q. q \<le> pa \<and> answers s pa q
     \<and> WithCancel n s (Some pa) = Some (Returns ((nextAddr s, CancelFunc (nextAddr s) True Canceled), s2))
     \<and> wf s2
     \<and> propagated s (snd (alloc (ensure_done s q) (CancelCtx (newCancelCtx (Some pa))))) q pa
          (nextAddr s) (newCancelCtx (Some pa)) s2"
proof -
  from derive_cases [OF w pa n, of "CancelCtx (newCancelCtx (Some pa))"] obtain s2 q where
    r: "q \<le> pa" "answers s pa q"
      "propagateCancel n (snd (alloc s (CancelCtx (newCancelCtx (Some pa))))) (Some pa) (nextAddr s) = Some (Returns s2)"
      "wf s2"
      "propagated s (snd (alloc (ensure_done s q) (CancelCtx (newCancelCtx (Some pa))))) q pa
          (nextAddr s) (newCancelCtx (Some pa)) s2" by auto
  from r(3) have "WithCancel n s (Some pa) = Some (Returns ((nextAddr s, CancelFunc (nextAddr s) True Canceled), s2))"
    by (simp add: WithCancel_def alloc_def)
  with r show ?thesis by blast
qed

lemma pending_set_timer: "pending (set_timer s a) b \<Longrightarrow> pending s b \<or> b = a"
  by (auto simp: pending_def split: if_splits)

lemma wf_set_timer:
  assumes w: "wf s" and nc: "\<not> cancelled s a"
  shows "wf (set_timer s a)"
  unfolding wf_def
proof (intro conjI allI impI)
  show "wf0 (set_timer s a)" by (rule wf0_set_timer [OF wf_wf0 [OF w]])
next
  fix b c assume "load (set_timer s a) b = Some c \<and> err c \<noteq> None"
  with wf_nochild [OF w, of b c] show "children c = None" by simp
next
  fix b c d assume h: "heap (set_timer s a) b = Some (TimerCtx c d True)"
  from heap_Timer_load [OF h] have l: "load s b = Some c" by simp
  from h have "pending (set_timer s a) b" by (auto simp: pending_def)
  from pending_set_timer [OF this] show "err c = None"
  proof
    assume "pending s b"
    then obtain c' d' where "heap s b = Some (TimerCtx c' d' True)" by (auto simp: pending_def)
    with wf_timer [OF w this] l show ?thesis by (simp add: load_def)
  next
    assume "b = a"
    with nc l show ?thesis by (simp add: cancelled_load)
  qed
qed

lemma WithDeadline_wf:
  assumes w: "wf s" and pa: "pa < nextAddr s" and n: "0 < n"
    and cur: "ctx_Deadline s (Some pa) = Some (Returns cur)"
    and late: "\<not> (\<exists>t. cur = Some t \<and> t < dl)"
  shows "\<exists>s2 s3 q f. q \<le> pa \<and> answers s pa q \<and> wf s2
     \<and> propagated s (snd (alloc (ensure_done s q) (TimerCtx (newCancelCtx (Some pa)) dl False))) q pa
          (nextAddr s) (newCancelCtx (Some pa)) s2
     \<and> WithDeadline n s (Some pa) dl = Some (Returns ((nextAddr s, f), s3)) \<and> wf s3
     \<and> (dl - now s \<le> 0 \<longrightarrow> f = CancelFunc (nextAddr s) False Canceled
           \<and> timerCtx_cancel n s2 (nextAddr s) True (Some DeadlineExceeded) = Some (Returns s3))
     \<and> (\<not> dl - now s \<le> 0 \<longrightarrow> f = CancelFunc (nextAddr s) True Canceled
           \<and> s3 = (if cancelled s2 (nextAddr s) then s2 else set_timer s2 (nextAddr s)))"
proof -
  let ?x = "TimerCtx (newCancelCtx (Some pa)) dl False"
  let ?c = "nextAddr s"
  let ?cc = "newCancelCtx (Some pa)"
  from derive_cases [OF w pa n, of ?x dl] obtain s2 q where
    r: "q \<le> pa" "answers s pa q"
      "propagateCancel n (snd (alloc s ?x)) (Some pa) ?c = Some (Returns s2)" "wf s2"
      "propagated s (snd (alloc (ensure_done s q) ?x)) q pa ?c ?cc s2" by auto
  have nw: "now s2 = now s" using propagated_now [OF r(5)] by simp
  have na: "nextAddr s2 = Suc ?c" using propagated_nextAddr [OF r(5)] by simp
  have l1: "load (snd (alloc (ensure_done s q) ?x)) ?c = Some ?cc" by simp
  from propagated_child [OF r(5) l1 pa] obtain c2 where c2: "load s2 ?c = Some c2" by auto
  have lt: "\<not> (case cur of None \<Rightarrow> False | Some t \<Rightarrow> t < dl)"
    using late by (auto split: option.splits)
  show ?thesis
  proof (cases "dl - now s \<le> 0")
    case True
    have "nextAddr s2 \<le> Suc (?c + n)" using na by simp
    from timerCtx_cancel_top [OF r(4) c2 this, of True DeadlineExceeded] obtain s3 where
      s3: "timerCtx_cancel n s2 ?c True (Some DeadlineExceeded) = Some (Returns s3)" "wf s3" by blast
    then have "WithDeadline n s (Some pa) dl = Some (Returns ((?c, CancelFunc ?c False Canceled), s3))"
      using cur lt r(3) True nw by (simp add: WithDeadline_def alloc_def Let_def)
    with r s3 True show ?thesis by blast
  next
    case False
    let ?s3 = "if cancelled s2 ?c then s2 else set_timer s2 ?c"
    have "WithDeadline n s (Some pa) dl = Some (Returns ((?c, CancelFunc ?c True Canceled), ?s3))"
      using cur lt r(3) False nw c2 by (auto simp: WithDeadline_def alloc_def Let_def cancelled_load)
    moreover have "wf ?s3" using r(4) wf_set_timer [OF r(4)] by simp
    ultimately show ?thesis using r False by blast
  qed
qed

lemma answers_heap: "answers s a q \<Longrightarrow> heap s a \<noteq> None"
  by (induction rule: answers.induct) auto

lemma canceler_cancel_cancelled:
  assumes "load s a = Some c" "err c \<noteq> None"
  shows "\<exists>s'. canceler_cancel (Suc m) s a rfp (Some e) = Some (Returns s') \<and> (s' = s \<or> s' = stop_timer s a)"
proof -
  from assms have cc: "cancelCtx_cancel m s a rfp (Some e) = Some (Returns s)"
    by (simp add: cancelCtx_cancel.simps)
  from assms(1) obtain x where x: "heap s a = Some x" "cancelCtx_of x = Some c" by (auto dest: load_Some_heap)
  then show ?thesis using cc by (cases x) (auto simp: timerCtx_cancel.simps)
qed

text \<open>What a deriving call leaves when the parent's done channel was already closed.\<close>

lemma pending_alloc_leaf:
  "x = CancelCtx cc \<or> x = TimerCtx cc dl False \<Longrightarrow> \<not> pending (cancel_leaf e (snd (alloc s x)) (nextAddr s) cc) (nextAddr s)"
  by (auto simp: pending_alloc)

lemma derive_closed:
  assumes w: "wf s" and pa: "pa < nextAddr s" and n: "0 < n" and a: "answers s pa q"
    and pc: "parent_closed s q"
  shows "\<exists>e x. err_at s q = Some e
     \<and> (x = CancelCtx (newCancelCtx (Some pa)) \<or> x = TimerCtx (newCancelCtx (Some pa)) dl False)
     \<and> (\<exists>f. WithDeadline n s (Some pa) dl = Some (Returns ((nextAddr s, f),
            cancel_leaf e (snd (alloc (ensure_done s q) x)) (nextAddr s) (newCancelCtx (Some pa)))))
     \<and> WithCancel n s (Some pa) = Some (Returns ((nextAddr s, CancelFunc (nextAddr s) True Canceled),
            cancel_leaf e (snd (alloc (ensure_done s q) (CancelCtx (newCancelCtx (Some pa))))) (nextAddr s)
              (newCancelCtx (Some pa))))"
proof -
  let ?c = "nextAddr s"
  let ?cc = "newCancelCtx (Some pa)"
  from WithCancel_wf [OF w pa n] obtain s2 q' where
    r: "answers s pa q'"
      "WithCancel n s (Some pa) = Some (Returns ((?c, CancelFunc ?c True Canceled), s2))"
      "propagated s (snd (alloc (ensure_done s q') (CancelCtx ?cc))) q' pa ?c ?cc s2" by blast
  from answers_det [OF r(1) a] have qq: "q' = q" .
  from propagated_closed [OF r(3) [unfolded qq] pc] obtain e where
    e: "err_at s q = Some e" "s2 = cancel_leaf e (snd (alloc (ensure_done s q) (CancelCtx ?cc))) ?c ?cc"
    by blast
  note WC = r(2) [unfolded e(2)]
  from ctx_Deadline_returns [OF wf_wf0 [OF w] pa] obtain cur where
    cur: "ctx_Deadline s (Some pa) = Some (Returns cur)" by blast
  show ?thesis
  proof (cases "\<exists>t. cur = Some t \<and> t < dl")
    case True
    then obtain t where "cur = Some t" "t < dl" by blast
    with cur have "WithDeadline n s (Some pa) dl = WithCancel n s (Some pa)"
      by (simp add: WithDeadline_def)
    with WC e(1) show ?thesis by auto
  next
    case False
    let ?x = "TimerCtx ?cc dl False"
    from WithDeadline_wf [OF w pa n cur False] obtain s2' s3 q'' f where
      d: "answers s pa q''"
        "propagated s (snd (alloc (ensure_done s q'') ?x)) q'' pa ?c ?cc s2'"
        "WithDeadline n s (Some pa) dl = Some (Returns ((?c, f), s3))"
        "dl - now s \<le> 0 \<longrightarrow> timerCtx_cancel n s2' ?c True (Some DeadlineExceeded) = Some (Returns s3)"
        "\<not> dl - now s \<le> 0 \<longrightarrow> s3 = (if cancelled s2' ?c then s2' else set_timer s2' ?c)"
      by blast
    from answers_det [OF d(1) a] have qq': "q'' = q" .
    from propagated_closed [OF d(2) [unfolded qq'] pc] e(1) have
      s2': "s2' = cancel_leaf e (snd (alloc (ensure_done s q) ?x)) ?c ?cc" by auto
    have l2: "load s2' ?c = Some (mark e ?cc)" unfolding s2' by (simp add: load_cancel_leaf)
    have np: "\<not> pending s2' ?c" unfolding s2'
      using pending_alloc_leaf [of ?x ?cc dl e "ensure_done s q"] by simp
    have "s3 = s2'"
    proof (cases "dl - now s \<le> 0")
      case True
      with d(4) l2 stop_timer_not_pending [OF np] show ?thesis
        by (simp add: timerCtx_cancel.simps cancelCtx_cancel_True)
    next
      case False
      with d(5) l2 show ?thesis by (simp add: cancelled_load)
    qed
    with d(3) s2' WC e(1) show ?thesis by auto
  qed
qed

lemma derive_closed_facts:
  fixes e :: error
  assumes w: "wf s" and q: "q < nextAddr s"
    and x: "x = CancelCtx (newCancelCtx (Some pa)) \<or> x = TimerCtx (newCancelCtx (Some pa)) dl False"
  defines "s' \<equiv> cancel_leaf e (snd (alloc (ensure_done s q) x)) (nextAddr s) (newCancelCtx (Some pa))"
  shows "load s' (nextAddr s) = Some (mark e (newCancelCtx (Some pa)))"
    and "closedchan \<in> closedChans s'"
    and "\<And>b cb. load s b = Some cb \<Longrightarrow> \<exists>cb'. load s' b = Some cb' \<and> children cb' = children cb"
    and "watchers s' = watchers s" and "goroutines s' = goroutines s"
proof -
  have l: "load (snd (alloc (ensure_done s q) x)) (nextAddr s) = Some (newCancelCtx (Some pa))"
    using x by auto
  show "load s' (nextAddr s) = Some (mark e (newCancelCtx (Some pa)))"
    unfolding s'_def using l by (simp add: load_cancel_leaf)
  show "closedchan \<in> closedChans s'"
    unfolding s'_def using wf0_closedchan [OF wf_wf0 [OF w]] by simp
  show "watchers s' = watchers s" "goroutines s' = goroutines s" unfolding s'_def by simp_all
  fix b cb assume b: "load s b = Some cb"
  with wf0_load_lt [OF wf_wf0 [OF w], of b] have "b \<noteq> nextAddr s" by auto
  then have "load s' b = load (ensure_done s q) b"
    unfolding s'_def using l by (simp add: load_cancel_leaf)
  with b show "\<exists>cb'. load s' b = Some cb' \<and> children cb' = children cb"
    by (auto simp: load_ensure_done)
qed

lemma derive_closed_result:
  assumes w: "wf s" and dn: "ctx_Done s parent = Some (Returns (Some d, s1))" and d: "d \<in> closedChans s"
    and n: "0 < n"
  shows "\<exists>e. ctx_Err s parent = Some (Returns (Some e))
     \<and> (\<forall>dl. \<exists>f s'. WithDeadline n s parent dl = Some (Returns ((nextAddr s, f), s'))
           \<and> load s' (nextAddr s) = Some (mark e (newCancelCtx parent))
           \<and> closedchan \<in> closedChans s'
           \<and> (\<forall>b cb. load s b = Some cb \<longrightarrow> (\<exists>cb'. load s' b = Some cb' \<and> children cb' = children cb))
           \<and> watchers s' = watchers s \<and> goroutines s' = goroutines s)
     \<and> (\<exists>f s'. WithCancel n s parent = Some (Returns ((nextAddr s, f), s'))
           \<and> load s' (nextAddr s) = Some (mark e (newCancelCtx parent))
           \<and> closedchan \<in> closedChans s'
           \<and> (\<forall>b cb. load s b = Some cb \<longrightarrow> (\<exists>cb'. load s' b = Some cb' \<and> children cb' = children cb))
           \<and> watchers s' = watchers s \<and> goroutines s' = goroutines s)"
proof -
  note w0 = wf_wf0 [OF w]
  from ctx_Done_Returns_answers [OF dn] obtain pa q where p: "parent = Some pa" and a: "answers s pa q"
    by blast
  from answers_heap [OF a] wf0_dom [OF w0, of pa] have pa: "pa < nextAddr s" by simp
  from ctx_Done_answers [OF a] dn p have "chan_at (ensure_done s q) q = Some d" by auto
  with d have pc: "parent_closed s q" by (auto simp: parent_closed_def)
  from answers_exists [OF w0 pa] a answers_det have "q \<le> pa" by blast
  with pa have q: "q < nextAddr s" by simp
  from derive_closed [OF w pa n a pc] obtain e where e: "err_at s q = Some e" by blast
  have E: "ctx_Err s parent = Some (Returns (Some e))"
    using ctx_Err_answers [OF a] e p by simp
  have D: "\<exists>f s'. WithDeadline n s parent dl = Some (Returns ((nextAddr s, f), s'))
           \<and> load s' (nextAddr s) = Some (mark e (newCancelCtx parent))
           \<and> closedchan \<in> closedChans s'
           \<and> (\<forall>b cb. load s b = Some cb \<longrightarrow> (\<exists>cb'. load s' b = Some cb' \<and> children cb' = children cb))
           \<and> watchers s' = watchers s \<and> goroutines s' = goroutines s" for dl
  proof -
    from derive_closed [OF w pa n a pc, of dl] e obtain x f where
      x: "x = CancelCtx (newCancelCtx (Some pa)) \<or> x = TimerCtx (newCancelCtx (Some pa)) dl False"
      and r: "WithDeadline n s (Some pa) dl = Some (Returns ((nextAddr s, f),
            cancel_leaf e (snd (alloc (ensure_done s q) x)) (nextAddr s) (newCancelCtx (Some pa))))"
      by auto
    from derive_closed_facts [OF w q x, where e = e] r p show ?thesis by blast
  qed
  have C: "\<exists>f s'. WithCancel n s parent = Some (Returns ((nextAddr s, f), s'))
           \<and> load s' (nextAddr s) = Some (mark e (newCancelCtx parent))
           \<and> closedchan \<in> closedChans s'
           \<and> (\<forall>b cb. load s b = Some cb \<longrightarrow> (\<exists>cb'. load s' b = Some cb' \<and> children cb' = children cb))
           \<and> watchers s' = watchers s \<and> goroutines s' = goroutines s"
  proof -
    from derive_closed [OF w pa n a pc, of 0] e have
      r: "WithCancel n s (Some pa) = Some (Returns ((nextAddr s, CancelFunc (nextAddr s) True Canceled),
            cancel_leaf e (snd (alloc (ensure_done s q) (CancelCtx (newCancelCtx (Some pa))))) (nextAddr s)
              (newCancelCtx (Some pa))))" by auto
    from derive_closed_facts [OF w q, where x = "CancelCtx (newCancelCtx (Some pa))" and pa = pa and dl = 0 and e = e] r p
    show ?thesis by blast
  qed
  from E D C show ?thesis by blast
qed

section \<open>What every operation keeps\<close>

text \<open>\<open>grows s s'\<close>: every cancellable context of \<open>s\<close> is still there in \<open>s'\<close>, with the
  \<open>err\<close> it had once that was set and the done channel it had once that was made; closed
  channels stay closed.\<close>

definition grows :: "state \<Rightarrow> state \<Rightarrow> bool" where
  "grows s s' = (closedChans s \<subseteq> closedChans s' \<and> nextAddr s \<le> nextAddr s'
     \<and> (\<forall>a c. load s a = Some c \<longrightarrow> (\<exists>c'. load s' a = Some c'
            \<and> (err c \<noteq> None \<longrightarrow> err c' = err c) \<and> (done_c c \<noteq> None \<longrightarrow> done_c c' = done_c c))))"

lemma grows_refl [simp]: "grows s s"
  by (simp add: grows_def)

lemma grows_trans: "grows s s1 \<Longrightarrow> grows s1 s2 \<Longrightarrow> grows s s2"
  unfolding grows_def by fastforce

lemma grows_load:
  "grows s s' \<Longrightarrow> load s a = Some c \<Longrightarrow> \<exists>c'. load s' a = Some c'
            \<and> (err c \<noteq> None \<longrightarrow> err c' = err c) \<and> (done_c c \<noteq> None \<longrightarrow> done_c c' = done_c c)"
  unfolding grows_def by blast

lemma grows_closed: "grows s s' \<Longrightarrow> d \<in> closedChans s \<Longrightarrow> d \<in> closedChans s'"
  unfolding grows_def by blast

lemma growsI:
  assumes "closedChans s \<subseteq> closedChans s'" "nextAddr s \<le> nextAddr s'"
    and "\<And>a c. load s a = Some c \<Longrightarrow> \<exists>c'. load s' a = Some c'
            \<and> (err c \<noteq> None \<longrightarrow> err c' = err c) \<and> (done_c c \<noteq> None \<longrightarrow> done_c c' = done_c c)"
  shows "grows s s'"
  unfolding grows_def using assms by blast

lemma grows_same_load:
  assumes "closedChans s \<subseteq> closedChans s'" "nextAddr s \<le> nextAddr s'"
    and "\<And>a. load s a \<noteq> None \<Longrightarrow> load s' a = load s a"
  shows "grows s s'"
  by (rule growsI [OF assms(1,2)]) (use assms(3) in auto)

lemma benign_grows:
  assumes "benign k s s'"
  shows "grows s s'"
proof (rule growsI)
  fix a c assume "load s a = Some c"
  from benign_load [OF assms this]
  show "\<exists>c'. load s' a = Some c' \<and> (err c \<noteq> None \<longrightarrow> err c' = err c) \<and> (done_c c \<noteq> None \<longrightarrow> done_c c' = done_c c)"
    by auto
qed (use assms in \<open>auto simp: benign_def\<close>)

lemma dch_Some: "done_c c = Some d \<Longrightarrow> dch c = d"
  by (simp add: dch_def)

lemma fanout_grows: "fanout cause None s s' \<Longrightarrow> grows s s'"
proof (rule growsI)
  fix a c assume f: "fanout cause None s s'" and l: "load s a = Some c"
  from fanout_load_None [OF f l]
  show "\<exists>c'. load s' a = Some c' \<and> (err c \<noteq> None \<longrightarrow> err c' = err c) \<and> (done_c c \<noteq> None \<longrightarrow> done_c c' = done_c c)"
    by (auto simp: dch_Some)
qed (auto simp: fanout_def)

subsection \<open>Done\<close>

lemma ctx_Done_step:
  assumes "wf s" "ctx_Done s r = Some (Returns (d, s'))"
  shows "wf s' \<and> grows s s' \<and> nextAddr s' = nextAddr s"
proof -
  from ctx_Done_Returns_answers [OF assms(2)] obtain a q where r: "r = Some a" and a: "answers s a q"
    by blast
  from ctx_Done_answers [OF a] assms(2) r have s': "s' = ensure_done s q" by auto
  show ?thesis unfolding s'
    using wf_ensure_done [OF assms(1)] benign_grows [OF benign_ensure_done [OF le_refl]] by simp
qed

subsection \<open>cancel and removeChild\<close>

lemma canceler_cancel_Returns:
  assumes "canceler_cancel n s a rfp e = Some (Returns s')"
  shows "\<exists>c cause. load s a = Some c \<and> e = Some cause"
proof (cases n)
  case 0
  with assms show ?thesis by simp
next
  case (Suc m)
  show ?thesis
  proof (cases "heap s a")
    case None
    with assms Suc show ?thesis by simp
  next
    case (Some x)
    with assms Suc show ?thesis
      by (cases x; cases e) (auto simp: load_def cancelCtx_cancel.simps timerCtx_cancel.simps)
  qed
qed

lemma canceler_cancel_step:
  assumes "wf s" "nextAddr s \<le> a + n" "canceler_cancel n s a rfp e = Some (Returns s')"
  shows "wf s' \<and> grows s s'"
proof -
  from canceler_cancel_Returns [OF assms(3)] obtain c cause where
    l: "load s a = Some c" and e: "e = Some cause" by blast
  from canceler_cancel_top [OF assms(1) l assms(2), of rfp cause] assms(3) e
  obtain s4 q where "fanout cause None s s4" "benign q s4 s'" "wf s'" by auto
  then show ?thesis using grows_trans [OF fanout_grows benign_grows] by blast
qed

lemma timerCtx_cancel_step':
  assumes "wf s" "load s a = Some c" "nextAddr s \<le> Suc (a + n)"
    "timerCtx_cancel n s a rfp (Some cause) = Some (Returns s')"
  shows "wf s' \<and> grows s s'"
proof -
  from timerCtx_cancel_top [OF assms(1,2,3), of rfp cause] assms(4)
  obtain s4 q where "fanout cause None s s4" "benign q s4 s'" "wf s'" by auto
  then show ?thesis using grows_trans [OF fanout_grows benign_grows] by blast
qed

lemma removeChild_step:
  assumes "wf s" "a < nextAddr s" "removeChild s (Some a) child = Some (Returns s')"
  shows "wf s' \<and> grows s s'"
  using removeChild_wf0 [OF wf_wf0 [OF assms(1)] assms(2), of child] assms(1,3)
  by (auto intro: wf_benign benign_grows)

subsection \<open>Deriving\<close>

lemma grows_alloc: "wf0 s \<Longrightarrow> grows s (snd (alloc s x))"
  by (rule grows_same_load) (auto dest: wf0_load_lt)

lemma WithValue_step:
  assumes "wf s" "pa < nextAddr s" "k \<noteq> CancelCtxKey" "WithValue s (Some pa) (Some k) v = Some (Returns (a, s'))"
  shows "wf s' \<and> grows s s'"
proof -
  from assms(4) have "s' = snd (alloc s (ValueCtx (Some pa) k v))"
    by (auto simp: WithValue_def)
  then show ?thesis using wf_alloc_valueCtx [OF assms(1,2,3)] grows_alloc [OF wf_wf0 [OF assms(1)]] by simp
qed

lemma propagated_grows:
  assumes w: "wf0 s" and x: "cancelCtx_of x = Some cc" and cc: "err cc = None" "done_c cc = None"
    and p: "propagated s (snd (alloc (ensure_done s q) x)) q pa (nextAddr s) cc s2"
  shows "grows s s2"
proof -
  let ?s1 = "snd (alloc (ensure_done s q) x)"
  have g1: "grows s ?s1"
    using grows_trans [OF benign_grows [OF benign_ensure_done [OF le_refl]]
        grows_alloc [OF wf0_ensure_done [OF w]]] .
  have l1: "load ?s1 (nextAddr s) = Some cc" using x by simp
  from p have "grows ?s1 s2"
  proof (cases rule: propagated_cases)
    case nil
    then show ?thesis by simp
  next
    case (closed d e)
    show ?thesis unfolding closed(4)
      by (rule growsI) (use l1 cc in \<open>auto simp: load_cancel_leaf [OF l1] simp del: load_alloc\<close>)
  next
    case (registered d p pc)
    show ?thesis unfolding registered(7)
      by (rule growsI) auto
  next
    case (watched d)
    show ?thesis unfolding watched(3)
      by (rule grows_same_load) (simp_all add: load_def)
  qed
  with g1 show ?thesis by (rule grows_trans)
qed

lemma WithCancel_step:
  assumes "wf s" "pa < nextAddr s" "0 < n" "WithCancel n s (Some pa) = Some (Returns (r, s'))"
  shows "wf s' \<and> grows s s'"
proof -
  from WithCancel_wf [OF assms(1,2,3)] assms(4) obtain q where
    "wf s'" "propagated s (snd (alloc (ensure_done s q) (CancelCtx (newCancelCtx (Some pa))))) q pa
          (nextAddr s) (newCancelCtx (Some pa)) s'" by auto
  then show ?thesis using propagated_grows [OF wf_wf0 [OF assms(1)], of "CancelCtx (newCancelCtx (Some pa))"]
    by (auto simp: newCancelCtx_def)
qed

lemma WithDeadline_step:
  assumes w: "wf s" and pa: "pa < nextAddr s" and n: "0 < n"
    and r: "WithDeadline n s (Some pa) dl = Some (Returns (r, s'))"
  shows "wf s' \<and> grows s s'"
proof -
  from ctx_Deadline_returns [OF wf_wf0 [OF w] pa] obtain cur where
    cur: "ctx_Deadline s (Some pa) = Some (Returns cur)" by blast
  show ?thesis
  proof (cases "\<exists>t. cur = Some t \<and> t < dl")
    case True
    with cur have "WithDeadline n s (Some pa) dl = WithCancel n s (Some pa)"
      by (auto simp: WithDeadline_def)
    with r WithCancel_step [OF w pa n] show ?thesis by simp
  next
    case False
    let ?c = "nextAddr s"
    let ?cc = "newCancelCtx (Some pa)"
    let ?x = "TimerCtx ?cc dl False"
    from WithDeadline_wf [OF w pa n cur False] r obtain s2 q where
      d: "wf s2" "propagated s (snd (alloc (ensure_done s q) ?x)) q pa ?c ?cc s2" "wf s'"
        "dl - now s \<le> 0 \<longrightarrow> timerCtx_cancel n s2 ?c True (Some DeadlineExceeded) = Some (Returns s')"
        "\<not> dl - now s \<le> 0 \<longrightarrow> s' = (if cancelled s2 ?c then s2 else set_timer s2 ?c)"
      by auto
    have g: "grows s s2" using propagated_grows [OF wf_wf0 [OF w] _ _ _ d(2)] by (simp add: newCancelCtx_def)
    have l1: "load (snd (alloc (ensure_done s q) ?x)) ?c = Some ?cc" by simp
    note l2 = propagated_child [OF d(2) l1 pa]
    have "nextAddr s2 \<le> Suc (?c + n)" using propagated_nextAddr [OF d(2)] by simp
    note ts = timerCtx_cancel_step' [OF d(1) l2 this]
    have "grows s2 s'"
    proof (cases "dl - now s \<le> 0")
      case True
      with d(4) ts show ?thesis by blast
    next
      case False
      with d(5) show ?thesis by (auto intro: grows_same_load)
    qed
    with g d(3) show ?thesis by (blast intro: grows_trans)
  qed
qed


subsection \<open>Timers, watchers and the environment\<close>

lemma wf_stop_timer:
  assumes "wf s"
  shows "wf (stop_timer s a)"
  unfolding wf_def
proof (intro conjI allI impI)
  show "wf0 (stop_timer s a)" by (rule wf0_stop_timer [OF wf_wf0 [OF assms]])
next
  fix b c assume "load (stop_timer s a) b = Some c \<and> err c \<noteq> None"
  then show "children c = None" using wf_nochild [OF assms, of b c] by simp
next
  fix b c d assume h: "heap (stop_timer s a) b = Some (TimerCtx c d True)"
  have "b \<noteq> a"
  proof
    assume "b = a"
    with h obtain x where "heap s a = Some x" "with_timer False x = TimerCtx c d True"
      by (auto simp: stop_timer_def)
    then show False by (cases x) auto
  qed
  with h have "heap s b = Some (TimerCtx c d True)" by (simp add: stop_timer_def)
  then show "err c = None" by (rule wf_timer [OF assms])
qed

lemma timer_fire_step:
  assumes w: "wf s" and n: "nextAddr s \<le> Suc (a + n)" and r: "timer_fire n s a = Some (Returns s')"
  shows "wf s' \<and> grows s s'"
proof (cases "\<exists>c d. heap s a = Some (TimerCtx c d True) \<and> d \<le> now s")
  case True
  then obtain c d where h: "heap s a = Some (TimerCtx c d True)" "d \<le> now s" by blast
  have eq: "s\<lparr>heap := (heap s)(a \<mapsto> TimerCtx c d False)\<rparr> = stop_timer s a"
    using h by (simp add: stop_timer_def)
  from r h have t: "timerCtx_cancel n (stop_timer s a) a True (Some DeadlineExceeded) = Some (Returns s')"
    by (simp add: timer_fire_def eq)
  have l: "load (stop_timer s a) a = Some c" using h by (simp add: load_def)
  have g: "grows s (stop_timer s a)" by (rule grows_same_load) simp_all
  from timerCtx_cancel_step' [OF wf_stop_timer [OF w] l _ t] n g show ?thesis
    by (auto intro: grows_trans)
next
  case False
  with r have "s' = s"
    by (auto simp: timer_fire_def split: option.splits ctx.splits bool.splits if_splits)
  with w show ?thesis by simp
qed

lemma watcher_run_step:
  assumes w: "wf s" and n: "nextAddr s \<le> n" and r: "watcher_run n s i = Some (Returns s')"
  shows "wf s' \<and> grows s s'"
proof (cases "length (watchers s) \<le> i")
  case True
  with r w show ?thesis by (simp add: watcher_run_def)
next
  case False
  obtain parent child where pc: "watchers s ! i = (parent, child)" by (cases "watchers s ! i")
  from r False pc obtain pd s1 cd s2 where
    d1: "ctx_Done s parent = Some (Returns (pd, s1))"
    and d2: "ctx_Done s1 (Some child) = Some (Returns (cd, s2))"
    and rest: "(if (case pd of None \<Rightarrow> False | Some d \<Rightarrow> d \<in> closedChans s2)
                then obind (ctx_Err s2 parent) (\<lambda>e.
                     obind (canceler_cancel n s2 child False e) (\<lambda>s3.
                       Some (Returns (s3\<lparr>watchers := remove_nth i (watchers s3)\<rparr>))))
                else if (case cd of None \<Rightarrow> False | Some d \<Rightarrow> d \<in> closedChans s2)
                then Some (Returns (s2\<lparr>watchers := remove_nth i (watchers s2)\<rparr>))
                else Some (Returns s2)) = Some (Returns s')"
    by (auto simp: watcher_run_def obind_Returns)
  note s1 = ctx_Done_step [OF w d1]
  note s2 = ctx_Done_step [OF conjunct1 [OF s1] d2]
  have w2: "wf s2" and g2: "grows s s2" and na: "nextAddr s2 = nextAddr s"
    using s1 s2 by (auto intro: grows_trans)
  have gw: "grows t (t\<lparr>watchers := ws\<rparr>)" for t ws
    by (rule grows_same_load) (simp_all add: load_def)
  show ?thesis
  proof (cases "case pd of None \<Rightarrow> False | Some d \<Rightarrow> d \<in> closedChans s2")
    case True
    with rest obtain e s3 where
      c: "canceler_cancel n s2 child False e = Some (Returns s3)"
        "s' = s3\<lparr>watchers := remove_nth i (watchers s3)\<rparr>"
      by (auto simp: obind_Returns)
    from canceler_cancel_step [OF w2 _ c(1)] n na have "wf s3" "grows s2 s3" by auto
    with g2 gw [of s3] show ?thesis unfolding c(2)
      by (auto intro: grows_trans wf_upd_watchers)
  next
    case False
    with rest have "s' = s2 \<or> s' = s2\<lparr>watchers := remove_nth i (watchers s2)\<rparr>"
      by (auto split: if_splits)
    with w2 g2 gw [of s2] show ?thesis by (auto intro: grows_trans wf_upd_watchers)
  qed
qed

lemma wf0_nextChan:
  assumes "wf0 s"
  shows "wf0 (s\<lparr>nextChan := Suc (nextChan s)\<rparr>)" (is "wf0 ?s")
proof (rule wf0I)
  fix a x assume h: "heap ?s a = Some x"
  then have "obj_ok s a x" using wf0_obj [OF assms, of a x] by simp
  then show "obj_ok ?s a x" by (rule obj_ok_mono) (simp_all add: load_def)
next
  fix a b x y d
  assume "heap ?s a = Some x" "heap ?s b = Some y" "chan_of x = Some d" "chan_of y = Some d" "d \<noteq> closedchan"
  then show "a = b" using wf0_owner [OF assms, of a x b y d] by simp
qed (use assms wf0_dom [OF assms] wf0_closedchan [OF assms] wf0_closed_lt [OF assms] in \<open>auto simp: less_Suc_eq\<close>)

lemma new_foreign_step:
  assumes w: "wf s" and i: "\<forall>q. inner = Some q \<longrightarrow> q < nextAddr s"
  shows "wf (snd (new_foreign s inner dl)) \<and> grows s (snd (new_foreign s inner dl))"
proof -
  let ?t = "s\<lparr>nextChan := Suc (nextChan s)\<rparr>"
  let ?x = "ForeignCtx \<lparr> f_done = Some (nextChan s), f_err = None, f_deadline = dl, f_inner = inner \<rparr>"
  let ?s = "snd (alloc ?t ?x)"
  note w0 = wf_wf0 [OF w]
  note w1 = wf0_nextChan [OF w0]
  have nc: "nextChan s \<notin> closedChans s" using wf0_closed_lt [OF w0, of "nextChan s"] by auto
  have "wf0 ?s"
  proof (rule wf0I)
    fix a show "(heap ?s a = None) = (nextAddr ?s \<le> a)"
      using wf0_dom [OF w0, of a] by auto
  next
    show "closedchan \<in> closedChans ?s" using wf0_closedchan [OF w0] by simp
  next
    fix d assume "d \<in> closedChans ?s" then show "d < nextChan ?s"
      using wf0_closed_lt [OF w0, of d] by simp
  next
    fix a y assume h: "heap ?s a = Some y"
    show "obj_ok ?s a y"
    proof (cases "a = nextAddr s")
      case True
      with h i nc show ?thesis by auto
    next
      case False
      with h have hs: "heap ?t a = Some y" by simp
      show ?thesis using wf0_obj [OF w1 hs]
        by (rule obj_ok_mono) (use wf0_load_lt [OF w0] in \<open>auto simp: load_def\<close>)
    qed
  next
    fix a b y z d
    assume h: "heap ?s a = Some y" "heap ?s b = Some z" "chan_of y = Some d" "chan_of z = Some d"
      "d \<noteq> closedchan"
    have fresh: "c \<noteq> nextAddr s" if "heap s c = Some v" "chan_of v = Some d'" "d' = nextChan s" for c v d'
      using wf0_chan_lt [OF w0 that(1,2)] that(3) by simp
    show "a = b"
    proof (cases "a = nextAddr s \<or> b = nextAddr s")
      case True
      with h wf0_chan_lt [OF w0, of a y d] wf0_chan_lt [OF w0, of b z d] show ?thesis
        by (auto split: if_splits)
    next
      case False
      with h wf0_owner [OF w0, of a y b z d] show ?thesis by simp
    qed
  qed
  moreover have "\<forall>a c. load ?s a = Some c \<and> err c \<noteq> None \<longrightarrow> children c = None"
    using wf_nochild [OF w] by (auto simp: load_def split: if_splits)
  moreover have "\<forall>a c d. heap ?s a = Some (TimerCtx c d True) \<longrightarrow> err c = None"
    using wf_timer [OF w] by (auto split: if_splits)
  ultimately have "wf ?s" by (simp add: wf_def)
  moreover have "grows s ?s"
    by (rule grows_same_load) (use wf0_load_lt [OF w0] in \<open>auto simp: load_def\<close>)
  ultimately show ?thesis by (simp add: new_foreign_def)
qed

lemma foreign_cancel_step:
  assumes w: "wf s"
  shows "wf (foreign_cancel s a e) \<and> grows s (foreign_cancel s a e)"
proof (cases "\<exists>f d. heap s a = Some (ForeignCtx f) \<and> f_done f = Some d \<and> d \<notin> closedChans s")
  case False
  then have "foreign_cancel s a e = s"
    by (auto simp: foreign_cancel_def split: option.splits ctx.splits)
  with w show ?thesis by simp
next
  case True
  then obtain f d where h: "heap s a = Some (ForeignCtx f)" "f_done f = Some d" "d \<notin> closedChans s"
    by blast
  let ?s = "s\<lparr>heap := (heap s)(a \<mapsto> ForeignCtx (f\<lparr>f_err := Some e\<rparr>)), closedChans := insert d (closedChans s)\<rparr>"
  have eq: "foreign_cancel s a e = ?s" using h by (simp add: foreign_cancel_def)
  note w0 = wf_wf0 [OF w]
  have dn: "d \<noteq> closedchan" using h(3) wf0_closedchan [OF w0] by auto
  have ld: "load ?s b = load s b" for b using h(1) by (simp add: load_def)
  have ld2: "load (s\<lparr>heap := (heap s)(a \<mapsto> ForeignCtx g)\<rparr>) b = load s b" for b g
    using h(1) by (simp add: load_def)
  have own: "done_c c \<noteq> Some d" if "load s b = Some c" for b c
  proof
    assume dc: "done_c c = Some d"
    from load_Some_heap [OF that] obtain x where x: "heap s b = Some x" "cancelCtx_of x = Some c" by blast
    from wf0_owner [OF w0 x(1) h(1), of d] dc x(2) h(2) dn have "b = a"
      by (simp add: chan_of_cancelCtx_of)
    with x h(1) show False by auto
  qed
  have "wf0 ?s"
  proof (rule wf0I)
    fix b show "(heap ?s b = None) = (nextAddr ?s \<le> b)"
      using wf0_dom [OF w0, of b] h(1) by auto
  next
    show "closedchan \<in> closedChans ?s" using wf0_closedchan [OF w0] by simp
  next
    fix d' assume "d' \<in> closedChans ?s" then show "d' < nextChan ?s"
      using wf0_closed_lt [OF w0, of d'] wf0_chan_lt [OF w0 h(1), of d] h(2) by auto
  next
    fix b y assume hb: "heap ?s b = Some y"
    show "obj_ok ?s b y"
    proof (cases "b = a")
      case True
      with hb wf0_obj [OF w0 h(1)] h(2) show ?thesis by auto
    next
      case False
      with hb have hs: "heap s b = Some y" by simp
      note ok = wf0_obj [OF w0 hs]
      show ?thesis
      proof (cases y)
        case (CancelCtx c)
        with hs have "load s b = Some c" by (simp add: load_def)
        from own [OF this] ok CancelCtx show ?thesis by (auto simp: cc_ok_def ld2)
      next
        case (TimerCtx c dl t)
        with hs have "load s b = Some c" by (simp add: load_def)
        from own [OF this] ok TimerCtx show ?thesis by (auto simp: cc_ok_def ld2)
      next
        case (ForeignCtx g)
        have "f_done g \<noteq> Some d"
        proof
          assume "f_done g = Some d"
          with wf0_owner [OF w0 hs h(1), of d] ForeignCtx h(2) dn False show False by simp
        qed
        with ok ForeignCtx show ?thesis by auto
      qed (use ok in auto)
    qed
  next
    fix b c y z d'
    assume hh: "heap ?s b = Some y" "heap ?s c = Some z" "chan_of y = Some d'" "chan_of z = Some d'"
      "d' \<noteq> closedchan"
    define y' where "y' = (if b = a then ForeignCtx f else y)"
    define z' where "z' = (if c = a then ForeignCtx f else z)"
    from hh h have "heap s b = Some y'" "heap s c = Some z'" "chan_of y' = Some d'" "chan_of z' = Some d'"
      by (auto simp: y'_def z'_def split: if_splits)
    from wf0_owner [OF w0 this hh(5)] show "b = c" .
  qed
  moreover have "\<forall>b c. load ?s b = Some c \<and> err c \<noteq> None \<longrightarrow> children c = None"
    using wf_nochild [OF w] by (auto simp: ld2)
  moreover have "\<forall>b c dl. heap ?s b = Some (TimerCtx c dl True) \<longrightarrow> err c = None"
    using wf_timer [OF w] by (auto split: if_splits)
  ultimately have "wf ?s" by (simp add: wf_def)
  moreover have "grows s ?s" by (rule grows_same_load) (auto simp: ld2)
  ultimately show ?thesis by (simp add: eq)
qed

lemma advance_step: "wf s \<Longrightarrow> wf (advance s t) \<and> grows s (advance s t)"
  unfolding advance_def by (auto intro: wf_upd_now grows_same_load simp: load_def)

lemma wf_init_state: "wf (init_state t)"
  unfolding wf_def wf0_def
  by (auto simp: init_state_def load_def closedchan_def split: if_splits)


section \<open>The stores a program can reach\<close>

text \<open>One step of a program that uses the package: a call of an exported function or
  method that changes the store, given a context that exists, or a call of \<open>cancel\<close> or
  \<open>removeChild\<close>, the run of a timer callback or of a watcher goroutine, or a move of
  the environment. The number of nested calls allowed is at least the number of
  objects in the store, which is enough for every call to return. Keys given to
  \<open>WithValue\<close> are not the private \<open>cancelCtxKey\<close>, which no caller can name.\<close>

inductive step :: "state \<Rightarrow> state \<Rightarrow> bool" where
  Done: "ctx_Done s r = Some (Returns (d, s')) \<Longrightarrow> step s s'"
| WithCancel: "pa < nextAddr s \<Longrightarrow> nextAddr s \<le> n
     \<Longrightarrow> WithCancel n s (Some pa) = Some (Returns (r, s')) \<Longrightarrow> step s s'"
| WithDeadline: "pa < nextAddr s \<Longrightarrow> nextAddr s \<le> n
     \<Longrightarrow> WithDeadline n s (Some pa) dl = Some (Returns (r, s')) \<Longrightarrow> step s s'"
| WithTimeout: "pa < nextAddr s \<Longrightarrow> nextAddr s \<le> n
     \<Longrightarrow> WithTimeout n s (Some pa) tmo = Some (Returns (r, s')) \<Longrightarrow> step s s'"
| WithValue: "pa < nextAddr s \<Longrightarrow> k \<noteq> CancelCtxKey
     \<Longrightarrow> WithValue s (Some pa) (Some k) v = Some (Returns (a, s')) \<Longrightarrow> step s s'"
| cancel: "nextAddr s \<le> n \<Longrightarrow> canceler_cancel n s a removeFromParent e = Some (Returns s')
     \<Longrightarrow> step s s'"
| removeChild: "pa < nextAddr s \<Longrightarrow> removeChild s (Some pa) child = Some (Returns s') \<Longrightarrow> step s s'"
| timer: "nextAddr s \<le> n \<Longrightarrow> timer_fire n s a = Some (Returns s') \<Longrightarrow> step s s'"
| watcher: "nextAddr s \<le> n \<Longrightarrow> watcher_run n s i = Some (Returns s') \<Longrightarrow> step s s'"
| new_foreign: "\<forall>q. inner = Some q \<longrightarrow> q < nextAddr s \<Longrightarrow> step s (snd (new_foreign s inner dl))"
| foreign_cancel: "step s (foreign_cancel s a e)"
| advance: "step s (advance s t)"

inductive reachable :: "state \<Rightarrow> bool" where
  init: "reachable (init_state t)"
| step: "reachable s \<Longrightarrow> step s s' \<Longrightarrow> reachable s'"

lemma step_wf_grows:
  assumes "wf s" "step s s'"
  shows "wf s' \<and> grows s s'"
  using assms(2,1)
proof (cases rule: step.cases)
  case (Done r d)
  with ctx_Done_step [OF assms(1)] show ?thesis by blast
next
  case (WithCancel pa n r)
  with WithCancel_step [OF assms(1), of pa n r s'] show ?thesis by simp
next
  case (WithDeadline pa n dl r)
  with WithDeadline_step [OF assms(1), of pa n dl r s'] show ?thesis by simp
next
  case (WithTimeout pa n tmo r)
  with WithDeadline_step [OF assms(1), of pa n "now s + tmo" r s'] show ?thesis
    by (simp add: WithTimeout_def)
next
  case (WithValue pa k v a)
  with WithValue_step [OF assms(1)] show ?thesis by blast
next
  case (cancel n a rfp e)
  with canceler_cancel_step [OF assms(1), of a n rfp e s'] show ?thesis by simp
next
  case (removeChild pa child)
  with removeChild_step [OF assms(1)] show ?thesis by blast
next
  case (timer n a)
  with timer_fire_step [OF assms(1), of a n s'] show ?thesis by simp
next
  case (watcher n i)
  with watcher_run_step [OF assms(1)] show ?thesis by blast
next
  case (new_foreign inner dl)
  with new_foreign_step [OF assms(1)] show ?thesis by blast
next
  case (foreign_cancel a e)
  with foreign_cancel_step [OF assms(1)] show ?thesis by blast
next
  case (advance t)
  with advance_step [OF assms(1)] show ?thesis by blast
qed

lemma reachable_wf: "reachable s \<Longrightarrow> wf s"
  by (induction rule: reachable.induct) (auto intro: wf_init_state dest: step_wf_grows)

lemma steps_wf_grows:
  assumes "rtranclp step s s'" "wf s"
  shows "wf s' \<and> grows s s'"
  using assms
proof (induction rule: rtranclp_induct)
  case base
  then show ?case by simp
next
  case (step y z)
  with step_wf_grows [of y z] show ?case by (blast intro: grows_trans)
qed

lemma reachable_steps: "rtranclp step s s' \<Longrightarrow> reachable s \<Longrightarrow> reachable s'"
  by (induction rule: rtranclp_induct) (auto intro: reachable.step)

lemma steps_err_kept:
  assumes "wf s" "rtranclp step s s'" "load s a = Some c" "err c \<noteq> None"
  shows "\<exists>c'. load s' a = Some c' \<and> err c' = err c"
  using grows_load [OF conjunct2 [OF steps_wf_grows [OF assms(2,1)]] assms(3)] assms(4) by auto

lemma canceler_cancel_sets_err:
  assumes w: "wf s" and l: "load s a = Some c" and n: "nextAddr s \<le> n"
    and r: "canceler_cancel n s a rfp (Some cause) = Some (Returns s')"
  shows "wf s' \<and> (\<exists>c'. load s' a = Some c' \<and> err c' = (if err c = None then Some cause else err c))"
proof -
  from n have b: "nextAddr s \<le> a + n" by simp
  from canceler_cancel_top [OF w l b, of rfp cause] r obtain s4 q where
    t: "benign q s4 s'" "load s4 a = Some (if err c = None then mark cause c else c)" "wf s'" by auto
  from benign_load [OF t(1,2)] t(3) show ?thesis by auto
qed

lemma cancelCtx_Done_ensure_done:
  assumes "load s a = Some c"
  shows "cancelCtx_Done s a = Some (Returns (Some (case done_c c of None \<Rightarrow> nextChan s | Some d \<Rightarrow> d), ensure_done s a))"
  using assms by (simp add: cancelCtx_Done_def ensure_done_def Let_def split: option.splits)

lemma cancelCtx_Done_made:
  assumes "load s a = Some c" "done_c c = Some d"
  shows "cancelCtx_Done s a = Some (Returns (Some d, s))"
  using assms by (simp add: cancelCtx_Done_def)

lemma steps_done_kept:
  assumes "wf s" "rtranclp step s s'" "load s a = Some c" "done_c c = Some d"
  shows "\<exists>c'. load s' a = Some c' \<and> done_c c' = Some d"
  using grows_load [OF conjunct2 [OF steps_wf_grows [OF assms(2,1)]] assms(3)] assms(4) by auto

lemma below_load: "below s b a \<Longrightarrow> \<exists>cb. load s b = Some cb \<and> kids cb \<noteq> []"
  by (induction rule: below.induct) auto

lemma cancelled_not_pending:
  assumes "wf s" "cancelled s a"
  shows "\<not> pending s a"
proof
  assume "pending s a"
  then obtain c d where h: "heap s a = Some (TimerCtx c d True)" by (auto simp: pending_def)
  from wf_timer [OF assms(1) h] assms(2) h show False by (simp add: cancelled_def load_def)
qed

lemma timer_fire_not_pending: "\<not> pending s a \<Longrightarrow> timer_fire m s a = Some (Returns s)"
  by (auto simp: pending_def timer_fire_def split: option.splits ctx.splits bool.splits)

lemma cancel_reaches_below:
  assumes w: "wf s" and b: "b = a \<or> below s b a" and la: "load s a \<noteq> None" and n: "nextAddr s \<le> n"
    and r: "canceler_cancel n s b rfp (Some cause) = Some (Returns s')"
  shows "wf s' \<and> cancelled s' a"
proof (cases "b = a")
  case True
  from la obtain c where "load s a = Some c" by auto
  from canceler_cancel_sets_err [OF w this n r [unfolded True]] show ?thesis
    by (auto simp: cancelled_load)
next
  case False
  with b have bl: "below s b a" by simp
  from below_load [OF bl] obtain cb where lb: "load s b = Some cb" and k: "kids cb \<noteq> []" by blast
  have e: "err cb = None"
  proof (rule ccontr)
    assume "err cb \<noteq> None"
    from wf_nochild [OF w lb this] k show False by (simp add: kids_def)
  qed
  from n have bd: "nextAddr s \<le> b + n" by simp
  from canceler_cancel_top [OF w lb bd, of rfp cause] r e obtain s4 q where
    t: "fanout cause None s s4" "benign q s4 s'" "load s4 b = Some (mark cause cb)" "wf s'" by auto
  from t(3) have "cancelled s4 b" by (simp add: cancelled_load)
  from fanout_below [OF w t(1) lb e this bl] obtain c4 where "load s4 a = Some c4" "err c4 \<noteq> None"
    by (auto simp: cancelled_load)
  with benign_load [OF t(2), of a c4] t(4) show ?thesis by (auto simp: cancelled_load)
qed

section \<open>Watchers and the goroutine counter\<close>

lemma ctx_Done_tasks:
  assumes "ctx_Done s r = Some (Returns (d, s'))"
  shows "goroutines s' = goroutines s \<and> watchers s' = watchers s \<and> closedChans s' = closedChans s"
proof -
  from ctx_Done_Returns_answers [OF assms] obtain a q where r: "r = Some a" and a: "answers s a q"
    by blast
  from ctx_Done_answers [OF a] assms r have "s' = ensure_done s q" by auto
  then show ?thesis by simp
qed

lemma canceler_cancel_tasks:
  assumes "wf s" "nextAddr s \<le> a + n" "canceler_cancel n s a rfp e = Some (Returns s')"
  shows "goroutines s' = goroutines s \<and> watchers s' = watchers s"
proof -
  from canceler_cancel_Returns [OF assms(3)] obtain c cause where
    l: "load s a = Some c" and e: "e = Some cause" by blast
  from canceler_cancel_top [OF assms(1) l assms(2), of rfp cause] assms(3) e
  obtain s4 q where "fanout cause None s s4" "benign q s4 s'" by auto
  then show ?thesis by (simp add: fanout_def benign_def)
qed

lemma timerCtx_cancel_tasks:
  assumes "wf s" "load s a = Some c" "nextAddr s \<le> Suc (a + n)"
    "timerCtx_cancel n s a rfp (Some cause) = Some (Returns s')"
  shows "goroutines s' = goroutines s \<and> watchers s' = watchers s"
proof -
  from timerCtx_cancel_top [OF assms(1,2,3), of rfp cause] assms(4)
  obtain s4 q where "fanout cause None s s4" "benign q s4 s'" by auto
  then show ?thesis by (simp add: fanout_def benign_def)
qed

lemma removeChild_tasks:
  assumes "wf s" "a < nextAddr s" "removeChild s (Some a) child = Some (Returns s')"
  shows "goroutines s' = goroutines s \<and> watchers s' = watchers s"
  using removeChild_wf0 [OF wf_wf0 [OF assms(1)] assms(2), of child] assms(3)
  by (auto simp: benign_def)

lemma propagated_tasks:
  assumes "propagated rd s1 q pa child cc s2"
  shows "(goroutines s2 = goroutines s1 \<and> watchers s2 = watchers s1)
       \<or> (goroutines s2 = goroutines s1 + 1 \<and> watchers s2 = watchers s1 @ [(Some pa, child)])"
  using assms by (cases rule: propagated_cases) simp_all

lemma WithCancel_tasks:
  assumes "wf s" "pa < nextAddr s" "0 < n" "WithCancel n s (Some pa) = Some (Returns (r, s'))"
  shows "(goroutines s' = goroutines s \<and> watchers s' = watchers s)
       \<or> (goroutines s' = goroutines s + 1 \<and> (\<exists>w. watchers s' = watchers s @ [w]))"
proof -
  from WithCancel_wf [OF assms(1,2,3)] assms(4) obtain q where
    "propagated s (snd (alloc (ensure_done s q) (CancelCtx (newCancelCtx (Some pa))))) q pa
          (nextAddr s) (newCancelCtx (Some pa)) s'" by auto
  from propagated_tasks [OF this] show ?thesis by auto
qed

lemma WithDeadline_tasks:
  assumes w: "wf s" and pa: "pa < nextAddr s" and n: "0 < n"
    and r: "WithDeadline n s (Some pa) dl = Some (Returns (r, s'))"
  shows "(goroutines s' = goroutines s \<and> watchers s' = watchers s)
       \<or> (goroutines s' = goroutines s + 1 \<and> (\<exists>w. watchers s' = watchers s @ [w]))"
proof -
  from ctx_Deadline_returns [OF wf_wf0 [OF w] pa] obtain cur where
    cur: "ctx_Deadline s (Some pa) = Some (Returns cur)" by blast
  show ?thesis
  proof (cases "\<exists>t. cur = Some t \<and> t < dl")
    case True
    with cur have "WithDeadline n s (Some pa) dl = WithCancel n s (Some pa)"
      by (auto simp: WithDeadline_def)
    with r WithCancel_tasks [OF w pa n] show ?thesis by simp
  next
    case False
    let ?c = "nextAddr s"
    let ?cc = "newCancelCtx (Some pa)"
    let ?x = "TimerCtx ?cc dl False"
    from WithDeadline_wf [OF w pa n cur False] r obtain s2 q where
      d: "wf s2" "propagated s (snd (alloc (ensure_done s q) ?x)) q pa ?c ?cc s2"
        "dl - now s \<le> 0 \<longrightarrow> timerCtx_cancel n s2 ?c True (Some DeadlineExceeded) = Some (Returns s')"
        "\<not> dl - now s \<le> 0 \<longrightarrow> s' = (if cancelled s2 ?c then s2 else set_timer s2 ?c)"
      by auto
    have l1: "load (snd (alloc (ensure_done s q) ?x)) ?c = Some ?cc" by simp
    note l2 = propagated_child [OF d(2) l1 pa]
    have "nextAddr s2 \<le> Suc (?c + n)" using propagated_nextAddr [OF d(2)] by simp
    note ts = timerCtx_cancel_tasks [OF d(1) l2 this]
    have "goroutines s' = goroutines s2 \<and> watchers s' = watchers s2"
    proof (cases "dl - now s \<le> 0")
      case True
      with d(3) ts show ?thesis by blast
    next
      case False
      with d(4) show ?thesis by auto
    qed
    with propagated_tasks [OF d(2)] show ?thesis by auto
  qed
qed

lemma timer_fire_tasks:
  assumes w: "wf s" and n: "nextAddr s \<le> Suc (a + n)" and r: "timer_fire n s a = Some (Returns s')"
  shows "goroutines s' = goroutines s \<and> watchers s' = watchers s"
proof (cases "\<exists>c d. heap s a = Some (TimerCtx c d True) \<and> d \<le> now s")
  case True
  then obtain c d where h: "heap s a = Some (TimerCtx c d True)" "d \<le> now s" by blast
  have eq: "s\<lparr>heap := (heap s)(a \<mapsto> TimerCtx c d False)\<rparr> = stop_timer s a"
    using h by (simp add: stop_timer_def)
  from r h have t: "timerCtx_cancel n (stop_timer s a) a True (Some DeadlineExceeded) = Some (Returns s')"
    by (simp add: timer_fire_def eq)
  have l: "load (stop_timer s a) a = Some c" using h by (simp add: load_def)
  from timerCtx_cancel_tasks [OF wf_stop_timer [OF w] l _ t] n show ?thesis by simp
next
  case False
  with r have "s' = s"
    by (auto simp: timer_fire_def split: option.splits ctx.splits bool.splits if_splits)
  then show ?thesis by simp
qed

lemma ctx_Done_load: "load s a = Some c \<Longrightarrow> ctx_Done s (Some a) = cancelCtx_Done s a"
  by (auto dest!: load_Some_heap simp: cancelCtx_of_Some ctx_Done.simps)

lemma set_remove_nth:
  assumes "x \<in> set xs" "i < length xs"
  shows "x \<in> set (remove_nth i xs) \<or> x = xs ! i"
proof -
  from id_take_nth_drop [OF assms(2)] have "set xs = set (take i xs @ xs ! i # drop (Suc i) xs)" by simp
  with assms(1) show ?thesis by (auto simp: remove_nth_def)
qed

text \<open>What one run of a watcher does, in the three cases of its \<open>select\<close>.\<close>

lemma watcher_run_cases:
  assumes w: "wf t" and i: "i < length (watchers t)" and p: "watchers t ! i = (parent, child)"
    and lc: "load t child = Some c" and n: "nextAddr t \<le> m"
    and dn: "ctx_Done t parent = Some (Returns (pd, t1))"
  shows "\<exists>t' c'. watcher_run m t i = Some (Returns t') \<and> wf t' \<and> goroutines t' = goroutines t
      \<and> load t' child = Some c'
      \<and> (if \<exists>d. pd = Some d \<and> d \<in> closedChans t
          then \<exists>e. ctx_Err t parent = Some (Returns (Some e))
                 \<and> err c' = (if err c = None then Some e else err c)
                 \<and> watchers t' = remove_nth i (watchers t)
          else if err c \<noteq> None
          then err c' = err c \<and> watchers t' = remove_nth i (watchers t)
          else err c' = None \<and> watchers t' = watchers t)"
proof -
  note w0 = wf_wf0 [OF w]
  from ctx_Done_Returns_answers [OF dn] obtain pa q where pa: "parent = Some pa" and a: "answers t pa q"
    by blast
  from ctx_Done_answers [OF a] dn pa have t1: "t1 = ensure_done t q" and pd: "pd = chan_at t1 q" by auto
  have w1: "wf t1" unfolding t1 by (rule wf_ensure_done [OF w])
  from benign_load [OF benign_ensure_done [OF le_refl] lc, of q] obtain c1 where
    c1: "load t1 child = Some c1" "err c1 = err c" unfolding t1 by blast
  let ?t2 = "ensure_done t1 child"
  have d2: "ctx_Done t1 (Some child)
      = Some (Returns (Some (case done_c c1 of None \<Rightarrow> nextChan t1 | Some d \<Rightarrow> d), ?t2))"
    using ctx_Done_load [OF c1(1)] cancelCtx_Done_ensure_done [OF c1(1)] by simp
  have w2: "wf ?t2" by (rule wf_ensure_done [OF w1])
  from benign_load [OF benign_ensure_done [OF le_refl] c1(1), of child] obtain c2 where
    c2: "load ?t2 child = Some c2" "err c2 = err c" using c1(2) by auto
  have dc2: "done_c c2 = Some (case done_c c1 of None \<Rightarrow> nextChan t1 | Some d \<Rightarrow> d)"
    using c2(1) c1(1) by (auto simp: load_ensure_done split: option.splits)
  have f2: "closedChans ?t2 = closedChans t" "watchers ?t2 = watchers t" "goroutines ?t2 = goroutines t"
    "nextAddr ?t2 = nextAddr t" by (simp_all add: t1)
  have cdcl: "(case done_c c1 of None \<Rightarrow> nextChan t1 | Some d \<Rightarrow> d) \<in> closedChans ?t2 \<longleftrightarrow> err c \<noteq> None"
    using wf0_cc [OF wf_wf0 [OF w2] c2(1)] dc2 c2(2) by (simp add: cc_ok_def)
  have a2: "answers ?t2 pa q" using a by (rule answers_skeleton [rotated]) (simp add: t1)
  have e2: "err_at ?t2 q = err_at t q" by (simp add: t1)
  have E2: "ctx_Err ?t2 parent = Some (Returns (err_at t q))"
    using ctx_Err_answers [OF a2] e2 pa by simp
  have E: "ctx_Err t parent = Some (Returns (err_at t q))"
    using ctx_Err_answers [OF a] pa by simp
  show ?thesis
  proof (cases "\<exists>d. pd = Some d \<and> d \<in> closedChans t")
    case True
    then obtain d where d: "chan_at t1 q = Some d" "d \<in> closedChans t1" using pd by (auto simp: t1)
    from closed_err [OF wf_wf0 [OF w1] d] obtain e where e: "err_at t q = Some e" by (auto simp: t1)
    from n f2(4) have b: "nextAddr ?t2 \<le> child + m" by simp
    from canceler_cancel_top [OF w2 c2(1) b, of False e] obtain s4 where
      t: "canceler_cancel m ?t2 child False (Some e) = Some (Returns s4)" "fanout e None ?t2 s4" "wf s4"
        "load s4 child = Some (if err c2 = None then mark e c2 else c2)" by auto
    let ?t' = "s4\<lparr>watchers := remove_nth i (watchers s4)\<rparr>"
    have r: "watcher_run m t i = Some (Returns ?t')"
      using i p dn d2 True E2 e t(1) f2(1) by (auto simp: watcher_run_def)
    have "wf ?t'" by (rule wf_upd_watchers [OF t(3)])
    moreover have "goroutines ?t' = goroutines t" "watchers ?t' = remove_nth i (watchers t)"
      using fanout_fields [OF t(2)] f2 by simp_all
    moreover have "load ?t' child = Some (if err c2 = None then mark e c2 else c2)"
      using t(4) by (simp add: load_def)
    ultimately show ?thesis using r True E e c2(2) by auto
  next
    case False
    then have np: "\<not> (case pd of None \<Rightarrow> False | Some d \<Rightarrow> d \<in> closedChans ?t2)"
      using f2(1) by (auto simp del: fields_ensure_done split: option.splits)
    show ?thesis
    proof (cases "err c = None")
      case True
      with cdcl have "watcher_run m t i = Some (Returns ?t2)"
        using i p dn d2 np by (auto simp: watcher_run_def)
      with w2 f2 c2 True False show ?thesis by auto
    next
      case ne: False
      let ?t' = "?t2\<lparr>watchers := remove_nth i (watchers ?t2)\<rparr>"
      from ne cdcl have "watcher_run m t i = Some (Returns ?t')"
        using i p dn d2 np by (auto simp: watcher_run_def)
      moreover have "wf ?t'" by (rule wf_upd_watchers [OF w2])
      moreover have "load ?t' child = Some c2" using c2(1) by (simp add: load_def)
      ultimately show ?thesis using f2 c2 ne False by auto
    qed
  qed
qed


lemma watcher_run_tasks:
  assumes w: "wf s" and n: "nextAddr s \<le> n" and r: "watcher_run n s i = Some (Returns s')"
  shows "goroutines s' = goroutines s
     \<and> (watchers s' = watchers s
        \<or> (i < length (watchers s) \<and> watchers s' = remove_nth i (watchers s)
            \<and> (load s (snd (watchers s ! i)) \<noteq> None \<longrightarrow> cancelled s' (snd (watchers s ! i)))))"
proof (cases "length (watchers s) \<le> i")
  case True
  with r show ?thesis by (simp add: watcher_run_def)
next
  case False
  then have i: "i < length (watchers s)" by simp
  obtain parent child where pc: "watchers s ! i = (parent, child)" by (cases "watchers s ! i")
  from r False pc obtain pd s1 cd s2 where
    d1: "ctx_Done s parent = Some (Returns (pd, s1))"
    and d2: "ctx_Done s1 (Some child) = Some (Returns (cd, s2))"
    and rest: "(if (case pd of None \<Rightarrow> False | Some d \<Rightarrow> d \<in> closedChans s2)
                then obind (ctx_Err s2 parent) (\<lambda>e.
                     obind (canceler_cancel n s2 child False e) (\<lambda>s3.
                       Some (Returns (s3\<lparr>watchers := remove_nth i (watchers s3)\<rparr>))))
                else if (case cd of None \<Rightarrow> False | Some d \<Rightarrow> d \<in> closedChans s2)
                then Some (Returns (s2\<lparr>watchers := remove_nth i (watchers s2)\<rparr>))
                else Some (Returns s2)) = Some (Returns s')"
    by (auto simp: watcher_run_def obind_Returns)
  note s1 = ctx_Done_step [OF w d1]
  note s2 = ctx_Done_step [OF conjunct1 [OF s1] d2]
  have w2: "wf s2" and na: "nextAddr s2 = nextAddr s" using s1 s2 by auto
  have f2: "goroutines s2 = goroutines s" "watchers s2 = watchers s"
    using ctx_Done_tasks [OF d1] ctx_Done_tasks [OF d2] by simp_all
  have gw: "goroutines s' = goroutines s
      \<and> (watchers s' = watchers s \<or> watchers s' = remove_nth i (watchers s))"
  proof (cases "case pd of None \<Rightarrow> False | Some d \<Rightarrow> d \<in> closedChans s2")
    case True
    with rest obtain e s3 where
      c: "canceler_cancel n s2 child False e = Some (Returns s3)"
        "s' = s3\<lparr>watchers := remove_nth i (watchers s3)\<rparr>"
      by (auto simp: obind_Returns)
    from canceler_cancel_tasks [OF w2 _ c(1)] n na f2 show ?thesis unfolding c(2) by simp
  next
    case False
    with rest have "s' = s2 \<or> s' = s2\<lparr>watchers := remove_nth i (watchers s2)\<rparr>"
      by (auto split: if_splits)
    with f2 show ?thesis by auto
  qed
  show ?thesis
  proof (cases "load s child")
    case None
    with gw i pc show ?thesis by auto
  next
    case (Some c)
    from watcher_run_cases [OF w i pc Some n d1] obtain t' c' where
      c': "watcher_run n s i = Some (Returns t')" "load t' child = Some c'"
        "if \<exists>d. pd = Some d \<and> d \<in> closedChans s
          then \<exists>e. ctx_Err s parent = Some (Returns (Some e))
                 \<and> err c' = (if err c = None then Some e else err c)
                 \<and> watchers t' = remove_nth i (watchers s)
          else if err c \<noteq> None
          then err c' = err c \<and> watchers t' = remove_nth i (watchers s)
          else err c' = None \<and> watchers t' = watchers s"
      by blast
    from c'(1) r have t': "t' = s'" by simp
    have "watchers s' = watchers s \<or> cancelled s' child"
      using c'(2,3) unfolding t' by (auto simp: cancelled_load split: if_splits)
    with gw i pc show ?thesis by auto
  qed
qed

text \<open>A step adds at most one to the counter and never takes from it; a watcher is taken
  off only when its child is cancelled.\<close>

lemma step_tasks:
  assumes "wf s" "step s s'"
  shows "(goroutines s' = goroutines s \<or> goroutines s' = goroutines s + 1)
     \<and> (\<forall>w. w \<in> set (watchers s) \<and> load s (snd w) \<noteq> None
            \<longrightarrow> w \<in> set (watchers s') \<or> cancelled s' (snd w))"
  using assms(2,1)
proof (cases rule: step.cases)
  case (Done r d)
  with ctx_Done_tasks show ?thesis by simp
next
  case (WithCancel pa n r)
  with WithCancel_tasks [OF assms(1), of pa n r s'] show ?thesis by auto
next
  case (WithDeadline pa n dl r)
  with WithDeadline_tasks [OF assms(1), of pa n dl r s'] show ?thesis by auto
next
  case (WithTimeout pa n tmo r)
  with WithDeadline_tasks [OF assms(1), of pa n "now s + tmo" r s'] show ?thesis
    by (auto simp: WithTimeout_def)
next
  case (WithValue pa k v a)
  then have "s' = snd (alloc s (ValueCtx (Some pa) k v))" by (auto simp: WithValue_def)
  then show ?thesis by (simp add: cancelled_def)
next
  case (cancel n a rfp e)
  with canceler_cancel_tasks [OF assms(1), of a n rfp e s'] show ?thesis by simp
next
  case (removeChild pa child)
  with removeChild_tasks [OF assms(1)] show ?thesis by simp
next
  case (timer n a)
  with timer_fire_tasks [OF assms(1), of a n s'] show ?thesis by simp
next
  case (watcher n i)
  note k = watcher_run_tasks [OF assms(1) watcher]
  have "w \<in> set (watchers s') \<or> cancelled s' (snd w)"
    if "w \<in> set (watchers s)" "load s (snd w) \<noteq> None" for w
  proof (cases "watchers s' = watchers s")
    case True
    with that show ?thesis by simp
  next
    case False
    with k have r: "i < length (watchers s)" "watchers s' = remove_nth i (watchers s)"
      "load s (snd (watchers s ! i)) \<noteq> None \<longrightarrow> cancelled s' (snd (watchers s ! i))" by auto
    from set_remove_nth [OF that(1) r(1)] show ?thesis
    proof
      assume "w \<in> set (remove_nth i (watchers s))"
      with r(2) show ?thesis by simp
    next
      assume "w = watchers s ! i"
      with r(3) that(2) show ?thesis by simp
    qed
  qed
  with k show ?thesis by blast
next
  case (new_foreign inner dl)
  then show ?thesis by (simp add: new_foreign_def)
next
  case (foreign_cancel a e)
  then show ?thesis
    by (auto simp: foreign_cancel_def cancelled_def load_def split: option.splits ctx.splits)
next
  case (advance t)
  then show ?thesis by (simp add: advance_def)
qed

lemma steps_watcher_kept:
  assumes "rtranclp step s t" "wf s" "w \<in> set (watchers s)" "load s (snd w) \<noteq> None"
  shows "wf t \<and> load t (snd w) \<noteq> None \<and> (w \<in> set (watchers t) \<or> cancelled t (snd w))"
  using assms
proof (induction rule: rtranclp_induct)
  case base
  then show ?case by simp
next
  case (step y z)
  then have y: "wf y" "load y (snd w) \<noteq> None" "w \<in> set (watchers y) \<or> cancelled y (snd w)" by simp_all
  from step_wf_grows [OF y(1) step(2)] have z: "wf z" "grows y z" by simp_all
  from y(2) grows_load [OF z(2)] have lz: "load z (snd w) \<noteq> None" by fastforce
  have "w \<in> set (watchers z) \<or> cancelled z (snd w)"
  proof (cases "cancelled y (snd w)")
    case True
    then obtain c where "load y (snd w) = Some c" "err c \<noteq> None" by (auto simp: cancelled_load)
    from grows_load [OF z(2) this(1)] this(2) show ?thesis by (auto simp: cancelled_load)
  next
    case False
    with y(3) have "w \<in> set (watchers y)" by simp
    with step_tasks [OF y(1) step(2)] y(2) show ?thesis by blast
  qed
  with z(1) lz show ?case by simp
qed

lemma parentCancelCtx_state:
  assumes "ctx_Done s parent = Some (Returns (dn, s1))" "parentCancelCtx s1 parent = Some (Returns (r, s2))"
  shows "s2 = s1"
proof (cases "dn = Some closedchan \<or> dn = None")
  case True
  with assms(2) ctx_Done_idem [OF assms(1)] show ?thesis by (auto simp: parentCancelCtx_def)
next
  case False
  with assms(2) ctx_Done_idem [OF assms(1)] obtain v where
    v: "(case v of
           Some (VCancelCtx p) \<Rightarrow>
             (case load s1 p of
                None \<Rightarrow> Some Panics
              | Some pc \<Rightarrow> if done_c pc = dn then Some (Returns (Some p, s1))
                           else Some (Returns (None, s1)))
         | _ \<Rightarrow> Some (Returns (None, s1))) = Some (Returns (r, s2))"
    by (auto simp: parentCancelCtx_def obind_Returns)
  show ?thesis
  proof (cases v)
    case None
    with v show ?thesis by simp
  next
    case (Some x)
    show ?thesis
    proof (cases x)
      case (VCancelCtx p)
      with v Some show ?thesis by (cases "load s1 p") (auto split: if_splits)
    next
      case (VOther k)
      with v Some show ?thesis by simp
    qed
  qed
qed

lemma propagateCancel_watch:
  assumes "ctx_Done s parent = Some (Returns (Some d, s1))" "d \<notin> closedChans s"
    "parentCancelCtx s1 parent = Some (Returns (None, s2))"
  shows "propagateCancel n s parent child
      = Some (Returns (s1\<lparr>goroutines := goroutines s + 1, watchers := watchers s @ [(parent, child)]\<rparr>))"
  using assms parentCancelCtx_state [OF assms(1,3)] ctx_Done_tasks [OF assms(1)]
  by (simp add: propagateCancel_def)

lemma skeleton_TimerCtx:
  assumes "skeleton s' = skeleton s" "heap s a = Some (TimerCtx c d t)"
  shows "\<exists>c' t'. heap s' a = Some (TimerCtx c' d t')"
proof -
  from heap_skeleton [OF assms(1), of a] assms(2) obtain y where y: "heap s' a = Some y"
    "skel y = skel (TimerCtx c d t)" by auto
  then show ?thesis by (cases y) auto
qed

lemma skeleton_cancel_leaf [simp]: "skeleton (cancel_leaf cause s a c) = skeleton s"
  by (simp add: cancel_leaf_def mark_state_def premark_def)

lemma propagated_skeleton:
  assumes "propagated rd s1 q pa child cc s2"
  shows "skeleton s2 = skeleton s1"
  using assms
proof (cases rule: propagated_cases)
  case nil
  then show ?thesis by simp
next
  case (closed d e)
  then show ?thesis by simp
next
  case (registered d p pc)
  then show ?thesis by simp
next
  case (watched d)
  then show ?thesis by simp
qed

text \<open>What \<open>WithDeadline\<close> makes when the parent has no earlier deadline, and what
  \<open>WithCancel\<close> makes.\<close>

lemma WithDeadline_timer:
  assumes w: "wf s" and pa: "pa < nextAddr s" and n: "0 < n"
    and cur: "ctx_Deadline s (Some pa) = Some (Returns cur)"
    and late: "\<not> (\<exists>t. cur = Some t \<and> t < d)"
  shows "\<exists>f s' c' tm. WithDeadline n s (Some pa) d = Some (Returns ((nextAddr s, f), s'))
      \<and> heap s' (nextAddr s) = Some (TimerCtx c' d tm) \<and> tm = (0 < d - now s \<and> err c' = None)"
proof -
  let ?c = "nextAddr s"
  let ?cc = "newCancelCtx (Some pa)"
  let ?x = "TimerCtx ?cc d False"
  from WithDeadline_wf [OF w pa n cur late] obtain s2 s3 q f where
    d: "wf s2" "propagated s (snd (alloc (ensure_done s q) ?x)) q pa ?c ?cc s2"
      "WithDeadline n s (Some pa) d = Some (Returns ((?c, f), s3))" "wf s3"
      "d - now s \<le> 0 \<longrightarrow> timerCtx_cancel n s2 ?c True (Some DeadlineExceeded) = Some (Returns s3)"
      "\<not> d - now s \<le> 0 \<longrightarrow> s3 = (if cancelled s2 ?c then s2 else set_timer s2 ?c)"
    by blast
  have h1: "heap (snd (alloc (ensure_done s q) ?x)) ?c = Some ?x" by simp
  from skeleton_TimerCtx [OF propagated_skeleton [OF d(2)] h1] obtain c2 t2 where
    h2: "heap s2 ?c = Some (TimerCtx c2 d t2)" by blast
  then have l2: "load s2 ?c = Some c2" by (simp add: load_def)
  have fl: "tm = False" if "wf t" "heap t ?c = Some (TimerCtx c' d tm)" "err c' \<noteq> None" for t c' tm
    using wf_timer [OF that(1), of ?c c' d] that(2,3) by (cases tm) auto
  show ?thesis
  proof (cases "d - now s \<le> 0")
    case True
    have "nextAddr s2 \<le> Suc (?c + n)" using propagated_nextAddr [OF d(2)] by simp
    from timerCtx_cancel_top [OF d(1) l2 this, of True DeadlineExceeded] d(5) True obtain s4 k where
      t: "fanout DeadlineExceeded None s2 s4" "benign k s4 s3"
        "load s4 ?c = Some (if err c2 = None then mark DeadlineExceeded c2 else c2)" by auto
    have "skeleton s3 = skeleton s2"
      using fanout_fields(6) [OF t(1)] benign_skeleton [OF t(2)] by simp
    from skeleton_TimerCtx [OF this h2] obtain c3 t3 where h3: "heap s3 ?c = Some (TimerCtx c3 d t3)"
      by blast
    then have "load s3 ?c = Some c3" by (simp add: load_def)
    with benign_load [OF t(2,3)] have "err c3 \<noteq> None" by (auto split: if_splits)
    with fl [OF d(4) h3] h3 d(3) True show ?thesis by auto
  next
    case False
    show ?thesis
    proof (cases "cancelled s2 ?c")
      case True
      with l2 have "err c2 \<noteq> None" by (simp add: cancelled_load)
      with fl [OF d(1) h2] h2 d(3,6) False True show ?thesis by auto
    next
      case nc: False
      with l2 have "err c2 = None" by (simp add: cancelled_load)
      moreover from d(6) False nc h2 have "heap s3 ?c = Some (TimerCtx c2 d True)" by simp
      ultimately show ?thesis using d(3) False by auto
    qed
  qed
qed

lemma WithCancel_plain:
  assumes w: "wf s" and pa: "pa < nextAddr s" and n: "0 < n"
  shows "\<exists>f s' c'. WithCancel n s (Some pa) = Some (Returns ((nextAddr s, f), s'))
      \<and> heap s' (nextAddr s) = Some (CancelCtx c')"
proof -
  from WithCancel_wf [OF w pa n] obtain s2 q where
    r: "WithCancel n s (Some pa) = Some (Returns ((nextAddr s, CancelFunc (nextAddr s) True Canceled), s2))"
      "propagated s (snd (alloc (ensure_done s q) (CancelCtx (newCancelCtx (Some pa))))) q pa
          (nextAddr s) (newCancelCtx (Some pa)) s2" by blast
  have "heap (snd (alloc (ensure_done s q) (CancelCtx (newCancelCtx (Some pa))))) (nextAddr s)
      = Some (CancelCtx (newCancelCtx (Some pa)))" by simp
  from skeleton_CancelCtx [OF propagated_skeleton [OF r(2)] this] r(1) show ?thesis by blast
qed

section \<open>What stays of the objects\<close>

text \<open>\<open>keeps s s'\<close>: every object of \<open>s\<close> is in \<open>s'\<close> with the same kind and the same
  immutable fields, and an object that is no \<open>canceler\<close> has the done channel it had.\<close>

definition keeps :: "state \<Rightarrow> state \<Rightarrow> bool" where
  "keeps s s' = (\<forall>a x. heap s a = Some x \<longrightarrow> (\<exists>x'. heap s' a = Some x' \<and> skel x' = skel x
        \<and> (cancelCtx_of x = None \<longrightarrow> chan_of x' = chan_of x)))"

lemma keeps_refl [simp]: "keeps s s"
  by (simp add: keeps_def)

lemma keepsD:
  "keeps s s' \<Longrightarrow> heap s a = Some x \<Longrightarrow> \<exists>x'. heap s' a = Some x' \<and> skel x' = skel x
        \<and> (cancelCtx_of x = None \<longrightarrow> chan_of x' = chan_of x)"
  unfolding keeps_def by blast

lemma keeps_trans:
  assumes "keeps s s1" "keeps s1 s2"
  shows "keeps s s2"
  unfolding keeps_def
proof (intro allI impI)
  fix a x assume "heap s a = Some x"
  from keepsD [OF assms(1) this] obtain x1 where x1: "heap s1 a = Some x1" "skel x1 = skel x"
    "cancelCtx_of x = None \<longrightarrow> chan_of x1 = chan_of x" by auto
  from keepsD [OF assms(2) x1(1)] obtain x2 where x2: "heap s2 a = Some x2" "skel x2 = skel x1"
    "cancelCtx_of x1 = None \<longrightarrow> chan_of x2 = chan_of x1" by auto
  from skel_canceler [OF x1(2)] x1 x2
  show "\<exists>x'. heap s2 a = Some x' \<and> skel x' = skel x \<and> (cancelCtx_of x = None \<longrightarrow> chan_of x' = chan_of x)"
    by auto
qed

lemma keeps_skeleton:
  assumes "skeleton s' = skeleton s"
    and "\<And>b x. heap s b = Some x \<Longrightarrow> cancelCtx_of x = None \<Longrightarrow> heap s' b = Some x"
  shows "keeps s s'"
  unfolding keeps_def
proof (intro allI impI)
  fix a x assume h: "heap s a = Some x"
  from heap_skeleton [OF assms(1), of a] h obtain y where y: "heap s' a = Some y" "skel y = skel x"
    by auto
  with assms(2) [OF h] show "\<exists>x'. heap s' a = Some x' \<and> skel x' = skel x
      \<and> (cancelCtx_of x = None \<longrightarrow> chan_of x' = chan_of x)" by auto
qed

lemma keeps_fanout: "fanout cause ex s s' \<Longrightarrow> keeps s s'"
  by (rule keeps_skeleton) (auto simp: fanout_def)

lemma keeps_benign: "benign k s s' \<Longrightarrow> keeps s s'"
  by (rule keeps_skeleton) (auto simp: benign_def)

lemma keeps_ensure_done: "keeps s (ensure_done s q)"
  by (rule keeps_benign [OF benign_ensure_done [OF le_refl]])

lemma keeps_heap_eq: "heap s' = heap s \<Longrightarrow> keeps s s'"
  by (simp add: keeps_def)

lemma keeps_alloc: "wf0 s \<Longrightarrow> keeps s (snd (alloc s x))"
  using wf0_fresh [of s] by (auto simp: keeps_def)

lemma with_timer_other: "cancelCtx_of x = None \<Longrightarrow> with_timer b x = x"
  by (cases x) auto

lemma keeps_stop_timer: "keeps s (stop_timer s a)"
proof (rule keeps_skeleton)
  show "skeleton (stop_timer s a) = skeleton s" by simp
next
  fix b x assume "heap s b = Some x" "cancelCtx_of x = None"
  then show "heap (stop_timer s a) b = Some x" by (auto simp: stop_timer_def with_timer_other)
qed

lemma keeps_set_timer: "keeps s (set_timer s a)"
proof (rule keeps_skeleton)
  show "skeleton (set_timer s a) = skeleton s" by simp
next
  fix b x assume "heap s b = Some x" "cancelCtx_of x = None"
  then show "heap (set_timer s a) b = Some x" by (auto simp: with_timer_other)
qed

lemma ctx_Done_keeps:
  assumes "ctx_Done s r = Some (Returns (d, s'))"
  shows "keeps s s'"
proof -
  from ctx_Done_Returns_answers [OF assms] obtain a q where r: "r = Some a" and a: "answers s a q"
    by blast
  from ctx_Done_answers [OF a] assms r have "s' = ensure_done s q" by auto
  then show ?thesis by (simp add: keeps_ensure_done)
qed

lemma canceler_cancel_keeps:
  assumes "wf s" "nextAddr s \<le> a + n" "canceler_cancel n s a rfp e = Some (Returns s')"
  shows "keeps s s'"
proof -
  from canceler_cancel_Returns [OF assms(3)] obtain c cause where
    l: "load s a = Some c" and e: "e = Some cause" by blast
  from canceler_cancel_top [OF assms(1) l assms(2), of rfp cause] assms(3) e
  obtain s4 q where "fanout cause None s s4" "benign q s4 s'" by auto
  then show ?thesis by (blast intro: keeps_trans keeps_fanout keeps_benign)
qed

lemma timerCtx_cancel_keeps:
  assumes "wf s" "load s a = Some c" "nextAddr s \<le> Suc (a + n)"
    "timerCtx_cancel n s a rfp (Some cause) = Some (Returns s')"
  shows "keeps s s'"
proof -
  from timerCtx_cancel_top [OF assms(1,2,3), of rfp cause] assms(4)
  obtain s4 q where "fanout cause None s s4" "benign q s4 s'" by auto
  then show ?thesis by (blast intro: keeps_trans keeps_fanout keeps_benign)
qed

lemma removeChild_keeps:
  assumes "wf s" "a < nextAddr s" "removeChild s (Some a) child = Some (Returns s')"
  shows "keeps s s'"
  using removeChild_wf0 [OF wf_wf0 [OF assms(1)] assms(2), of child] assms(3)
  by (auto intro: keeps_benign)

lemma propagated_keeps:
  assumes w: "wf0 s" and x: "cancelCtx_of x = Some cc"
    and p: "propagated s (snd (alloc (ensure_done s q) x)) q pa (nextAddr s) cc s2"
  shows "keeps s s2"
proof -
  let ?s1 = "snd (alloc (ensure_done s q) x)"
  have k1: "keeps s ?s1"
    using keeps_trans [OF keeps_ensure_done keeps_alloc [OF wf0_ensure_done [OF w]]] .
  have l1: "load ?s1 (nextAddr s) = Some cc" using x by simp
  have "skeleton s2 = skeleton ?s1" by (rule propagated_skeleton [OF p])
  moreover have "heap s2 b = Some y" if "heap ?s1 b = Some y" "cancelCtx_of y = None" for b y
  proof -
    from that l1 have ne: "b \<noteq> nextAddr s" by (auto simp: load_def)
    from p show ?thesis
    proof (cases rule: propagated_cases)
      case nil
      with that show ?thesis by simp
    next
      case (closed d e)
      with that ne show ?thesis by (simp add: heap_cancel_leaf_other del: heap_alloc)
    next
      case (registered d p pc)
      with that show ?thesis using heap_modify_other [OF that] by simp
    next
      case (watched d)
      with that show ?thesis by simp
    qed
  qed
  ultimately have "keeps ?s1 s2" by (rule keeps_skeleton)
  with k1 show ?thesis by (rule keeps_trans)
qed

lemma WithCancel_keeps:
  assumes "wf s" "pa < nextAddr s" "0 < n" "WithCancel n s (Some pa) = Some (Returns (r, s'))"
  shows "keeps s s'"
proof -
  from WithCancel_wf [OF assms(1,2,3)] assms(4) obtain q where
    "propagated s (snd (alloc (ensure_done s q) (CancelCtx (newCancelCtx (Some pa))))) q pa
          (nextAddr s) (newCancelCtx (Some pa)) s'" by auto
  then show ?thesis using propagated_keeps [OF wf_wf0 [OF assms(1)], of "CancelCtx (newCancelCtx (Some pa))"]
    by auto
qed

lemma WithDeadline_keeps:
  assumes w: "wf s" and pa: "pa < nextAddr s" and n: "0 < n"
    and r: "WithDeadline n s (Some pa) dl = Some (Returns (r, s'))"
  shows "keeps s s'"
proof -
  from ctx_Deadline_returns [OF wf_wf0 [OF w] pa] obtain cur where
    cur: "ctx_Deadline s (Some pa) = Some (Returns cur)" by blast
  show ?thesis
  proof (cases "\<exists>t. cur = Some t \<and> t < dl")
    case True
    with cur have "WithDeadline n s (Some pa) dl = WithCancel n s (Some pa)"
      by (auto simp: WithDeadline_def)
    with r WithCancel_keeps [OF w pa n] show ?thesis by simp
  next
    case False
    let ?c = "nextAddr s"
    let ?cc = "newCancelCtx (Some pa)"
    let ?x = "TimerCtx ?cc dl False"
    from WithDeadline_wf [OF w pa n cur False] r obtain s2 q where
      d: "wf s2" "propagated s (snd (alloc (ensure_done s q) ?x)) q pa ?c ?cc s2"
        "dl - now s \<le> 0 \<longrightarrow> timerCtx_cancel n s2 ?c True (Some DeadlineExceeded) = Some (Returns s')"
        "\<not> dl - now s \<le> 0 \<longrightarrow> s' = (if cancelled s2 ?c then s2 else set_timer s2 ?c)"
      by auto
    have k: "keeps s s2" using propagated_keeps [OF wf_wf0 [OF w] _ d(2)] by simp
    have l1: "load (snd (alloc (ensure_done s q) ?x)) ?c = Some ?cc" by simp
    note l2 = propagated_child [OF d(2) l1 pa]
    have "nextAddr s2 \<le> Suc (?c + n)" using propagated_nextAddr [OF d(2)] by simp
    note ts = timerCtx_cancel_keeps [OF d(1) l2 this]
    have "keeps s2 s'"
    proof (cases "dl - now s \<le> 0")
      case True
      with d(3) ts show ?thesis by blast
    next
      case False
      with d(4) show ?thesis by (auto intro: keeps_set_timer)
    qed
    with k show ?thesis by (rule keeps_trans)
  qed
qed

lemma timer_fire_keeps:
  assumes w: "wf s" and n: "nextAddr s \<le> Suc (a + n)" and r: "timer_fire n s a = Some (Returns s')"
  shows "keeps s s'"
proof (cases "\<exists>c d. heap s a = Some (TimerCtx c d True) \<and> d \<le> now s")
  case True
  then obtain c d where h: "heap s a = Some (TimerCtx c d True)" "d \<le> now s" by blast
  have eq: "s\<lparr>heap := (heap s)(a \<mapsto> TimerCtx c d False)\<rparr> = stop_timer s a"
    using h by (simp add: stop_timer_def)
  from r h have t: "timerCtx_cancel n (stop_timer s a) a True (Some DeadlineExceeded) = Some (Returns s')"
    by (simp add: timer_fire_def eq)
  have l: "load (stop_timer s a) a = Some c" using h by (simp add: load_def)
  from timerCtx_cancel_keeps [OF wf_stop_timer [OF w] l _ t] n keeps_stop_timer [of s a]
  show ?thesis by (auto intro: keeps_trans)
next
  case False
  with r have "s' = s"
    by (auto simp: timer_fire_def split: option.splits ctx.splits bool.splits if_splits)
  then show ?thesis by simp
qed

lemma watcher_run_keeps:
  assumes w: "wf s" and n: "nextAddr s \<le> n" and r: "watcher_run n s i = Some (Returns s')"
  shows "keeps s s'"
proof (cases "length (watchers s) \<le> i")
  case True
  with r show ?thesis by (simp add: watcher_run_def)
next
  case False
  obtain parent child where pc: "watchers s ! i = (parent, child)" by (cases "watchers s ! i")
  from r False pc obtain pd s1 cd s2 where
    d1: "ctx_Done s parent = Some (Returns (pd, s1))"
    and d2: "ctx_Done s1 (Some child) = Some (Returns (cd, s2))"
    and rest: "(if (case pd of None \<Rightarrow> False | Some d \<Rightarrow> d \<in> closedChans s2)
                then obind (ctx_Err s2 parent) (\<lambda>e.
                     obind (canceler_cancel n s2 child False e) (\<lambda>s3.
                       Some (Returns (s3\<lparr>watchers := remove_nth i (watchers s3)\<rparr>))))
                else if (case cd of None \<Rightarrow> False | Some d \<Rightarrow> d \<in> closedChans s2)
                then Some (Returns (s2\<lparr>watchers := remove_nth i (watchers s2)\<rparr>))
                else Some (Returns s2)) = Some (Returns s')"
    by (auto simp: watcher_run_def obind_Returns)
  note s1 = ctx_Done_step [OF w d1]
  note s2 = ctx_Done_step [OF conjunct1 [OF s1] d2]
  have w2: "wf s2" and na: "nextAddr s2 = nextAddr s" using s1 s2 by auto
  have k2: "keeps s s2" using keeps_trans [OF ctx_Done_keeps [OF d1] ctx_Done_keeps [OF d2]] .
  have kw: "keeps t (t\<lparr>watchers := ws\<rparr>)" for t ws by (rule keeps_heap_eq) simp
  show ?thesis
  proof (cases "case pd of None \<Rightarrow> False | Some d \<Rightarrow> d \<in> closedChans s2")
    case True
    with rest obtain e s3 where
      c: "canceler_cancel n s2 child False e = Some (Returns s3)"
        "s' = s3\<lparr>watchers := remove_nth i (watchers s3)\<rparr>"
      by (auto simp: obind_Returns)
    from canceler_cancel_keeps [OF w2 _ c(1)] n na have "keeps s2 s3" by simp
    with k2 kw [of s3] show ?thesis unfolding c(2) by (blast intro: keeps_trans)
  next
    case False
    with rest have "s' = s2 \<or> s' = s2\<lparr>watchers := remove_nth i (watchers s2)\<rparr>"
      by (auto split: if_splits)
    with k2 kw [of s2] show ?thesis by (auto intro: keeps_trans)
  qed
qed

lemma step_keeps:
  assumes "wf s" "step s s'"
  shows "keeps s s'"
  using assms(2,1)
proof (cases rule: step.cases)
  case (Done r d)
  with ctx_Done_keeps show ?thesis by simp
next
  case (WithCancel pa n r)
  with WithCancel_keeps [OF assms(1), of pa n r s'] show ?thesis by simp
next
  case (WithDeadline pa n dl r)
  with WithDeadline_keeps [OF assms(1), of pa n dl r s'] show ?thesis by simp
next
  case (WithTimeout pa n tmo r)
  with WithDeadline_keeps [OF assms(1), of pa n "now s + tmo" r s'] show ?thesis
    by (simp add: WithTimeout_def)
next
  case (WithValue pa k v a)
  then have "s' = snd (alloc s (ValueCtx (Some pa) k v))" by (auto simp: WithValue_def)
  then show ?thesis by (simp add: keeps_alloc [OF wf_wf0 [OF assms(1)]])
next
  case (cancel n a rfp e)
  with canceler_cancel_keeps [OF assms(1), of a n rfp e s'] show ?thesis by simp
next
  case (removeChild pa child)
  with removeChild_keeps [OF assms(1)] show ?thesis by simp
next
  case (timer n a)
  with timer_fire_keeps [OF assms(1), of a n s'] show ?thesis by simp
next
  case (watcher n i)
  with watcher_run_keeps [OF assms(1)] show ?thesis by simp
next
  case (new_foreign inner dl)
  have "keeps s (s\<lparr>nextChan := Suc (nextChan s)\<rparr>)" by (rule keeps_heap_eq) simp
  moreover have "wf0 (s\<lparr>nextChan := Suc (nextChan s)\<rparr>)" by (rule wf0_nextChan [OF wf_wf0 [OF assms(1)]])
  ultimately show ?thesis unfolding new_foreign new_foreign_def
    by (blast intro: keeps_trans keeps_alloc)
next
  case (foreign_cancel a e)
  show ?thesis unfolding foreign_cancel
    by (auto simp: keeps_def foreign_cancel_def split: option.splits ctx.splits)
next
  case (advance t)
  then show ?thesis by (simp add: advance_def keeps_heap_eq)
qed

lemma steps_keeps:
  assumes "rtranclp step s t" "wf s"
  shows "keeps s t"
  using assms
proof (induction rule: rtranclp_induct)
  case base
  then show ?case by simp
next
  case (step y z)
  from steps_wf_grows [OF step(1) step(4)] have "wf y" by simp
  from step_keeps [OF this step(2)] step show ?case by (blast intro: keeps_trans)
qed

subsection \<open>A closed done channel stays closed\<close>

text \<open>The \<open>select\<close> case \<open>\<open><-\<close>parent.Done()\<close> can be taken: \<open>Done\<close> returns a channel that is
  closed.\<close>

definition done_closed :: "state \<Rightarrow> addr option \<Rightarrow> bool" where
  "done_closed s parent = (case ctx_Done s parent of
       Some (Returns (Some d, s1)) \<Rightarrow> d \<in> closedChans s
     | _ \<Rightarrow> False)"

lemma done_closedD:
  "done_closed s parent \<Longrightarrow> \<exists>d s1. ctx_Done s parent = Some (Returns (Some d, s1)) \<and> d \<in> closedChans s"
  by (auto simp: done_closed_def split: option.splits outcome.splits)

lemma done_closedI:
  "ctx_Done s parent = Some (Returns (Some d, s1)) \<Longrightarrow> d \<in> closedChans s \<Longrightarrow> done_closed s parent"
  by (simp add: done_closed_def)

lemma answers_keeps:
  assumes "keeps s s'"
  shows "answers s a q \<Longrightarrow> answers s' a q"
proof (induction rule: answers.induct)
  case (self a x)
  from keepsD [OF assms self(1)] obtain y where y: "heap s' a = Some y" "skel y = skel x" by auto
  with self(2) have "\<forall>p k v. y \<noteq> ValueCtx p k v" by (metis skel_eq_Value)
  with y(1) show ?case by (rule answers.self)
next
  case (up a p k v q)
  from keepsD [OF assms up(1)] have "heap s' a = Some (ValueCtx (Some p) k v)" by auto
  then show ?case using up.IH by (rule answers.up)
qed

lemma chan_at_closed_ensure_done:
  assumes w: "wf0 s" and c: "chan_at (ensure_done s q) q = Some d" and d: "d \<in> closedChans s"
  shows "chan_at s q = Some d"
proof (cases "load s q")
  case None
  then have "ensure_done s q = s" by (simp add: ensure_done_def)
  with c show ?thesis by simp
next
  case (Some cq)
  show ?thesis
  proof (cases "done_c cq")
    case None
    with Some have "load (ensure_done s q) q = Some (cq\<lparr>done_c := Some (nextChan s)\<rparr>)"
      by (simp add: load_ensure_done)
    from chan_at_load [OF this] c have "d = nextChan s" by simp
    with wf0_closed_lt [OF w d] show ?thesis by simp
  next
    case (Some d')
    with \<open>load s q = Some cq\<close> have "ensure_done s q = s" by (simp add: ensure_done_def)
    with c show ?thesis by simp
  qed
qed

lemma chan_at_ensure_done_Some:
  assumes "chan_at s q = Some d"
  shows "ensure_done s q = s"
proof (cases "load s q")
  case None
  then show ?thesis by (simp add: ensure_done_def)
next
  case (Some cq)
  from chan_at_load [OF this] assms have "done_c cq = Some d" by simp
  with Some show ?thesis by (simp add: ensure_done_def)
qed

lemma done_closed_answers:
  assumes w: "wf0 s" and a: "answers s pa q"
  shows "done_closed s (Some pa) \<longleftrightarrow> (\<exists>d. chan_at s q = Some d \<and> d \<in> closedChans s)"
proof
  assume "done_closed s (Some pa)"
  from done_closedD [OF this] ctx_Done_answers [OF a] obtain d where
    "chan_at (ensure_done s q) q = Some d" "d \<in> closedChans s" by auto
  with chan_at_closed_ensure_done [OF w] show "\<exists>d. chan_at s q = Some d \<and> d \<in> closedChans s" by blast
next
  assume "\<exists>d. chan_at s q = Some d \<and> d \<in> closedChans s"
  then obtain d where d: "chan_at s q = Some d" "d \<in> closedChans s" by blast
  from ctx_Done_answers [OF a] chan_at_ensure_done_Some [OF d(1)] d(1)
  have "ctx_Done s (Some pa) = Some (Returns (Some d, s))" by simp
  then show "done_closed s (Some pa)" using d(2) by (rule done_closedI)
qed

lemma chan_at_kept:
  assumes k: "keeps s s'" and g: "grows s s'" and c: "chan_at s q = Some d"
  shows "chan_at s' q = Some d"
proof -
  from c obtain x where x: "heap s q = Some x" "chan_of x = Some d"
    by (auto simp: chan_at_def split: option.splits)
  from keepsD [OF k x(1)] obtain x' where x': "heap s' q = Some x'"
    "cancelCtx_of x = None \<longrightarrow> chan_of x' = chan_of x" by auto
  show ?thesis
  proof (cases "cancelCtx_of x")
    case None
    with x x' show ?thesis by (simp add: chan_at_def)
  next
    case (Some cq)
    with x have l: "load s q = Some cq" "done_c cq = Some d"
      by (simp_all add: load_def chan_of_cancelCtx_of)
    from grows_load [OF g l(1)] l(2) obtain c' where "load s' q = Some c'" "done_c c' = Some d" by auto
    from chan_at_load [OF this(1)] this(2) show ?thesis by simp
  qed
qed

lemma steps_done_closed:
  assumes st: "rtranclp step s t" and w: "wf s" and cl: "done_closed s parent"
  shows "done_closed t parent"
proof -
  from done_closedD [OF cl] obtain d s1 where dn: "ctx_Done s parent = Some (Returns (Some d, s1))" by blast
  from ctx_Done_Returns_answers [OF dn] obtain pa q where pa: "parent = Some pa" and a: "answers s pa q"
    by blast
  from done_closed_answers [OF wf_wf0 [OF w] a] cl pa obtain d' where
    d': "chan_at s q = Some d'" "d' \<in> closedChans s" by auto
  from steps_wf_grows [OF st w] have wt: "wf t" and g: "grows s t" by simp_all
  note k = steps_keeps [OF st w]
  from chan_at_kept [OF k g d'(1)] grows_closed [OF g d'(2)] answers_keeps [OF k a]
    done_closed_answers [OF wf_wf0 [OF wt], of pa q] pa
  show ?thesis by blast
qed

subsection \<open>A run in which the watcher gets its turn\<close>

lemma run_reach:
  assumes "\<forall>k. step (r k) (r (Suc k))"
  shows "rtranclp step (r k) (r (k + j))"
proof (induction j)
  case 0
  show ?case by simp
next
  case (Suc j)
  from Suc assms have "rtranclp step (r k) (r (Suc (k + j)))"
    by (blast intro: rtranclp.rtrancl_into_rtrancl)
  then show ?case by simp
qed

lemma run_reach_le:
  assumes "\<forall>k. step (r k) (r (Suc k))" "k \<le> j"
  shows "rtranclp step (r k) (r j)"
  using run_reach [OF assms(1), of k "j - k"] assms(2) by simp

lemma watcher_progress:
  assumes wsw: "wf (r 0)" and m: "(parent, child) \<in> set (watchers (r 0))" and lc: "load (r 0) child \<noteq> None"
    and run: "\<forall>k. step (r k) (r (Suc k))"
    and fair: "\<forall>k. (parent, child) \<in> set (watchers (r k))
        \<longrightarrow> (\<exists>j\<ge>k. (parent, child) \<notin> set (watchers (r j))
              \<or> (\<exists>i m. i < length (watchers (r j)) \<and> watchers (r j) ! i = (parent, child)
                    \<and> nextAddr (r j) \<le> m \<and> watcher_run m (r j) i = Some (Returns (r (Suc j)))))"
    and cl: "done_closed (r k) parent"
  shows "\<exists>j\<ge>k. \<forall>j'\<ge>j. cancelled (r j') child
      \<and> (\<exists>c dc. load (r j') child = Some c \<and> done_c c = Some dc \<and> dc \<in> closedChans (r j'))"
proof -
  have kept: "wf (r j) \<and> load (r j) child \<noteq> None
      \<and> ((parent, child) \<in> set (watchers (r j)) \<or> cancelled (r j) child)" for j
    using steps_watcher_kept [OF run_reach_le [OF run, of 0 j] wsw m] lc by simp
  have ev: "\<exists>j\<ge>k. cancelled (r j) child"
  proof (cases "cancelled (r k) child")
    case True
    then show ?thesis by blast
  next
    case False
    with kept [of k] have "(parent, child) \<in> set (watchers (r k))" by simp
    with fair obtain j where j: "k \<le> j"
      "(parent, child) \<notin> set (watchers (r j))
         \<or> (\<exists>i m. i < length (watchers (r j)) \<and> watchers (r j) ! i = (parent, child)
              \<and> nextAddr (r j) \<le> m \<and> watcher_run m (r j) i = Some (Returns (r (Suc j))))"
      by blast
    from j(2) show ?thesis
    proof
      assume "(parent, child) \<notin> set (watchers (r j))"
      with kept [of j] j(1) show ?thesis by blast
    next
      assume "\<exists>i m. i < length (watchers (r j)) \<and> watchers (r j) ! i = (parent, child)
              \<and> nextAddr (r j) \<le> m \<and> watcher_run m (r j) i = Some (Returns (r (Suc j)))"
      then obtain i m where i: "i < length (watchers (r j))" and p: "watchers (r j) ! i = (parent, child)"
        and n: "nextAddr (r j) \<le> m" and wr: "watcher_run m (r j) i = Some (Returns (r (Suc j)))" by blast
      from kept [of j] obtain c where wj: "wf (r j)" and c: "load (r j) child = Some c" by auto
      from steps_done_closed [OF run_reach_le [OF run j(1)] conjunct1 [OF kept [of k]] cl]
      have "done_closed (r j) parent" .
      from done_closedD [OF this] obtain d t1 where
        dn: "ctx_Done (r j) parent = Some (Returns (Some d, t1))" and d: "d \<in> closedChans (r j)" by blast
      from watcher_run_cases [OF wj i p c n dn] wr d obtain c' e where
        "load (r (Suc j)) child = Some c'" "err c' = (if err c = None then Some e else err c)"
        by auto
      then have "cancelled (r (Suc j)) child" by (auto simp: cancelled_load)
      with j(1) show ?thesis by (metis le_SucI)
    qed
  qed
  then obtain j where j: "k \<le> j" "cancelled (r j) child" by blast
  have "cancelled (r j') child
      \<and> (\<exists>c dc. load (r j') child = Some c \<and> done_c c = Some dc \<and> dc \<in> closedChans (r j'))"
    if "j \<le> j'" for j'
  proof -
    from j(2) obtain c where c: "load (r j) child = Some c" "err c \<noteq> None" by (auto simp: cancelled_load)
    from steps_err_kept [OF conjunct1 [OF kept [of j]] run_reach_le [OF run that] c] c(2)
    obtain c' where c': "load (r j') child = Some c'" "err c' \<noteq> None" by auto
    from wf0_cc [OF wf_wf0 [OF conjunct1 [OF kept [of j']]] c'(1)] c'
    show ?thesis by (auto simp: cancelled_load cc_ok_def)
  qed
  with j(1) show ?thesis by blast
qed

section \<open>Example stores\<close>

text \<open>A store in which a timer context with deadline 5 was derived from \<open>background\<close>
  at time 0.\<close>

definition st_timer :: state where
  "st_timer = \<lparr> heap = (\<lambda>a. if a = 0 \<or> a = 1 then Some EmptyCtx
        else if a = 2 then Some (TimerCtx \<lparr> Context = Some 0, done_c = None, children = None, err = None \<rparr> 5 True)
        else None),
     nextAddr = 3, closedChans = {closedchan}, nextChan = 1, goroutines = 0, watchers = [], now = 0 \<rparr>"

text \<open>The object that a deriving call has allocated, read from the store it returns.\<close>

definition new_ctx :: "((addr \<times> CancelFunc) \<times> state) outcome option \<Rightarrow> ctx option" where
  "new_ctx r = (case r of Some (Returns ((c, f), s')) \<Rightarrow> heap s' c | _ \<Rightarrow> None)"

text \<open>A store with a cancellable context 2 whose done channel 1 has been made, a context 3
  of a type from outside the package that wraps 2 and has a done channel 2 of its own,
  and a new cancellable context 4 with parent 3.\<close>

definition st_foreign :: state where
  "st_foreign = \<lparr> heap = (\<lambda>a. if a = 0 \<or> a = 1 then Some EmptyCtx
        else if a = 2 then Some (CancelCtx \<lparr> Context = Some 0, done_c = Some 1, children = None, err = None \<rparr>)
        else if a = 3 then Some (ForeignCtx \<lparr> f_done = Some 2, f_err = None, f_deadline = None, f_inner = Some 2 \<rparr>)
        else if a = 4 then Some (CancelCtx \<lparr> Context = Some 3, done_c = None, children = None, err = None \<rparr>)
        else None),
     nextAddr = 5, closedChans = {closedchan}, nextChan = 3, goroutines = 0, watchers = [], now = 0 \<rparr>"


lemma st_foreign_Done3: "ctx_Done st_foreign (Some 3) = Some (Returns (Some 2, st_foreign))"
  by (simp add: ctx_Done.simps st_foreign_def)

lemma st_foreign_Value3: "ctx_Value st_foreign (Some 3) CancelCtxKey = Some (Returns (Some (VCancelCtx 2)))"
  by (simp add: ctx_Value.simps st_foreign_def)

lemma st_foreign_Done2: "ctx_Done st_foreign (Some 2) = Some (Returns (Some 1, st_foreign))"
  by (simp add: ctx_Done.simps st_foreign_def cancelCtx_Done_def load_def)

lemma st_foreign_Value2: "ctx_Value st_foreign (Some 2) CancelCtxKey = Some (Returns (Some (VCancelCtx 2)))"
  by (simp add: ctx_Value.simps st_foreign_def)

lemma st_foreign_load2: "load st_foreign 2 = Some \<lparr> Context = Some 0, done_c = Some 1, children = None, err = None \<rparr>"
  by (simp add: st_foreign_def load_def)


text \<open>A store with a cancellable context 2, its child 3 and a timer context 4 below 3.\<close>

definition st_tree :: state where
  "st_tree = \<lparr> heap = (\<lambda>a. if a = 0 \<or> a = 1 then Some EmptyCtx
        else if a = 2 then Some (CancelCtx \<lparr> Context = Some 0, done_c = Some 1, children = Some [3], err = None \<rparr>)
        else if a = 3 then Some (CancelCtx \<lparr> Context = Some 2, done_c = Some 2, children = Some [4], err = None \<rparr>)
        else if a = 4 then Some (TimerCtx \<lparr> Context = Some 3, done_c = None, children = None, err = None \<rparr> 9 True)
        else None),
     nextAddr = 5, closedChans = {closedchan}, nextChan = 3, goroutines = 0, watchers = [], now = 0 \<rparr>"

lemma load_st_tree:
  "load st_tree 2 = Some \<lparr> Context = Some 0, done_c = Some 1, children = Some [3], err = None \<rparr>"
  "load st_tree 3 = Some \<lparr> Context = Some 2, done_c = Some 2, children = Some [4], err = None \<rparr>"
  "load st_tree 4 = Some \<lparr> Context = Some 3, done_c = None, children = None, err = None \<rparr>"
  by (simp_all add: st_tree_def load_def)

lemma wf_st_tree: "wf st_tree"
  unfolding wf_def wf0_def
  by (auto simp: st_tree_def load_def cc_ok_def kids_def closedchan_def split: if_splits)

lemma below_st_tree: "below st_tree 2 3" "below st_tree 2 4"
proof -
  show 3: "below st_tree 2 3" by (rule below.child [OF load_st_tree(1)]) (simp add: kids_def)
  show "below st_tree 2 4" by (rule below.step [OF 3 load_st_tree(2)]) (simp add: kids_def)
qed

text \<open>A store in which the cancellable context 2 was cancelled before its done channel
  was ever asked for.\<close>

definition st_cancelled :: state where
  "st_cancelled = \<lparr> heap = (\<lambda>a. if a = 0 \<or> a = 1 then Some EmptyCtx
        else if a = 2 then Some (CancelCtx \<lparr> Context = Some 0, done_c = Some closedchan, children = None, err = Some Canceled \<rparr>)
        else None),
     nextAddr = 3, closedChans = {closedchan}, nextChan = 1, goroutines = 0, watchers = [], now = 0 \<rparr>"

lemma wf_st_cancelled: "wf st_cancelled"
  unfolding wf_def wf0_def
  by (auto simp: st_cancelled_def load_def cc_ok_def kids_def closedchan_def split: if_splits)

lemma Done_st_cancelled: "ctx_Done st_cancelled (Some 2) = Some (Returns (Some closedchan, st_cancelled))"
  by (simp add: ctx_Done.simps st_cancelled_def cancelCtx_Done_def load_def)

lemma wf_st_timer: "wf st_timer"
  unfolding wf_def wf0_def
  by (auto simp: st_timer_def load_def cc_ok_def kids_def closedchan_def pending_def cancelled_def split: if_splits)

lemma st_timer_Done2: "\<exists>s1. ctx_Done st_timer (Some 2) = Some (Returns (Some 1, s1))"
  by (simp add: ctx_Done.simps st_timer_def cancelCtx_Done_def load_def Let_def)

lemma st_timer_Deadline2: "ctx_Deadline st_timer (Some 2) = Some (Returns (Some 5))"
  by (simp add: ctx_Deadline.simps st_timer_def)

lemma st_cancelled_Deadline2: "ctx_Deadline st_cancelled (Some 2) = Some (Returns None)"
  by (simp add: ctx_Deadline.simps st_cancelled_def)

text \<open>The store after \<open>WithCancel(Background())\<close> in the initial store at time 0; a call
  of the returned function then gives \<open>st_cancelled\<close>.\<close>

definition st_fresh :: state where
  "st_fresh = \<lparr> heap = (\<lambda>a. if a = 0 \<or> a = 1 then Some EmptyCtx
        else if a = 2 then Some (CancelCtx \<lparr> Context = Some 0, done_c = None, children = None, err = None \<rparr>)
        else None),
     nextAddr = 3, closedChans = {closedchan}, nextChan = 1, goroutines = 0, watchers = [], now = 0 \<rparr>"

lemma WithCancel_init_state:
  "WithCancel 2 (init_state 0) (Some 0) = Some (Returns ((2, CancelFunc 2 True Canceled), st_fresh))"
  by (simp add: WithCancel_def init_state_def alloc_def propagateCancel_def ctx_Done.simps
      st_fresh_def newCancelCtx_def fun_eq_iff)

lemma cancel_st_fresh: "canceler_cancel 3 st_fresh 2 True (Some Canceled) = Some (Returns st_cancelled)"
  by (simp add: numeral_3_eq_3 st_fresh_def cancelCtx_cancel.simps load_def
      modify_def removeChild_def parentCancelCtx_def ctx_Done.simps st_cancelled_def fun_eq_iff)

lemma load_st_fresh:
  "load st_fresh 2 = Some \<lparr> Context = Some 0, done_c = None, children = None, err = None \<rparr>"
  by (simp add: st_fresh_def load_def)

lemma load_st_cancelled:
  "load st_cancelled 2 = Some \<lparr> Context = Some 0, done_c = Some closedchan, children = None, err = Some Canceled \<rparr>"
  by (simp add: st_cancelled_def load_def)

lemma reachable_st_fresh: "reachable st_fresh"
proof -
  have "step (init_state 0) st_fresh"
    by (rule step.WithCancel [OF _ _ WithCancel_init_state]) (simp_all add: init_state_def)
  then show ?thesis by (blast intro: reachable.intros)
qed

lemma reachable_st_cancelled: "reachable st_cancelled"
proof -
  have "step st_fresh st_cancelled"
    by (rule step.cancel [OF _ cancel_st_fresh]) (simp add: st_fresh_def)
  with reachable_st_fresh show ?thesis by (rule reachable.step)
qed

text \<open>The store \<open>st_tree\<close> is reached from \<open>st_fresh\<close> by \<open>WithCancel\<close> under the context 2
  and \<open>WithDeadline\<close> with deadline 9 under the new context 3.\<close>

definition st_pair :: state where
  "st_pair = \<lparr> heap = (\<lambda>a. if a = 0 \<or> a = 1 then Some EmptyCtx
        else if a = 2 then Some (CancelCtx \<lparr> Context = Some 0, done_c = Some 1, children = Some [3], err = None \<rparr>)
        else if a = 3 then Some (CancelCtx \<lparr> Context = Some 2, done_c = None, children = None, err = None \<rparr>)
        else None),
     nextAddr = 4, closedChans = {closedchan}, nextChan = 2, goroutines = 0, watchers = [], now = 0 \<rparr>"

lemma WithCancel_st_fresh:
  "WithCancel 3 st_fresh (Some 2) = Some (Returns ((3, CancelFunc 3 True Canceled), st_pair))"
  by (simp add: WithCancel_def st_fresh_def alloc_def propagateCancel_def ctx_Done.simps
      cancelCtx_Done_def load_def parentCancelCtx_def ctx_Value.simps newCancelCtx_def closedchan_def
      modify_def Let_def st_pair_def fun_eq_iff)

lemma WithDeadline_st_pair:
  "WithDeadline 4 st_pair (Some 3) 9 = Some (Returns ((4, CancelFunc 4 True Canceled), st_tree))"
  by (simp add: WithDeadline_def ctx_Deadline.simps st_pair_def alloc_def propagateCancel_def ctx_Done.simps
      cancelCtx_Done_def load_def parentCancelCtx_def ctx_Value.simps newCancelCtx_def closedchan_def
      modify_def Let_def st_tree_def set_timer_def fun_eq_iff)

lemma reachable_st_tree: "reachable st_tree"
proof -
  have "step st_fresh st_pair"
    by (rule step.WithCancel [OF _ _ WithCancel_st_fresh]) (simp_all add: st_fresh_def)
  moreover have "step st_pair st_tree"
    by (rule step.WithDeadline [OF _ _ WithDeadline_st_pair]) (simp_all add: st_pair_def)
  ultimately show ?thesis using reachable_st_fresh by (blast intro: reachable.step)
qed

lemma wf_st_foreign: "wf st_foreign"
  unfolding wf_def wf0_def
  by (auto simp: st_foreign_def load_def cc_ok_def kids_def closedchan_def split: if_splits)

lemma st_foreign_parent3: "parentCancelCtx st_foreign (Some 3) = Some (Returns (None, st_foreign))"
  by (simp add: parentCancelCtx_def st_foreign_Done3 st_foreign_Value3 st_foreign_load2 closedchan_def)

lemma st_foreign_load4:
  "load st_foreign 4 = Some \<lparr> Context = Some 3, done_c = None, children = None, err = None \<rparr>"
  by (simp add: st_foreign_def load_def)

text \<open>The store after \<open>propagateCancel\<close> has started a watcher for the context 4 under the
  parent 3, and the store after the environment has then cancelled 3.\<close>

definition st_watch :: state where
  "st_watch = st_foreign\<lparr>goroutines := goroutines st_foreign + 1,
      watchers := watchers st_foreign @ [(Some 3, 4)]\<rparr>"

definition st_watch_closed :: state where
  "st_watch_closed = foreign_cancel st_watch 3 Canceled"

lemma st_watch_closed_facts:
  "watchers st_watch_closed = [(Some 3, 4)]" "nextAddr st_watch_closed = 5"
  "closedChans st_watch_closed = {2, closedchan}"
  "ctx_Done st_watch_closed (Some 3) = Some (Returns (Some 2, st_watch_closed))"
  "ctx_Err st_watch_closed (Some 3) = Some (Returns (Some Canceled))"
  "load st_watch_closed 4 = Some \<lparr> Context = Some 3, done_c = None, children = None, err = None \<rparr>"
  by (simp_all add: st_watch_closed_def st_watch_def st_foreign_def foreign_cancel_def closedchan_def
      ctx_Done.simps ctx_Err.simps load_def)

text \<open>The store after the watcher has then run, and the run that goes through these three
  stores and stays in the last.\<close>

definition st_watch_done :: state where
  "st_watch_done = (case watcher_run 5 st_watch_closed 0 of Some (Returns t) \<Rightarrow> t | _ \<Rightarrow> st_watch_closed)"

definition run_watch :: "nat \<Rightarrow> state" where
  "run_watch k = (if k = 0 then st_watch else if k = 1 then st_watch_closed else st_watch_done)"

lemma wf_st_watch: "wf st_watch"
  unfolding st_watch_def by (rule wf_upd_tasks [OF wf_st_foreign])

lemma wf_st_watch_closed: "wf st_watch_closed"
  unfolding st_watch_closed_def using foreign_cancel_step [OF wf_st_watch] by simp

lemma st_watch_closed_run:
  "watcher_run 5 st_watch_closed 0 = Some (Returns st_watch_done)"
  "watchers st_watch_done = []" "cancelled st_watch_done 4"
proof -
  have i: "0 < length (watchers st_watch_closed)" "watchers st_watch_closed ! 0 = (Some 3, 4)"
    "nextAddr st_watch_closed \<le> 5" by (simp_all add: st_watch_closed_facts)
  from watcher_run_cases [OF wf_st_watch_closed i(1,2) st_watch_closed_facts(6) i(3) st_watch_closed_facts(4)]
  obtain t' c' where t: "watcher_run 5 st_watch_closed 0 = Some (Returns t')" "load t' 4 = Some c'"
    "err c' \<noteq> None" "watchers t' = remove_nth 0 (watchers st_watch_closed)"
    by (auto simp: st_watch_closed_facts)
  from t(1) have eq: "st_watch_done = t'" by (simp add: st_watch_done_def)
  from t(1) show "watcher_run 5 st_watch_closed 0 = Some (Returns st_watch_done)" by (simp add: eq)
  from t(4) show "watchers st_watch_done = []" by (simp add: eq st_watch_closed_facts remove_nth_def)
  from t(2,3) show "cancelled st_watch_done 4" by (simp add: eq cancelled_load)
qed

lemma run_watch_step: "step (run_watch k) (run_watch (Suc k))"
proof -
  have 0: "step st_watch st_watch_closed" unfolding st_watch_closed_def by (rule step.foreign_cancel)
  have 1: "step st_watch_closed st_watch_done"
    by (rule step.watcher [OF _ st_watch_closed_run(1)]) (simp add: st_watch_closed_facts)
  have "advance st_watch_done (now st_watch_done) = st_watch_done" by (simp add: advance_def)
  with step.advance [of st_watch_done "now st_watch_done"] have 2: "step st_watch_done st_watch_done" by simp
  from 0 1 2 show ?thesis by (simp add: run_watch_def)
qed

lemma run_watch_fair:
  "(Some 3, 4) \<in> set (watchers (run_watch k))
    \<longrightarrow> (\<exists>j\<ge>k. (Some 3, 4) \<notin> set (watchers (run_watch j))
          \<or> (\<exists>i m. i < length (watchers (run_watch j)) \<and> watchers (run_watch j) ! i = (Some 3, 4)
                \<and> nextAddr (run_watch j) \<le> m
                \<and> watcher_run m (run_watch j) i = Some (Returns (run_watch (Suc j)))))"
proof (cases "k \<le> 1")
  case True
  have "\<exists>i m. i < length (watchers (run_watch 1)) \<and> watchers (run_watch 1) ! i = (Some 3, 4)
                \<and> nextAddr (run_watch 1) \<le> m
                \<and> watcher_run m (run_watch 1) i = Some (Returns (run_watch (Suc 1)))"
    using st_watch_closed_run(1) by (auto simp: run_watch_def st_watch_closed_facts intro!: exI [of _ 0] exI [of _ 5])
  with True show ?thesis by blast
next
  case False
  then have "watchers (run_watch k) = []" by (simp add: run_watch_def st_watch_closed_run)
  then show ?thesis by simp
qed

lemma run_watch_closed: "done_closed (run_watch 1) (Some 3)"
  by (simp add: run_watch_def done_closed_def st_watch_closed_facts)

section \<open>WithDeadline under a parent with a deadline\<close>

text \<open>
  C4, as stated, fails when the parent's deadline equals the requested one: the test in
  \<open>WithDeadline\<close> is \<open>cur.Before(d)\<close>, so with the parent's deadline 5 and \<open>d = 5\<close> a
  timer context is made and its timer scheduled, where \<open>WithCancel\<close> makes a plain
  cancellable context.
\<close>

theorem WithDeadline_equal_deadline_counterexample:
  "ctx_Deadline st_timer (Some 2) = Some (Returns (Some 5))
   \<and> new_ctx (WithDeadline 1 st_timer (Some 2) 5)
       = Some (TimerCtx \<lparr> Context = Some 2, done_c = None, children = None, err = None \<rparr> 5 True)
   \<and> new_ctx (WithCancel 1 st_timer (Some 2))
       = Some (CancelCtx \<lparr> Context = Some 2, done_c = None, children = None, err = None \<rparr>)"
  by (simp add: new_ctx_def WithDeadline_def WithCancel_def ctx_Deadline.simps st_timer_def alloc_def
      propagateCancel_def ctx_Done.simps cancelCtx_Done_def load_def parentCancelCtx_def
      ctx_Value.simps newCancelCtx_def closedchan_def Let_def)

text \<open>
  C4, amended: when the parent carries a deadline strictly earlier than the requested
  deadline \<open>d\<close>, \<open>WithDeadline(parent, d)\<close> is \<open>WithCancel(parent)\<close>: it returns what
  \<open>WithCancel\<close> returns and leaves the store that \<open>WithCancel\<close> leaves. When the parent's
  deadline equals \<open>d\<close>, as when it is later or the parent has none, \<open>WithDeadline\<close> in a
  well-formed store returns a new timer context with deadline \<open>d\<close>, whose timer is
  scheduled exactly when \<open>d\<close> is still ahead and the context was not cancelled by its
  parent, where \<open>WithCancel\<close> returns a plain \<open>cancelCtx\<close>.
\<close>

theorem WithDeadline_earlier_parent:
  "(ctx_Deadline s parent = Some (Returns (Some cur)) \<and> cur < d
      \<longrightarrow> WithDeadline n s parent d = WithCancel n s parent)
   \<and> (wf s \<and> 0 < n \<and> parent = Some pa \<and> pa < nextAddr s
        \<and> ctx_Deadline s parent = Some (Returns dl) \<and> \<not> (\<exists>t. dl = Some t \<and> t < d)
      \<longrightarrow> (\<exists>f s' c' tm. WithDeadline n s parent d = Some (Returns ((nextAddr s, f), s'))
              \<and> heap s' (nextAddr s) = Some (TimerCtx c' d tm)
              \<and> tm = (0 < d - now s \<and> err c' = None))
        \<and> (\<exists>g s'' c''. WithCancel n s parent = Some (Returns ((nextAddr s, g), s''))
              \<and> heap s'' (nextAddr s) = Some (CancelCtx c'')))"
proof (intro conjI impI)
  assume "ctx_Deadline s parent = Some (Returns (Some cur)) \<and> cur < d"
  then show "WithDeadline n s parent d = WithCancel n s parent"
    by (cases parent) (simp_all add: WithDeadline_def WithCancel_def)
next
  assume h0: "wf s \<and> 0 < n \<and> parent = Some pa \<and> pa < nextAddr s
        \<and> ctx_Deadline s parent = Some (Returns dl) \<and> \<not> (\<exists>t. dl = Some t \<and> t < d)"
  then have h: "wf s" "0 < n" "parent = Some pa" "pa < nextAddr s"
    "ctx_Deadline s (Some pa) = Some (Returns dl)" "\<not> (\<exists>t. dl = Some t \<and> t < d)" by auto
  show "\<exists>f s' c' tm. WithDeadline n s parent d = Some (Returns ((nextAddr s, f), s'))
              \<and> heap s' (nextAddr s) = Some (TimerCtx c' d tm)
              \<and> tm = (0 < d - now s \<and> err c' = None)"
    using WithDeadline_timer [OF h(1,4,2,5,6)] h(3) by simp
  show "\<exists>g s'' c''. WithCancel n s parent = Some (Returns ((nextAddr s, g), s''))
              \<and> heap s'' (nextAddr s) = Some (CancelCtx c'')"
    using WithCancel_plain [OF h(1,4,2)] h(3) by simp
qed

theorem WithDeadline_earlier_parent_witness:
  "ctx_Deadline st_timer (Some 2) = Some (Returns (Some 5)) \<and> (5::int) < 7
   \<and> WithDeadline 1 st_timer (Some 2) 7 = WithCancel 1 st_timer (Some 2)
   \<and> wf st_timer \<and> 2 < nextAddr st_timer
   \<and> (\<exists>f s' c' tm. WithDeadline 1 st_timer (Some 2) 5 = Some (Returns ((3, f), s'))
              \<and> heap s' 3 = Some (TimerCtx c' 5 tm) \<and> tm = (0 < 5 - now st_timer \<and> err c' = None))
   \<and> (\<exists>g s'' c''. WithCancel 1 st_timer (Some 2) = Some (Returns ((3, g), s''))
              \<and> heap s'' 3 = Some (CancelCtx c''))"
proof -
  have n: "2 < nextAddr st_timer" "nextAddr st_timer = 3" by (simp_all add: st_timer_def)
  from WithDeadline_earlier_parent [of st_timer "Some 2" 5 7 1 2 "Some 5"]
  have 1: "WithDeadline 1 st_timer (Some 2) 7 = WithCancel 1 st_timer (Some 2)"
    using st_timer_Deadline2 by simp
  from WithDeadline_earlier_parent [of st_timer "Some 2" 0 5 1 2 "Some 5"]
  have 2: "(\<exists>f s' c' tm. WithDeadline 1 st_timer (Some 2) 5 = Some (Returns ((3, f), s'))
              \<and> heap s' 3 = Some (TimerCtx c' 5 tm) \<and> tm = (0 < 5 - now st_timer \<and> err c' = None))
   \<and> (\<exists>g s'' c''. WithCancel 1 st_timer (Some 2) = Some (Returns ((3, g), s''))
              \<and> heap s'' 3 = Some (CancelCtx c''))"
    using st_timer_Deadline2 wf_st_timer n by simp
  from 1 2 show ?thesis using st_timer_Deadline2 wf_st_timer n(1) by simp
qed

section \<open>Finding the parent cancelCtx\<close>

text \<open>
  C8: \<open>parentCancelCtx\<close> returns a \<open>cancelCtx\<close> exactly when the parent's done channel is
  neither nil nor \<open>closedchan\<close>, the parent's \<open>Value\<close> answers the private key with a
  \<open>cancelCtx\<close>, and the done channel of that \<open>cancelCtx\<close> is the channel that was read
  from the parent (\<open>found_parent\<close>). In every other case it reports not-found; then
  \<open>removeChild\<close> changes nothing beyond what the call of \<open>Done\<close> did, and
  \<open>propagateCancel\<close>, when the parent's channel is open, counts and starts one watcher.
  A \<open>cancelCtx\<close> answers the private key with itself.
\<close>

theorem parentCancelCtx_exactly_when:
  assumes "ctx_Done s parent = Some (Returns (dn, s1))"
    and "dn \<noteq> None \<Longrightarrow> dn \<noteq> Some closedchan \<Longrightarrow> ctx_Value s1 parent CancelCtxKey = Some (Returns v)"
    and "\<And>p. v = Some (VCancelCtx p) \<Longrightarrow> load s1 p \<noteq> None"
  shows "(\<forall>p. parentCancelCtx s parent = Some (Returns (Some p, s1)) \<longleftrightarrow> found_parent s1 dn v p)
    \<and> ((\<forall>p. \<not> found_parent s1 dn v p) \<longrightarrow>
          parentCancelCtx s parent = Some (Returns (None, s1))
        \<and> removeChild s parent child = Some (Returns s1)
        \<and> (\<forall>d. dn = Some d \<and> d \<notin> closedChans s1 \<longrightarrow>
              propagateCancel n s parent child
                = Some (Returns (s1\<lparr>goroutines := goroutines s1 + 1,
                                    watchers := watchers s1 @ [(parent, child)]\<rparr>))))
    \<and> (\<forall>a c. heap s a = Some (CancelCtx c) \<longrightarrow>
          ctx_Value s (Some a) CancelCtxKey = Some (Returns (Some (VCancelCtx a))))"
proof (intro conjI allI impI)
  fix p
  show "parentCancelCtx s parent = Some (Returns (Some p, s1)) \<longleftrightarrow> found_parent s1 dn v p"
  proof
    assume r: "parentCancelCtx s parent = Some (Returns (Some p, s1))"
    show "found_parent s1 dn v p"
    proof (cases "\<exists>q. found_parent s1 dn v q")
      case True
      then obtain q where q: "found_parent s1 dn v q" by auto
      from parentCancelCtx_cases(1) [of s parent dn s1 v q] assms q r show ?thesis by auto
    next
      case False
      with parentCancelCtx_cases(2) [of s parent dn s1 v] assms r show ?thesis by auto
    qed
  next
    assume "found_parent s1 dn v p"
    then show "parentCancelCtx s parent = Some (Returns (Some p, s1))"
      using parentCancelCtx_cases(1) [of s parent dn s1 v p] assms by auto
  qed
next
  assume nf: "\<forall>p. \<not> found_parent s1 dn v p"
  then show none: "parentCancelCtx s parent = Some (Returns (None, s1))"
    using parentCancelCtx_cases(2) [of s parent dn s1 v] assms by auto
  then show "removeChild s parent child = Some (Returns s1)"
    by (simp add: removeChild_def)
  fix d assume d: "dn = Some d \<and> d \<notin> closedChans s1"
  have idem: "ctx_Done s1 parent = Some (Returns (dn, s1))"
    by (rule ctx_Done_idem [OF assms(1)])
  have "parentCancelCtx s1 parent = Some (Returns (None, s1))"
    using nf parentCancelCtx_cases(2) [of s1 parent dn s1 v] idem assms(2,3) by auto
  with d assms(1) show "propagateCancel n s parent child
      = Some (Returns (s1\<lparr>goroutines := goroutines s1 + 1, watchers := watchers s1 @ [(parent, child)]\<rparr>))"
    by (simp add: propagateCancel_def)
next
  fix a c assume "heap s a = Some (CancelCtx c)"
  then show "ctx_Value s (Some a) CancelCtxKey = Some (Returns (Some (VCancelCtx a)))"
    by (simp add: ctx_Value.simps)
qed


theorem parentCancelCtx_exactly_when_witness:
  "ctx_Done st_foreign (Some 3) = Some (Returns (Some 2, st_foreign))
   \<and> ctx_Value st_foreign (Some 3) CancelCtxKey = Some (Returns (Some (VCancelCtx 2)))
   \<and> load st_foreign 2 \<noteq> None
   \<and> parentCancelCtx st_foreign (Some 3) = Some (Returns (None, st_foreign))
   \<and> removeChild st_foreign (Some 3) 4 = Some (Returns st_foreign)
   \<and> propagateCancel 1 st_foreign (Some 3) 4
       = Some (Returns (st_foreign\<lparr>goroutines := 1, watchers := [(Some 3, 4)]\<rparr>))
   \<and> ctx_Done st_foreign (Some 2) = Some (Returns (Some 1, st_foreign))
   \<and> parentCancelCtx st_foreign (Some 2) = Some (Returns (Some 2, st_foreign))"
proof -
  have l: "\<And>p. Some (VCancelCtx 2) = Some (VCancelCtx p) \<Longrightarrow> load st_foreign p \<noteq> None"
    by (simp add: st_foreign_load2)
  have nf: "\<forall>p. \<not> found_parent st_foreign (Some 2) (Some (VCancelCtx 2)) p"
    by (simp add: found_parent_def st_foreign_load2)
  have open2: "2 \<notin> closedChans st_foreign" by (simp add: st_foreign_def closedchan_def)
  have f: "found_parent st_foreign (Some 1) (Some (VCancelCtx 2)) 2"
    by (simp add: found_parent_def st_foreign_load2 closedchan_def)
  note A = parentCancelCtx_exactly_when [of st_foreign "Some 3" "Some 2" st_foreign "Some (VCancelCtx 2)" 4 1,
      OF st_foreign_Done3 st_foreign_Value3 l]
  note B = parentCancelCtx_exactly_when [of st_foreign "Some 2" "Some 1" st_foreign "Some (VCancelCtx 2)" 4 1,
      OF st_foreign_Done2 st_foreign_Value2 l]
  have g: "goroutines st_foreign = 0" "watchers st_foreign = []" by (simp_all add: st_foreign_def)
  from A nf open2 B f show ?thesis
    by (simp add: st_foreign_Done3 st_foreign_Value3 st_foreign_load2 st_foreign_Done2 g)
qed

section \<open>Cancelling a context\<close>

text \<open>
  C1: in a well-formed store, \<open>cancel\<close> with a cause on a \<open>cancelCtx\<close> that is not yet
  cancelled returns, given enough nested calls (\<open>n\<close> at least the number of addresses
  above the context). In the store it returns the context has the cause as its \<open>err\<close>,
  its done channel (the one it had, or \<open>closedchan\<close>) is closed and its children map is
  nil (\<open>mark\<close>); and every context registered below it, directly or through children
  of children, is cancelled: with the same cause and a closed done channel when it was
  not cancelled before, unchanged otherwise.
\<close>

theorem cancel_reaches_descendants:
  assumes "wf s" and "heap s a = Some (CancelCtx c)" and "err c = None"
    and "nextAddr s \<le> Suc (a + n)"
  shows "\<exists>s'. cancelCtx_cancel n s a removeFromParent (Some cause) = Some (Returns s') \<and> wf s'
     \<and> load s' a = Some (mark cause c) \<and> dch c \<in> closedChans s'
     \<and> (\<forall>b. below s a b \<longrightarrow> (\<exists>cb. load s b = Some cb
           \<and> load s' b = Some (if err cb = None then mark cause cb else cb) \<and> cancelled s' b))"
proof -
  from assms(2) have l: "load s a = Some c" by (simp add: load_def)
  from cancelCtx_cancel_top [OF assms(1,2,4), of removeFromParent cause] obtain s4 s' q where
    t: "cancelCtx_cancel n s a removeFromParent (Some cause) = Some (Returns s')"
      "fanout cause None s s4" "Context c = Some q" "q < a" "benign q s4 s'" "wf s4" "wf s'"
      "load s4 a = Some (if err c = None then mark cause c else c)" by blast
  from t(8) assms(3) have l4: "load s4 a = Some (mark cause c)" by simp
  then have ca: "cancelled s4 a" by (simp add: cancelled_load)
  have same: "load s' b = load s4 b" if "a \<le> b" for b
    using t(5) t(4) that by (simp add: benign_def load_def)
  have cl: "closedChans s' = closedChans s4" using t(5) by (simp add: benign_def)
  have "dch c \<in> closedChans s4" using fanout_new [OF t(2) l assms(3) ca] by simp
  moreover have "\<exists>cb. load s b = Some cb
      \<and> load s' b = Some (if err cb = None then mark cause cb else cb) \<and> cancelled s' b"
    if "below s a b" for b
  proof -
    from below_gt [OF wf_wf0 [OF assms(1)] that] have "a \<le> b" by simp
    from fanout_below [OF assms(1) t(2) l assms(3) ca that] same [OF this]
    show ?thesis by (simp add: cancelled_load)
  qed
  ultimately show ?thesis using t(1,7) l4 same [of a] cl by auto
qed


theorem cancel_reaches_descendants_witness:
  "wf st_tree
   \<and> heap st_tree 2 = Some (CancelCtx \<lparr> Context = Some 0, done_c = Some 1, children = Some [3], err = None \<rparr>)
   \<and> nextAddr st_tree \<le> Suc (2 + 2)
   \<and> (\<exists>s'. cancelCtx_cancel 2 st_tree 2 True (Some Canceled) = Some (Returns s') \<and> wf s'
        \<and> load s' 2 = Some \<lparr> Context = Some 0, done_c = Some 1, children = None, err = Some Canceled \<rparr>
        \<and> 1 \<in> closedChans s'
        \<and> load s' 3 = Some \<lparr> Context = Some 2, done_c = Some 2, children = None, err = Some Canceled \<rparr>
        \<and> load s' 4 = Some \<lparr> Context = Some 3, done_c = Some closedchan, children = None, err = Some Canceled \<rparr>)"
proof -
  have h: "heap st_tree 2 = Some (CancelCtx \<lparr> Context = Some 0, done_c = Some 1, children = Some [3], err = None \<rparr>)"
    by (simp add: st_tree_def)
  have n: "nextAddr st_tree \<le> Suc (2 + 2)" by (simp add: st_tree_def)
  from cancel_reaches_descendants [OF wf_st_tree h _ n, of True Canceled] below_st_tree
  show ?thesis using wf_st_tree h n
    by (fastforce simp: load_st_tree mark_def dch_def)
qed


section \<open>Deriving from a cancelled parent\<close>

text \<open>
  C3: in a well-formed store, when the done channel that the parent answers is already
  closed, each of \<open>WithCancel\<close>, \<open>WithDeadline\<close> and \<open>WithTimeout\<close> (one nested call
  suffices) returns the new context already cancelled: its \<open>err\<close> is the error that the
  parent's \<open>Err\<close> returns and its done channel is the closed \<open>closedchan\<close>. No context
  that existed before has its children map changed, and no watcher is started.
\<close>

theorem derive_from_cancelled_parent:
  assumes "wf s" and "ctx_Done s parent = Some (Returns (Some d, s1))" and "d \<in> closedChans s"
    and "0 < n"
  shows "\<exists>e. ctx_Err s parent = Some (Returns (Some e))
    \<and> (\<forall>r \<in> {WithCancel n s parent, WithDeadline n s parent dl, WithTimeout n s parent tmo}.
         \<exists>f s'. r = Some (Returns ((nextAddr s, f), s'))
           \<and> (\<exists>cc. load s' (nextAddr s) = Some cc \<and> err cc = Some e
                 \<and> done_c cc = Some closedchan \<and> closedchan \<in> closedChans s')
           \<and> (\<forall>b cb. load s b = Some cb \<longrightarrow> (\<exists>cb'. load s' b = Some cb' \<and> children cb' = children cb))
           \<and> watchers s' = watchers s \<and> goroutines s' = goroutines s)"
proof -
  from derive_closed_result [OF assms] obtain e where
    E: "ctx_Err s parent = Some (Returns (Some e))"
    and D: "\<And>dl. \<exists>f s'. WithDeadline n s parent dl = Some (Returns ((nextAddr s, f), s'))
           \<and> load s' (nextAddr s) = Some (mark e (newCancelCtx parent))
           \<and> closedchan \<in> closedChans s'
           \<and> (\<forall>b cb. load s b = Some cb \<longrightarrow> (\<exists>cb'. load s' b = Some cb' \<and> children cb' = children cb))
           \<and> watchers s' = watchers s \<and> goroutines s' = goroutines s"
    and C: "\<exists>f s'. WithCancel n s parent = Some (Returns ((nextAddr s, f), s'))
           \<and> load s' (nextAddr s) = Some (mark e (newCancelCtx parent))
           \<and> closedchan \<in> closedChans s'
           \<and> (\<forall>b cb. load s b = Some cb \<longrightarrow> (\<exists>cb'. load s' b = Some cb' \<and> children cb' = children cb))
           \<and> watchers s' = watchers s \<and> goroutines s' = goroutines s"
    by blast
  have m: "err (mark e (newCancelCtx parent)) = Some e"
    "done_c (mark e (newCancelCtx parent)) = Some closedchan"
    by (simp_all add: dch_def newCancelCtx_def)
  have P: "\<exists>f s'. r = Some (Returns ((nextAddr s, f), s'))
           \<and> (\<exists>cc. load s' (nextAddr s) = Some cc \<and> err cc = Some e
                 \<and> done_c cc = Some closedchan \<and> closedchan \<in> closedChans s')
           \<and> (\<forall>b cb. load s b = Some cb \<longrightarrow> (\<exists>cb'. load s' b = Some cb' \<and> children cb' = children cb))
           \<and> watchers s' = watchers s \<and> goroutines s' = goroutines s"
    if "\<exists>f s'. r = Some (Returns ((nextAddr s, f), s'))
           \<and> load s' (nextAddr s) = Some (mark e (newCancelCtx parent))
           \<and> closedchan \<in> closedChans s'
           \<and> (\<forall>b cb. load s b = Some cb \<longrightarrow> (\<exists>cb'. load s' b = Some cb' \<and> children cb' = children cb))
           \<and> watchers s' = watchers s \<and> goroutines s' = goroutines s" for r
    using that m by metis
  show ?thesis
    using E P [OF C] P [OF D [of dl]] P [OF D [of "now s + tmo"]]
    by (simp add: WithTimeout_def)
qed

theorem derive_from_cancelled_parent_witness:
  "wf st_cancelled \<and> ctx_Done st_cancelled (Some 2) = Some (Returns (Some closedchan, st_cancelled))
   \<and> closedchan \<in> closedChans st_cancelled
   \<and> ctx_Err st_cancelled (Some 2) = Some (Returns (Some Canceled))
   \<and> (\<exists>f s'. WithTimeout 1 st_cancelled (Some 2) 100 = Some (Returns ((3, f), s'))
        \<and> (\<exists>cc. load s' 3 = Some cc \<and> err cc = Some Canceled)
        \<and> (\<exists>cb'. load s' 2 = Some cb' \<and> children cb' = None))"
proof -
  have cl: "closedchan \<in> closedChans st_cancelled" by (simp add: st_cancelled_def)
  have E: "ctx_Err st_cancelled (Some 2) = Some (Returns (Some Canceled))"
    by (simp add: ctx_Err.simps st_cancelled_def cancelCtx_Err_def load_def)
  have l: "load st_cancelled 2 = Some \<lparr> Context = Some 0, done_c = Some closedchan, children = None, err = Some Canceled \<rparr>"
    by (simp add: st_cancelled_def load_def)
  have na: "nextAddr st_cancelled = 3" by (simp add: st_cancelled_def)
  from derive_from_cancelled_parent [OF wf_st_cancelled Done_st_cancelled cl, of 1 0 100] E l
  show ?thesis using wf_st_cancelled Done_st_cancelled cl
    by (simp add: na) (metis cancelCtx.select_convs(3))
qed


section \<open>WithDeadline with a deadline that has passed\<close>

text \<open>
  C5, as stated, fails when the parent is already cancelled: \<open>WithDeadline\<close> calls
  \<open>propagateCancel\<close> before it looks at the time left, so the new context is cancelled
  with the parent's error first, and the later \<open>c.cancel(true, DeadlineExceeded)\<close> finds
  \<open>err\<close> set and changes nothing. Under the parent 2, cancelled with \<open>Canceled\<close>, the
  context derived with the past deadline \<open>-5\<close> has \<open>err = Canceled\<close>.
\<close>

theorem WithDeadline_past_deadline_counterexample:
  "ctx_Deadline st_cancelled (Some 2) = Some (Returns None)
   \<and> -5 - now st_cancelled \<le> 0
   \<and> new_ctx (WithDeadline 1 st_cancelled (Some 2) (-5))
       = Some (TimerCtx \<lparr> Context = Some 2, done_c = Some closedchan, children = None, err = Some Canceled \<rparr> (-5) False)"
  by (simp add: new_ctx_def WithDeadline_def ctx_Deadline.simps st_cancelled_def alloc_def
      propagateCancel_def ctx_Done.simps ctx_Err.simps cancelCtx_Err_def cancelCtx_Done_def load_def parentCancelCtx_def
      ctx_Value.simps newCancelCtx_def closedchan_def Let_def timerCtx_cancel.simps cancelCtx_cancel.simps
      modify_def stop_timer_def close_chan_def removeChild_def)

text \<open>
  C5, amended: in a well-formed store, when the deadline minus the current time is at
  most 0 and the parent carries no earlier deadline, \<open>WithDeadline\<close> returns the new
  context already cancelled, its done channel closed. Its \<open>err\<close> is the error of the
  parent when the parent's done channel was closed at the call, and \<open>DeadlineExceeded\<close>
  otherwise. The returned trigger is \<open>c.cancel(false, Canceled)\<close>; calling it returns and
  leaves the context as it was, so the cause does not change.
\<close>

theorem WithDeadline_past_deadline:
  assumes "wf s" and "ctx_Done s parent = Some (Returns (dn, s1))"
    and "ctx_Deadline s parent = Some (Returns cur)" and "\<not> (\<exists>t. cur = Some t \<and> t < dl)"
    and "dl - now s \<le> 0" and "0 < n"
  shows "\<exists>s' cc. WithDeadline n s parent dl
          = Some (Returns ((nextAddr s, CancelFunc (nextAddr s) False Canceled), s'))
      \<and> load s' (nextAddr s) = Some cc
      \<and> (\<exists>d. done_c cc = Some d \<and> d \<in> closedChans s')
      \<and> (if \<exists>d. dn = Some d \<and> d \<in> closedChans s
          then err cc \<noteq> None \<and> ctx_Err s parent = Some (Returns (err cc))
          else err cc = Some DeadlineExceeded)
      \<and> (\<forall>m. \<exists>s''. call_CancelFunc (Suc m) s' (CancelFunc (nextAddr s) False Canceled) = Some (Returns s'')
              \<and> load s'' (nextAddr s) = Some cc)"
proof -
  let ?c = "nextAddr s"
  let ?cc = "newCancelCtx (Some pa)"
  note w0 = wf_wf0 [OF assms(1)]
  from ctx_Done_Returns_answers [OF assms(2)] obtain pa q0 where p: "parent = Some pa" and a0: "answers s pa q0"
    by blast
  from answers_heap [OF a0] wf0_dom [OF w0, of pa] have pa: "pa < nextAddr s" by simp
  let ?cc = "newCancelCtx (Some pa)"
  let ?x = "TimerCtx ?cc dl False"
  from WithDeadline_wf [OF assms(1) pa assms(6) assms(3) [unfolded p] assms(4)] assms(5)
  obtain s2 s3 q where
    d: "answers s pa q" "wf s2"
      "propagated s (snd (alloc (ensure_done s q) ?x)) q pa ?c ?cc s2"
      "WithDeadline n s (Some pa) dl = Some (Returns ((?c, CancelFunc ?c False Canceled), s3))" "wf s3"
      "timerCtx_cancel n s2 ?c True (Some DeadlineExceeded) = Some (Returns s3)"
    by blast
  from ctx_Done_answers [OF d(1)] assms(2) p have dn: "dn = chan_at (ensure_done s q) q" by auto
  have pcl: "parent_closed s q \<longleftrightarrow> (\<exists>d. dn = Some d \<and> d \<in> closedChans s)"
    by (auto simp: parent_closed_def dn)
  have E: "ctx_Err s parent = Some (Returns (err_at s q))"
    using ctx_Err_answers [OF d(1)] p by simp
  have l1: "load (snd (alloc (ensure_done s q) ?x)) ?c = Some ?cc" by simp
  note l2 = propagated_child [OF d(3) l1 pa]
  have na: "nextAddr s2 = Suc ?c" using propagated_nextAddr [OF d(3)] by simp
  then have bound: "nextAddr s2 \<le> Suc (?c + n)" by simp
  from timerCtx_cancel_top [OF d(2) l2 bound, of True DeadlineExceeded] d(6)
  obtain s4 k where
    t: "benign k s4 s3" "k < ?c"
      "load s4 ?c = Some (if err (if parent_closed s q then mark (the (err_at s q)) ?cc else ?cc) = None
          then mark DeadlineExceeded (if parent_closed s q then mark (the (err_at s q)) ?cc else ?cc)
          else (if parent_closed s q then mark (the (err_at s q)) ?cc else ?cc))"
    by auto
  define cc where "cc = (if parent_closed s q then mark (the (err_at s q)) ?cc else mark DeadlineExceeded ?cc)"
  have l4: "load s4 ?c = Some cc" using t(3) by (simp add: cc_def newCancelCtx_def)
  have l3: "load s3 ?c = Some cc" using t(1,2) l4 by (simp add: benign_def load_def)
  have ec: "err cc \<noteq> None" by (simp add: cc_def)
  have dc: "done_c cc = Some closedchan" by (simp add: cc_def dch_def newCancelCtx_def)
  have cl: "closedchan \<in> closedChans s3" using wf0_closedchan [OF wf_wf0 [OF d(5)]] .
  have er: "if \<exists>d. dn = Some d \<and> d \<in> closedChans s
          then err cc \<noteq> None \<and> ctx_Err s parent = Some (Returns (err cc))
          else err cc = Some DeadlineExceeded"
  proof (cases "parent_closed s q")
    case True
    from propagated_closed [OF d(3) True] obtain e where "err_at s q = Some e" by blast
    with True pcl E show ?thesis by (simp add: cc_def)
  next
    case False
    with pcl show ?thesis by (auto simp: cc_def)
  qed
  have tr: "\<exists>s''. call_CancelFunc (Suc m) s3 (CancelFunc ?c False Canceled) = Some (Returns s'')
              \<and> load s'' ?c = Some cc" for m
    using canceler_cancel_cancelled [OF l3 ec, of m False Canceled] l3 by auto
  from d(4) l3 dc cl er tr p show ?thesis by auto
qed

theorem WithDeadline_past_deadline_witness:
  "wf st_timer \<and> ctx_Deadline st_timer (Some 2) = Some (Returns (Some 5)) \<and> - 1 - now st_timer \<le> 0
   \<and> (\<exists>s' cc. WithDeadline 1 st_timer (Some 2) (- 1) = Some (Returns ((3, CancelFunc 3 False Canceled), s'))
        \<and> load s' 3 = Some cc \<and> err cc = Some DeadlineExceeded
        \<and> (\<exists>s''. call_CancelFunc 1 s' (CancelFunc 3 False Canceled) = Some (Returns s'') \<and> load s'' 3 = Some cc))"
proof -
  have n: "- 1 - now st_timer \<le> 0" "nextAddr st_timer = 3" "1 \<notin> closedChans st_timer"
    by (simp_all add: st_timer_def closedchan_def)
  from st_timer_Done2 obtain s1 where dn: "ctx_Done st_timer (Some 2) = Some (Returns (Some 1, s1))" ..
  from WithDeadline_past_deadline [OF wf_st_timer dn st_timer_Deadline2 _ n(1), of 1]
  show ?thesis using wf_st_timer st_timer_Deadline2 n
    by (simp add: n) (metis One_nat_def)
qed


section \<open>The invariant of a cancellable context\<close>

text \<open>
  C7: in every store that a program can reach from the initial one, the \<open>err\<close> of a
  cancellable context is set exactly when its done channel is made and closed. Every
  step (Done, WithCancel, WithDeadline, WithTimeout, WithValue, cancel, removeChild, a
  timer callback, a watcher, a move of the environment) leads to a store in which this
  holds again for the same context; \<open>Err\<close> changes nothing. When \<open>cancel\<close> reaches a context whose
  done channel was never made, the context gets the shared closed channel \<open>closedchan\<close>.
\<close>

theorem err_iff_done_closed:
  assumes "reachable s" and "load s a = Some c"
  shows "((err c \<noteq> None) = (\<exists>d. done_c c = Some d \<and> d \<in> closedChans s))
     \<and> (\<forall>s'. step s s' \<longrightarrow> (\<exists>c'. load s' a = Some c'
            \<and> (err c' \<noteq> None) = (\<exists>d. done_c c' = Some d \<and> d \<in> closedChans s')))
     \<and> (\<forall>n cause removeFromParent s'. err c = None \<and> done_c c = None \<and> nextAddr s \<le> n
            \<and> canceler_cancel n s a removeFromParent (Some cause) = Some (Returns s')
          \<longrightarrow> (\<exists>c'. load s' a = Some c' \<and> err c' = Some cause \<and> done_c c' = Some closedchan
                 \<and> closedchan \<in> closedChans s'))"
proof (intro conjI allI impI)
  note w = reachable_wf [OF assms(1)]
  show "(err c \<noteq> None) = (\<exists>d. done_c c = Some d \<and> d \<in> closedChans s)"
    using wf0_cc [OF wf_wf0 [OF w] assms(2)] by (simp add: cc_ok_def)
  {
    fix s' assume st: "step s s'"
    from step_wf_grows [OF w st] have w': "wf s'" and g: "grows s s'" by simp_all
    from grows_load [OF g assms(2)] obtain c' where l': "load s' a = Some c'" by blast
    from wf0_cc [OF wf_wf0 [OF w'] l'] l'
    show "\<exists>c'. load s' a = Some c' \<and> (err c' \<noteq> None) = (\<exists>d. done_c c' = Some d \<and> d \<in> closedChans s')"
      by (simp add: cc_ok_def)
  }
  {
    fix n cause rfp s'
    assume h: "err c = None \<and> done_c c = None \<and> nextAddr s \<le> n
            \<and> canceler_cancel n s a rfp (Some cause) = Some (Returns s')"
    then have b: "nextAddr s \<le> a + n" by simp
    from canceler_cancel_top [OF w assms(2) b, of rfp cause] h obtain s4 q where
      t: "q < a" "benign q s4 s'" "load s4 a = Some (mark cause c)" "wf s'" by auto
    from t(1,2) have "heap s' a = heap s4 a" by (simp add: benign_def)
    with t(3) have l': "load s' a = Some (mark cause c)" by (simp add: load_def)
    with h wf0_closedchan [OF wf_wf0 [OF t(4)]]
    show "\<exists>c'. load s' a = Some c' \<and> err c' = Some cause \<and> done_c c' = Some closedchan
                 \<and> closedchan \<in> closedChans s'"
      by (simp add: dch_def)
  }
qed

theorem err_iff_done_closed_witness:
  "reachable st_fresh
   \<and> load st_fresh 2 = Some \<lparr> Context = Some 0, done_c = None, children = None, err = None \<rparr>
   \<and> canceler_cancel 3 st_fresh 2 True (Some Canceled) = Some (Returns st_cancelled)
   \<and> (\<exists>c'. load st_cancelled 2 = Some c' \<and> err c' = Some Canceled \<and> done_c c' = Some closedchan
          \<and> closedchan \<in> closedChans st_cancelled)
   \<and> (\<exists>c'. load (advance st_fresh 7) 2 = Some c'
            \<and> (err c' \<noteq> None) = (\<exists>d. done_c c' = Some d \<and> d \<in> closedChans (advance st_fresh 7)))"
proof -
  have n: "nextAddr st_fresh \<le> 3" by (simp add: st_fresh_def)
  from err_iff_done_closed [OF reachable_st_fresh load_st_fresh] step.advance [of st_fresh 7]
    cancel_st_fresh n
  have "(\<exists>c'. load st_cancelled 2 = Some c' \<and> err c' = Some Canceled \<and> done_c c' = Some closedchan
          \<and> closedchan \<in> closedChans st_cancelled)
     \<and> (\<exists>c'. load (advance st_fresh 7) 2 = Some c'
            \<and> (err c' \<noteq> None) = (\<exists>d. done_c c' = Some d \<and> d \<in> closedChans (advance st_fresh 7)))"
    by (simp (no_asm_use)) blast
  then show ?thesis using reachable_st_fresh load_st_fresh cancel_st_fresh by simp
qed


section \<open>The first cause wins\<close>

text \<open>
  C2: for a cancellable context of a reachable store whose \<open>err\<close> is set, \<open>cancel\<close> with any
  cause and either value of \<open>removeFromParent\<close> returns and leaves the store as it was,
  so \<open>err\<close>, the done channel and the children map are unchanged (called through the
  \<open>canceler\<close> interface it leaves the context and the closed channels unchanged); after
  any further steps the context still has the same \<open>err\<close>. Hence a second call of a
  function returned by \<open>WithCancel\<close> or \<open>WithDeadline\<close>, at any later time, returns and
  leaves the \<open>err\<close> that the context had after the first call.
\<close>

theorem cancel_first_cause_wins:
  assumes "reachable s" and "load s a = Some c"
  shows "(err c \<noteq> None \<longrightarrow>
            cancelCtx_cancel n s a removeFromParent (Some cause) = Some (Returns s)
          \<and> (\<exists>s'. canceler_cancel (Suc n) s a removeFromParent (Some cause) = Some (Returns s')
                \<and> load s' a = Some c \<and> closedChans s' = closedChans s)
          \<and> (\<forall>s'. rtranclp step s s' \<longrightarrow> (\<exists>c'. load s' a = Some c' \<and> err c' = err c)))
     \<and> (\<forall>m s1. nextAddr s \<le> m \<and> call_CancelFunc m s (CancelFunc a b e0) = Some (Returns s1)
          \<longrightarrow> (\<exists>c1. load s1 a = Some c1 \<and> err c1 \<noteq> None
                \<and> (\<forall>s2 k. rtranclp step s1 s2
                      \<longrightarrow> (\<exists>s3 c3. call_CancelFunc (Suc k) s2 (CancelFunc a b e0) = Some (Returns s3)
                             \<and> load s3 a = Some c3 \<and> err c3 = err c1))))"
proof (intro conjI impI allI)
  note w = reachable_wf [OF assms(1)]
  {
    assume e: "err c \<noteq> None"
    show "cancelCtx_cancel n s a removeFromParent (Some cause) = Some (Returns s)"
      using assms(2) e by (simp add: cancelCtx_cancel.simps)
    from canceler_cancel_cancelled [OF assms(2) e, of n removeFromParent cause] assms(2)
    show "\<exists>s'. canceler_cancel (Suc n) s a removeFromParent (Some cause) = Some (Returns s')
                \<and> load s' a = Some c \<and> closedChans s' = closedChans s"
      by auto
    fix s' assume "rtranclp step s s'"
    from steps_err_kept [OF w this assms(2) e]
    show "\<exists>c'. load s' a = Some c' \<and> err c' = err c" .
  }
  {
    fix m s1
    assume h: "nextAddr s \<le> m \<and> call_CancelFunc m s (CancelFunc a b e0) = Some (Returns s1)"
    then have r: "canceler_cancel m s a b (Some e0) = Some (Returns s1)" by simp
    from canceler_cancel_sets_err [OF w assms(2) _ r] h obtain c1 where
      c1: "wf s1" "load s1 a = Some c1" "err c1 \<noteq> None" by (auto split: if_splits)
    have "\<exists>s3 c3. call_CancelFunc (Suc k) s2 (CancelFunc a b e0) = Some (Returns s3)
                             \<and> load s3 a = Some c3 \<and> err c3 = err c1"
      if "rtranclp step s1 s2" for s2 k
    proof -
      from steps_err_kept [OF c1(1) that c1(2,3)] obtain c2 where
        c2: "load s2 a = Some c2" "err c2 = err c1" by blast
      from canceler_cancel_cancelled [OF c2(1), of k b e0] c2 c1(3) show ?thesis by auto
    qed
    with c1 show "\<exists>c1. load s1 a = Some c1 \<and> err c1 \<noteq> None
                \<and> (\<forall>s2 k. rtranclp step s1 s2
                      \<longrightarrow> (\<exists>s3 c3. call_CancelFunc (Suc k) s2 (CancelFunc a b e0) = Some (Returns s3)
                             \<and> load s3 a = Some c3 \<and> err c3 = err c1))"
      by blast
  }
qed

theorem cancel_first_cause_wins_witness:
  "reachable st_cancelled \<and> reachable st_fresh
   \<and> load st_cancelled 2 = Some \<lparr> Context = Some 0, done_c = Some closedchan, children = None, err = Some Canceled \<rparr>
   \<and> cancelCtx_cancel 0 st_cancelled 2 True (Some DeadlineExceeded) = Some (Returns st_cancelled)
   \<and> (\<exists>c'. load (advance st_cancelled 7) 2 = Some c' \<and> err c' = Some Canceled)
   \<and> call_CancelFunc 3 st_fresh (CancelFunc 2 True Canceled) = Some (Returns st_cancelled)
   \<and> (\<exists>s3 c3. call_CancelFunc 1 st_cancelled (CancelFunc 2 True Canceled) = Some (Returns s3)
          \<and> load s3 2 = Some c3 \<and> err c3 = Some Canceled)"
proof -
  have n: "nextAddr st_fresh \<le> 3" by (simp add: st_fresh_def)
  have c: "call_CancelFunc 3 st_fresh (CancelFunc 2 True Canceled) = Some (Returns st_cancelled)"
    using cancel_st_fresh by simp
  have st: "rtranclp step st_cancelled (advance st_cancelled 7)"
    by (rule r_into_rtranclp) (rule step.advance)
  from cancel_first_cause_wins [OF reachable_st_cancelled load_st_cancelled, of 0 True DeadlineExceeded True Canceled] st
  have 1: "cancelCtx_cancel 0 st_cancelled 2 True (Some DeadlineExceeded) = Some (Returns st_cancelled)"
    and 2: "\<exists>c'. load (advance st_cancelled 7) 2 = Some c' \<and> err c' = Some Canceled"
    by auto
  from cancel_first_cause_wins [OF reachable_st_fresh load_st_fresh, of 0 True Canceled True Canceled] n c
  have "\<exists>c1. load st_cancelled 2 = Some c1 \<and> err c1 \<noteq> None
                \<and> (\<forall>s2 k. rtranclp step st_cancelled s2
                      \<longrightarrow> (\<exists>s3 c3. call_CancelFunc (Suc k) s2 (CancelFunc 2 True Canceled) = Some (Returns s3)
                             \<and> load s3 2 = Some c3 \<and> err c3 = err c1))"
    by blast
  then have 3: "\<exists>s3 c3. call_CancelFunc 1 st_cancelled (CancelFunc 2 True Canceled) = Some (Returns s3)
          \<and> load s3 2 = Some c3 \<and> err c3 = Some Canceled"
    using load_st_cancelled rtranclp.rtrancl_refl [of step st_cancelled]
    by (metis One_nat_def cancelCtx.select_convs(4) option.inject)
  from 1 2 3 c show ?thesis using reachable_st_cancelled reachable_st_fresh load_st_cancelled by simp
qed


section \<open>Done is never nil and stable\<close>

text \<open>
  C10: for a cancellable context of a reachable store, \<open>cancelCtx.Done\<close> returns a channel,
  never nil. When the context has no done channel yet, the call makes one new, open
  channel; when it has one, the call returns that channel and changes nothing. After
  any further steps \<open>Done\<close> returns the same channel again and leaves the store as it
  is, so the channel is made once. When the context is cancelled before its channel was
  made, every later \<open>Done\<close> returns \<open>closedchan\<close>, which is closed.
\<close>

theorem Done_stable:
  assumes "reachable s" and "load s a = Some c"
  shows "\<exists>d s1. cancelCtx_Done s a = Some (Returns (Some d, s1))
     \<and> (case done_c c of
           None \<Rightarrow> d = nextChan s \<and> d \<notin> closedChans s \<and> nextChan s1 = Suc (nextChan s)
         | Some d' \<Rightarrow> d = d' \<and> s1 = s)
     \<and> (\<forall>s2. rtranclp step s1 s2 \<longrightarrow> cancelCtx_Done s2 a = Some (Returns (Some d, s2)))
     \<and> (\<forall>n removeFromParent cause s'. done_c c = None \<and> nextAddr s \<le> n
            \<and> canceler_cancel n s a removeFromParent (Some cause) = Some (Returns s')
          \<longrightarrow> (\<forall>s2. rtranclp step s' s2
                \<longrightarrow> cancelCtx_Done s2 a = Some (Returns (Some closedchan, s2)) \<and> closedchan \<in> closedChans s2))"
proof -
  note w = reachable_wf [OF assms(1)]
  note w0 = wf_wf0 [OF w]
  define d where "d = (case done_c c of None \<Rightarrow> nextChan s | Some d \<Rightarrow> d)"
  let ?s1 = "ensure_done s a"
  have D: "cancelCtx_Done s a = Some (Returns (Some d, ?s1))"
    unfolding d_def by (rule cancelCtx_Done_ensure_done [OF assms(2)])
  have first: "case done_c c of
           None \<Rightarrow> d = nextChan s \<and> d \<notin> closedChans s \<and> nextChan ?s1 = Suc (nextChan s)
         | Some d' \<Rightarrow> d = d' \<and> ?s1 = s"
    using assms(2) wf0_closed_lt [OF w0, of "nextChan s"]
    by (auto simp: d_def ensure_done_def split: option.splits)
  have l1: "load ?s1 a = Some (c\<lparr>done_c := Some d\<rparr>)"
    using assms(2) by (simp add: load_ensure_done d_def)
  have later: "cancelCtx_Done s2 a = Some (Returns (Some d, s2))" if "rtranclp step ?s1 s2" for s2
  proof -
    from steps_done_kept [OF wf_ensure_done [OF w] that l1] obtain c2 where
      "load s2 a = Some c2" "done_c c2 = Some d" by auto
    then show ?thesis by (rule cancelCtx_Done_made)
  qed
  have canc: "cancelCtx_Done s2 a = Some (Returns (Some closedchan, s2)) \<and> closedchan \<in> closedChans s2"
    if h: "done_c c = None \<and> nextAddr s \<le> n
            \<and> canceler_cancel n s a rfp (Some cause) = Some (Returns s')"
      and st: "rtranclp step s' s2" for n rfp cause s' s2
  proof -
    from wf0_cc [OF w0 assms(2)] h have e: "err c = None" by (auto simp: cc_ok_def)
    from h have b: "nextAddr s \<le> a + n" by simp
    from canceler_cancel_top [OF w assms(2) b, of rfp cause] h e obtain s4 q where
      t: "q < a" "benign q s4 s'" "load s4 a = Some (mark cause c)" "wf s'" by auto
    from t(1,2) have "heap s' a = heap s4 a" by (simp add: benign_def)
    with t(3) have l': "load s' a = Some (mark cause c)" by (simp add: load_def)
    have dc: "done_c (mark cause c) = Some closedchan" using h by (simp add: dch_def)
    from steps_done_kept [OF t(4) st l' dc] obtain c2 where
      "load s2 a = Some c2" "done_c c2 = Some closedchan" by auto
    then have "cancelCtx_Done s2 a = Some (Returns (Some closedchan, s2))" by (rule cancelCtx_Done_made)
    moreover have "closedchan \<in> closedChans s2"
      using wf0_closedchan [OF wf_wf0 [OF conjunct1 [OF steps_wf_grows [OF st t(4)]]]] .
    ultimately show ?thesis ..
  qed
  from D first later canc show ?thesis by blast
qed

theorem Done_stable_witness:
  "reachable st_fresh
   \<and> load st_fresh 2 = Some \<lparr> Context = Some 0, done_c = None, children = None, err = None \<rparr>
   \<and> (\<exists>s1. cancelCtx_Done st_fresh 2 = Some (Returns (Some 1, s1)) \<and> nextChan s1 = 2
         \<and> cancelCtx_Done s1 2 = Some (Returns (Some 1, s1))
         \<and> cancelCtx_Done (advance s1 9) 2 = Some (Returns (Some 1, advance s1 9)))
   \<and> canceler_cancel 3 st_fresh 2 True (Some Canceled) = Some (Returns st_cancelled)
   \<and> cancelCtx_Done st_cancelled 2 = Some (Returns (Some closedchan, st_cancelled))"
proof -
  have n: "nextAddr st_fresh \<le> 3" "nextChan st_fresh = 1" by (simp_all add: st_fresh_def)
  from Done_stable [OF reachable_st_fresh load_st_fresh] obtain d s1 where
    h: "cancelCtx_Done st_fresh 2 = Some (Returns (Some d, s1))"
      "d = nextChan st_fresh \<and> d \<notin> closedChans st_fresh \<and> nextChan s1 = Suc (nextChan st_fresh)"
      "\<forall>s2. rtranclp step s1 s2 \<longrightarrow> cancelCtx_Done s2 2 = Some (Returns (Some d, s2))"
      "\<forall>n removeFromParent cause s'. nextAddr st_fresh \<le> n
            \<and> canceler_cancel n st_fresh 2 removeFromParent (Some cause) = Some (Returns s')
          \<longrightarrow> (\<forall>s2. rtranclp step s' s2
                \<longrightarrow> cancelCtx_Done s2 2 = Some (Returns (Some closedchan, s2)) \<and> closedchan \<in> closedChans s2)"
    by auto
  have st: "rtranclp step s1 (advance s1 9)" by (rule r_into_rtranclp) (rule step.advance)
  from h(3) st have 1: "cancelCtx_Done s1 2 = Some (Returns (Some d, s1))"
    "cancelCtx_Done (advance s1 9) 2 = Some (Returns (Some d, advance s1 9))" by auto
  from h(4) n(1) cancel_st_fresh have 2: "cancelCtx_Done st_cancelled 2 = Some (Returns (Some closedchan, st_cancelled))"
    by blast
  from h(1,2) 1 2 n show ?thesis
    using reachable_st_fresh load_st_fresh cancel_st_fresh by auto
qed


section \<open>The timer of a cancelled timer context\<close>

text \<open>
  C6: let a timer context be in a reachable store. When \<open>cancel\<close> is called on it, or on a
  context it is registered below (so that the fan-out reaches it), and returns, then in
  the store returned and after any further steps the timer context is cancelled and its
  timer is not scheduled any more; a run of the timer callback changes nothing.
\<close>

theorem timer_stopped_when_cancelled:
  assumes "reachable s" and "heap s a = Some (TimerCtx c d t)"
  shows "\<forall>b n removeFromParent cause s'. (b = a \<or> below s b a) \<and> nextAddr s \<le> n
            \<and> canceler_cancel n s b removeFromParent (Some cause) = Some (Returns s')
          \<longrightarrow> (\<forall>s2. rtranclp step s' s2
                \<longrightarrow> cancelled s2 a \<and> \<not> pending s2 a \<and> (\<forall>m. timer_fire m s2 a = Some (Returns s2)))"
proof (intro allI impI)
  fix b n rfp cause s' s2
  assume h: "(b = a \<or> below s b a) \<and> nextAddr s \<le> n
            \<and> canceler_cancel n s b rfp (Some cause) = Some (Returns s')"
    and st: "rtranclp step s' s2"
  note w = reachable_wf [OF assms(1)]
  from assms(2) have la: "load s a \<noteq> None" by (simp add: load_def)
  from cancel_reaches_below [OF w _ la, of b n rfp cause s'] h have
    w': "wf s'" and c': "cancelled s' a" by auto
  from c' obtain c1 where c1: "load s' a = Some c1" "err c1 \<noteq> None" by (auto simp: cancelled_load)
  from steps_err_kept [OF w' st c1] c1(2) have c2: "cancelled s2 a" by (auto simp: cancelled_load)
  from steps_wf_grows [OF st w'] have "wf s2" by simp
  from cancelled_not_pending [OF this c2] c2 timer_fire_not_pending
  show "cancelled s2 a \<and> \<not> pending s2 a \<and> (\<forall>m. timer_fire m s2 a = Some (Returns s2))" by blast
qed

theorem timer_stopped_when_cancelled_witness:
  "reachable st_tree
   \<and> heap st_tree 4 = Some (TimerCtx \<lparr> Context = Some 3, done_c = None, children = None, err = None \<rparr> 9 True)
   \<and> pending st_tree 4 \<and> below st_tree 2 4
   \<and> (\<exists>s'. canceler_cancel 5 st_tree 2 True (Some Canceled) = Some (Returns s')
         \<and> cancelled s' 4 \<and> \<not> pending s' 4 \<and> timer_fire 5 s' 4 = Some (Returns s')
         \<and> \<not> pending (advance s' 20) 4)"
proof -
  have h: "heap st_tree 4 = Some (TimerCtx \<lparr> Context = Some 3, done_c = None, children = None, err = None \<rparr> 9 True)"
    by (simp add: st_tree_def)
  then have p: "pending st_tree 4" by (simp add: pending_def)
  have n: "nextAddr st_tree \<le> 5" "nextAddr st_tree \<le> 2 + 5" by (simp_all add: st_tree_def)
  from canceler_cancel_top [OF wf_st_tree load_st_tree(1) n(2), of True Canceled] obtain s' where
    r: "canceler_cancel 5 st_tree 2 True (Some Canceled) = Some (Returns s')" by blast
  have st: "rtranclp step s' (advance s' 20)" by (rule r_into_rtranclp) (rule step.advance)
  from timer_stopped_when_cancelled [OF reachable_st_tree h] below_st_tree(2) n(1) r
  have a: "\<forall>s2. rtranclp step s' s2
                \<longrightarrow> cancelled s2 4 \<and> \<not> pending s2 4 \<and> (\<forall>m. timer_fire m s2 4 = Some (Returns s2))"
    by blast
  from a st have "\<not> pending (advance s' 20) 4" by blast
  moreover from a have "cancelled s' 4 \<and> \<not> pending s' 4 \<and> timer_fire 5 s' 4 = Some (Returns s')"
    by blast
  ultimately show ?thesis using reachable_st_tree h p below_st_tree(2) r by blast
qed


section \<open>The watcher goroutine\<close>

text \<open>
  C9: let the parent's done channel be made and open and let \<open>parentCancelCtx\<close> find no
  \<open>cancelCtx\<close> for it. Then \<open>propagateCancel\<close> returns with one watcher for the pair of
  parent and child added and the counter \<open>goroutines\<close> one higher (as a 32-bit integer).
  In every store reached from there: the watcher is still pending unless the child is
  cancelled; a step leaves the counter as it is or adds one to it; and a run of the
  watcher returns and leaves the counter as it is. When the parent's channel is closed
  the run cancels the child with the error that the parent's \<open>Err\<close> returns (a child
  cancelled before keeps its \<open>err\<close>) and the watcher ends; when only the child is
  cancelled the watcher ends; otherwise it keeps waiting and the child stays
  uncancelled.

  The child observes the parent's cancellation in the end: take any infinite sequence of
  steps from the store that \<open>propagateCancel\<close> returns in which the scheduler is fair to
  the watcher, that is, whenever the watcher is pending, at some later point it has
  ended or the step taken is its run. Once the parent's done channel is closed in this
  sequence, from some point on the child is cancelled and its own done channel is closed.
\<close>

theorem watcher_fallback:
  assumes "wf s" and "load s child = Some cc"
    and "ctx_Done s parent = Some (Returns (Some d, s1))" and "d \<notin> closedChans s"
    and "parentCancelCtx s1 parent = Some (Returns (None, s2))"
  shows "\<exists>sw. propagateCancel n s parent child = Some (Returns sw)
      \<and> goroutines sw = goroutines s + 1 \<and> watchers sw = watchers s @ [(parent, child)]
      \<and> (\<forall>t. rtranclp step sw t \<longrightarrow>
            ((parent, child) \<in> set (watchers t) \<or> cancelled t child)
          \<and> (\<forall>t'. step t t' \<longrightarrow> goroutines t' = goroutines t \<or> goroutines t' = goroutines t + 1)
          \<and> (\<forall>i m. i < length (watchers t) \<and> watchers t ! i = (parent, child) \<and> nextAddr t \<le> m
               \<longrightarrow> (\<exists>pd t1 t' c c'. ctx_Done t parent = Some (Returns (pd, t1)) \<and> load t child = Some c
                     \<and> watcher_run m t i = Some (Returns t') \<and> goroutines t' = goroutines t
                     \<and> load t' child = Some c'
                     \<and> (if \<exists>d'. pd = Some d' \<and> d' \<in> closedChans t
                        then \<exists>e. ctx_Err t parent = Some (Returns (Some e))
                            \<and> err c' = (if err c = None then Some e else err c)
                            \<and> watchers t' = remove_nth i (watchers t)
                        else if err c \<noteq> None
                        then err c' = err c \<and> watchers t' = remove_nth i (watchers t)
                        else err c' = None \<and> watchers t' = watchers t))))
      \<and> (\<forall>r. r 0 = sw \<and> (\<forall>k. step (r k) (r (Suc k)))
            \<and> (\<forall>k. (parent, child) \<in> set (watchers (r k))
                  \<longrightarrow> (\<exists>j\<ge>k. (parent, child) \<notin> set (watchers (r j))
                        \<or> (\<exists>i m. i < length (watchers (r j)) \<and> watchers (r j) ! i = (parent, child)
                              \<and> nextAddr (r j) \<le> m
                              \<and> watcher_run m (r j) i = Some (Returns (r (Suc j))))))
          \<longrightarrow> (\<forall>k. done_closed (r k) parent
                \<longrightarrow> (\<exists>j\<ge>k. \<forall>j'\<ge>j. cancelled (r j') child
                      \<and> (\<exists>c dc. load (r j') child = Some c \<and> done_c c = Some dc
                             \<and> dc \<in> closedChans (r j')))))"
proof -
  let ?sw = "s1\<lparr>goroutines := goroutines s + 1, watchers := watchers s @ [(parent, child)]\<rparr>"
  note P = propagateCancel_watch [OF assms(3,4,5), of n child]
  from ctx_Done_step [OF assms(1,3)] have w1: "wf s1" and g1: "grows s s1" by simp_all
  have wsw: "wf ?sw" by (rule wf_upd_tasks [OF w1])
  from grows_load [OF g1 assms(2)] have lsw: "load ?sw (snd (parent, child)) \<noteq> None"
    by (auto simp: load_def)
  have msw: "(parent, child) \<in> set (watchers ?sw)" by simp
  from ctx_Done_Returns_answers [OF assms(3)] obtain pa q where pa: "parent = Some pa" "answers s pa q" by blast
  from answers_heap [OF pa(2)] wf0_dom [OF wf_wf0 [OF assms(1)], of pa] have pas: "pa < nextAddr s" by simp
  have nsw: "nextAddr ?sw = nextAddr s" using ctx_Done_step [OF assms(1,3)] by simp
  have later: "((parent, child) \<in> set (watchers t) \<or> cancelled t child)
          \<and> (\<forall>t'. step t t' \<longrightarrow> goroutines t' = goroutines t \<or> goroutines t' = goroutines t + 1)
          \<and> (\<forall>i m. i < length (watchers t) \<and> watchers t ! i = (parent, child) \<and> nextAddr t \<le> m
               \<longrightarrow> (\<exists>pd t1 t' c c'. ctx_Done t parent = Some (Returns (pd, t1)) \<and> load t child = Some c
                     \<and> watcher_run m t i = Some (Returns t') \<and> goroutines t' = goroutines t
                     \<and> load t' child = Some c'
                     \<and> (if \<exists>d'. pd = Some d' \<and> d' \<in> closedChans t
                        then \<exists>e. ctx_Err t parent = Some (Returns (Some e))
                            \<and> err c' = (if err c = None then Some e else err c)
                            \<and> watchers t' = remove_nth i (watchers t)
                        else if err c \<noteq> None
                        then err c' = err c \<and> watchers t' = remove_nth i (watchers t)
                        else err c' = None \<and> watchers t' = watchers t)))"
    if st: "rtranclp step ?sw t" for t
  proof -
    from steps_watcher_kept [OF st wsw msw lsw] have
      k: "wf t" "load t child \<noteq> None" "(parent, child) \<in> set (watchers t) \<or> cancelled t child" by simp_all
    from k(2) obtain c where c: "load t child = Some c" by auto
    from steps_wf_grows [OF st wsw] have "nextAddr ?sw \<le> nextAddr t" by (simp add: grows_def)
    with pas nsw have "pa < nextAddr t" by simp
    from ctx_Done_wf0 [OF wf_wf0 [OF k(1)] this] pa(1) obtain pd t1 where
      dn: "ctx_Done t parent = Some (Returns (pd, t1))" by metis
    have run: "\<exists>pd t1 t' c c'. ctx_Done t parent = Some (Returns (pd, t1)) \<and> load t child = Some c
                     \<and> watcher_run m t i = Some (Returns t') \<and> goroutines t' = goroutines t
                     \<and> load t' child = Some c'
                     \<and> (if \<exists>d'. pd = Some d' \<and> d' \<in> closedChans t
                        then \<exists>e. ctx_Err t parent = Some (Returns (Some e))
                            \<and> err c' = (if err c = None then Some e else err c)
                            \<and> watchers t' = remove_nth i (watchers t)
                        else if err c \<noteq> None
                        then err c' = err c \<and> watchers t' = remove_nth i (watchers t)
                        else err c' = None \<and> watchers t' = watchers t)"
      if h: "i < length (watchers t) \<and> watchers t ! i = (parent, child) \<and> nextAddr t \<le> m" for i m
    proof -
      from h have i: "i < length (watchers t)" and p: "watchers t ! i = (parent, child)"
        and n: "nextAddr t \<le> m" by simp_all
      from watcher_run_cases [OF k(1) i p c n dn] dn c show ?thesis by blast
    qed
    from k(3) step_tasks [OF k(1)] run show ?thesis by blast
  qed
  have prog: "\<forall>k. done_closed (r k) parent
                \<longrightarrow> (\<exists>j\<ge>k. \<forall>j'\<ge>j. cancelled (r j') child
                      \<and> (\<exists>c dc. load (r j') child = Some c \<and> done_c c = Some dc
                             \<and> dc \<in> closedChans (r j')))"
    if h: "r 0 = ?sw \<and> (\<forall>k. step (r k) (r (Suc k)))
            \<and> (\<forall>k. (parent, child) \<in> set (watchers (r k))
                  \<longrightarrow> (\<exists>j\<ge>k. (parent, child) \<notin> set (watchers (r j))
                        \<or> (\<exists>i m. i < length (watchers (r j)) \<and> watchers (r j) ! i = (parent, child)
                              \<and> nextAddr (r j) \<le> m
                              \<and> watcher_run m (r j) i = Some (Returns (r (Suc j))))))" for r
  proof (intro allI impI)
    fix k assume cl: "done_closed (r k) parent"
    from h have r0: "r 0 = ?sw" and run: "\<forall>k. step (r k) (r (Suc k))"
      and fair: "\<forall>k. (parent, child) \<in> set (watchers (r k))
                  \<longrightarrow> (\<exists>j\<ge>k. (parent, child) \<notin> set (watchers (r j))
                        \<or> (\<exists>i m. i < length (watchers (r j)) \<and> watchers (r j) ! i = (parent, child)
                              \<and> nextAddr (r j) \<le> m
                              \<and> watcher_run m (r j) i = Some (Returns (r (Suc j)))))"
      by simp_all
    have "wf (r 0)" "(parent, child) \<in> set (watchers (r 0))" "load (r 0) child \<noteq> None"
      using wsw msw lsw unfolding r0 by simp_all
    from watcher_progress [OF this run fair cl]
    show "\<exists>j\<ge>k. \<forall>j'\<ge>j. cancelled (r j') child
                      \<and> (\<exists>c dc. load (r j') child = Some c \<and> done_c c = Some dc
                             \<and> dc \<in> closedChans (r j'))" .
  qed
  have "propagateCancel n s parent child = Some (Returns ?sw)
      \<and> goroutines ?sw = goroutines s + 1 \<and> watchers ?sw = watchers s @ [(parent, child)]"
    using P by simp
  with later prog show ?thesis by blast
qed


theorem watcher_fallback_witness:
  "wf st_foreign
   \<and> ctx_Done st_foreign (Some 3) = Some (Returns (Some 2, st_foreign))
   \<and> 2 \<notin> closedChans st_foreign
   \<and> parentCancelCtx st_foreign (Some 3) = Some (Returns (None, st_foreign))
   \<and> propagateCancel 1 st_foreign (Some 3) 4 = Some (Returns st_watch)
   \<and> goroutines st_watch = 1
   \<and> step st_watch st_watch_closed
   \<and> (\<exists>t' c'. watcher_run 5 st_watch_closed 0 = Some (Returns t') \<and> load t' 4 = Some c'
         \<and> err c' = Some Canceled \<and> watchers t' = [] \<and> goroutines t' = 1)
   \<and> run_watch 0 = st_watch \<and> done_closed (run_watch 1) (Some 3)
   \<and> cancelled st_watch_done 4"
proof -
  have nc: "2 \<notin> closedChans st_foreign" by (simp add: st_foreign_def closedchan_def)
  have P: "propagateCancel 1 st_foreign (Some 3) 4 = Some (Returns st_watch)"
    using propagateCancel_watch [OF st_foreign_Done3 nc st_foreign_parent3, of 1 4]
    by (simp add: st_watch_def)
  have g: "goroutines st_watch = 1" by (simp add: st_watch_def st_foreign_def)
  have st: "step st_watch st_watch_closed" unfolding st_watch_closed_def by (rule step.foreign_cancel)
  then have sts: "rtranclp step st_watch st_watch_closed" by (rule r_into_rtranclp)
  have gc: "goroutines st_watch_closed = 1"
    by (simp add: st_watch_closed_def st_watch_def st_foreign_def foreign_cancel_def closedchan_def)
  have r0: "run_watch 0 = st_watch" by (simp add: run_watch_def)
  from watcher_fallback [OF wf_st_foreign st_foreign_load4 st_foreign_Done3 nc st_foreign_parent3, of 1] P
  have all: "\<forall>t. rtranclp step st_watch t \<longrightarrow>
          (\<forall>i m. i < length (watchers t) \<and> watchers t ! i = (Some 3, 4) \<and> nextAddr t \<le> m
               \<longrightarrow> (\<exists>pd t1 t' c c'. ctx_Done t (Some 3) = Some (Returns (pd, t1)) \<and> load t 4 = Some c
                     \<and> watcher_run m t i = Some (Returns t') \<and> goroutines t' = goroutines t
                     \<and> load t' 4 = Some c'
                     \<and> (if \<exists>d'. pd = Some d' \<and> d' \<in> closedChans t
                        then \<exists>e. ctx_Err t (Some 3) = Some (Returns (Some e))
                            \<and> err c' = (if err c = None then Some e else err c)
                            \<and> watchers t' = remove_nth i (watchers t)
                        else if err c \<noteq> None
                        then err c' = err c \<and> watchers t' = remove_nth i (watchers t)
                        else err c' = None \<and> watchers t' = watchers t)))"
    and prog: "\<forall>r. r 0 = st_watch \<and> (\<forall>k. step (r k) (r (Suc k)))
            \<and> (\<forall>k. (Some 3, 4) \<in> set (watchers (r k))
                  \<longrightarrow> (\<exists>j\<ge>k. (Some 3, 4) \<notin> set (watchers (r j))
                        \<or> (\<exists>i m. i < length (watchers (r j)) \<and> watchers (r j) ! i = (Some 3, 4)
                              \<and> nextAddr (r j) \<le> m
                              \<and> watcher_run m (r j) i = Some (Returns (r (Suc j))))))
          \<longrightarrow> (\<forall>k. done_closed (r k) (Some 3)
                \<longrightarrow> (\<exists>j\<ge>k. \<forall>j'\<ge>j. cancelled (r j') 4
                      \<and> (\<exists>c dc. load (r j') 4 = Some c \<and> done_c c = Some dc
                             \<and> dc \<in> closedChans (r j'))))"
    by auto
  from all [rule_format, OF sts, of 0 5] obtain t' c' where
    "watcher_run 5 st_watch_closed 0 = Some (Returns t')" "goroutines t' = 1" "load t' 4 = Some c'"
    "err c' = Some Canceled" "watchers t' = remove_nth 0 [(Some 3, 4)]"
    by (auto simp: st_watch_closed_facts gc)
  then have 1: "\<exists>t' c'. watcher_run 5 st_watch_closed 0 = Some (Returns t') \<and> load t' 4 = Some c'
         \<and> err c' = Some Canceled \<and> watchers t' = [] \<and> goroutines t' = 1"
    by (auto simp: remove_nth_def)
  from prog [rule_format, of run_watch 1] r0 run_watch_step run_watch_fair run_watch_closed
  obtain j where "\<forall>j'\<ge>j. cancelled (run_watch j') 4" by blast
  then have "cancelled (run_watch (j + 2)) 4" by simp
  then have 2: "cancelled st_watch_done 4" by (simp add: run_watch_def)
  from 1 2 P g st nc r0 run_watch_closed show ?thesis
    using wf_st_foreign st_foreign_Done3 st_foreign_parent3 by simp
qed

end
